(* ===== verification/Prelude.thy ===== *)
theory Prelude
  imports Main "HOL-Library.Word"
begin

text \<open>
  The vocabulary the components share.

  \<^item> Rust's \<open>Result\<close> is the sum type \<open>result\<close>. Its left summand is a \<open>stop\<close>: an error value
    of the source, or a panic. The workspace is built with \<open>overflow-checks = true\<close>
    (\<open>src/Cargo.toml\<close>), so an integer overflow, an index out of range and a failed \<open>expect\<close>
    are all panics, and a panic is a branch of the model.
  \<^item> Bytes are 8-bit words and \<open>[u8; 32]\<close> values (hashes, node identifiers) are 256-bit words
    read big-endian: equality, the all-zero test and Rust's lexicographic order on the array
    are equality, \<open>= 0\<close> and the numeric order on the word.
  \<^item> \<open>u16\<close>, \<open>u32\<close>, \<open>u64\<close> and \<open>usize\<close> (64 bits) are \<open>nat\<close> with every bound written out:
    the checked operations return \<open>None\<close>, the plain operators panic.
  \<^item> BLAKE3 is third-party code. It is a record of functions, an argument of every definition
    that hashes.
\<close>

section \<open>Results and panics\<close>

datatype 'e stop = Error 'e | Panic

type_synonym ('e, 'a) result = "'e stop + 'a"

abbreviation Ok :: "'a \<Rightarrow> ('e, 'a) result" where "Ok x \<equiv> Inr x"
abbreviation Err :: "'e \<Rightarrow> ('e, 'a) result" where "Err e \<equiv> Inl (Error e)"
abbreviation panic :: "('e, 'a) result" where "panic \<equiv> Inl Panic"

named_theorems result_simps \<open>unfolding of the result combinators\<close>

text \<open>The \<open>?\<close> operator, \<open>Option::ok_or\<close>, \<open>Option::expect\<close>, \<open>Result::map_err\<close> and \<open>is_err\<close>.\<close>

definition and_then :: "('e, 'a) result \<Rightarrow> ('a \<Rightarrow> ('e, 'b) result) \<Rightarrow> ('e, 'b) result" where
  "and_then r f = (case r of Inl e \<Rightarrow> Inl e | Inr x \<Rightarrow> f x)"

definition ok_or :: "'a option \<Rightarrow> 'e \<Rightarrow> ('e, 'a) result" where
  "ok_or v e = (case v of None \<Rightarrow> Err e | Some x \<Rightarrow> Ok x)"

definition expect :: "'a option \<Rightarrow> ('e, 'a) result" where
  "expect v = (case v of None \<Rightarrow> panic | Some x \<Rightarrow> Ok x)"

definition map_err :: "('e \<Rightarrow> 'f) \<Rightarrow> ('e, 'a) result \<Rightarrow> ('f, 'a) result" where
  "map_err g r = (case r of Err e \<Rightarrow> Err (g e) | panic \<Rightarrow> panic | Ok x \<Rightarrow> Ok x)"

definition is_err :: "('e, 'a) result \<Rightarrow> bool" where
  "is_err r = (case r of Inl _ \<Rightarrow> True | Inr _ \<Rightarrow> False)"

definition assert_or :: "bool \<Rightarrow> 'e \<Rightarrow> ('e, unit) result" where
  "assert_or b e = (if b then Ok () else Err e)"

lemma and_then_simps [simp, result_simps]:
  "and_then (Inr x) f = f x"
  "and_then (Inl e) f = Inl e"
  by (simp_all add: and_then_def)

lemma and_then_Ok_iff [result_simps]:
  "and_then r f = Inr y \<longleftrightarrow> (\<exists>x. r = Inr x \<and> f x = Inr y)"
  by (cases r) auto

lemma and_then_Inl_iff [result_simps]:
  "and_then r f = Inl e \<longleftrightarrow> r = Inl e \<or> (\<exists>x. r = Inr x \<and> f x = Inl e)"
  by (cases r) auto

lemma ok_or_simps [simp, result_simps]:
  "ok_or None e = Err e" "ok_or (Some x) e = Ok x"
  by (simp_all add: ok_or_def)

lemma ok_or_iff [result_simps]:
  "ok_or v e = Inr x \<longleftrightarrow> v = Some x"
  "ok_or v e = Inl s \<longleftrightarrow> v = None \<and> s = Error e"
  by (cases v; auto)+

lemma expect_simps [simp, result_simps]:
  "expect None = panic" "expect (Some x) = Ok x"
  by (simp_all add: expect_def)

lemma expect_iff [result_simps]:
  "expect v = Inr x \<longleftrightarrow> v = Some x"
  "expect v = Inl s \<longleftrightarrow> v = None \<and> s = Panic"
  by (cases v; auto)+

lemma map_err_simps [simp, result_simps]:
  "map_err g (Ok x) = Ok x" "map_err g (Err e) = Err (g e)" "map_err g panic = panic"
  by (simp_all add: map_err_def)

lemma map_err_Ok_iff [result_simps]: "map_err g r = Inr x \<longleftrightarrow> r = Inr x"
  by (simp add: map_err_def split: sum.splits stop.splits)

definition panic_free :: "('e, 'a) result \<Rightarrow> bool" where
  "panic_free r \<longleftrightarrow> r \<noteq> panic"

lemma panic_free_simps [simp]: "panic_free (Ok x)" "panic_free (Err e)" "\<not> panic_free panic" "panic_free (ok_or v e)"
  by (auto simp: panic_free_def ok_or_iff)

lemma panic_free_map_err [simp]: "panic_free (map_err g r) \<longleftrightarrow> panic_free r"
  by (simp add: panic_free_def map_err_def split: sum.splits stop.splits)

lemma panic_free_and_then [intro!]: "panic_free r \<Longrightarrow> (\<And>x. r = Inr x \<Longrightarrow> panic_free (f x)) \<Longrightarrow> panic_free (and_then r f)"
  by (cases r) (simp_all add: panic_free_def)

lemma is_err_simps [simp]: "is_err (Inl e)" "\<not> is_err (Inr x)"
  by (simp_all add: is_err_def)

lemma not_is_err_iff: "\<not> is_err r \<longleftrightarrow> (\<exists>x. r = Inr x)"
  by (cases r) auto

lemma assert_or_iff [result_simps]:
  "assert_or b e = Inr u \<longleftrightarrow> b"
  "assert_or b e = Inl s \<longleftrightarrow> \<not> b \<and> s = Error e"
  by (auto simp: assert_or_def)

subsection \<open>Operations on a state\<close>

text \<open>A method that updates an object and the environment it calls into maps the state before
  to the state after and a result; the state after an error is the one the code leaves behind.\<close>

type_synonym ('s, 'e, 'a) op = "'s \<Rightarrow> 's \<times> ('e, 'a) result"

definition op_then :: "('s, 'e, 'a) op \<Rightarrow> ('a \<Rightarrow> ('s, 'e, 'b) op) \<Rightarrow> ('s, 'e, 'b) op" where
  "op_then f g s = (case f s of (s', Inl e) \<Rightarrow> (s', Inl e) | (s', Inr x) \<Rightarrow> g x s')"

definition op_result :: "('e, 'a) result \<Rightarrow> ('s, 'e, 'a) op" where
  "op_result r s = (s, r)"

definition op_update :: "('s \<Rightarrow> 's) \<Rightarrow> ('s, 'e, unit) op" where
  "op_update f s = (f s, Ok ())"

lemma op_then_eq: "f s = (s', Inr x) \<Longrightarrow> op_then f g s = g x s'" "f s = (s', Inl e) \<Longrightarrow> op_then f g s = (s', Inl e)"
  by (simp_all add: op_then_def)

lemma op_then_Inr: "op_then f g s = (s'', Inr y) \<longleftrightarrow> (\<exists>s' x. f s = (s', Inr x) \<and> g x s' = (s'', Inr y))"
  by (auto simp: op_then_def split: prod.splits sum.splits)

lemma op_then_Inl: "op_then f g s = (s'', Inl e) \<longleftrightarrow>
    f s = (s'', Inl e) \<or> (\<exists>s' x. f s = (s', Inr x) \<and> g x s' = (s'', Inl e))"
  by (auto simp: op_then_def split: prod.splits sum.splits)

lemma op_result_simps [simp]: "op_result r s = (s, r)"
  by (simp add: op_result_def)

lemma op_then_result [simp]:
  "op_then (op_result (Inr x)) g s = g x s" "op_then (op_result (Inl e)) g s = (s, Inl e)"
  by (simp_all add: op_then_def)

lemma op_then_update [simp]: "op_then (op_update f) g s = g () (f s)"
  by (simp add: op_then_def op_update_def)

lemmas op_simps = op_then_Inr op_then_Inl op_result_def op_update_def

section \<open>Machine integers\<close>

type_synonym byte = "8 word"
type_synonym digest = "256 word"

definition checked_add :: "nat \<Rightarrow> nat \<Rightarrow> nat \<Rightarrow> nat option" where
  "checked_add w a b = (if a + b < 2 ^ w then Some (a + b) else None)"

definition checked_sub :: "nat \<Rightarrow> nat \<Rightarrow> nat option" where
  "checked_sub a b = (if b \<le> a then Some (a - b) else None)"

definition checked_mul :: "nat \<Rightarrow> nat \<Rightarrow> nat \<Rightarrow> nat option" where
  "checked_mul w a b = (if a * b < 2 ^ w then Some (a * b) else None)"

text \<open>The operators \<open>+\<close>, \<open>-\<close> and \<open>*\<close> at width \<open>w\<close> panic where the checked ones return \<open>None\<close>.\<close>

definition uadd :: "nat \<Rightarrow> nat \<Rightarrow> nat \<Rightarrow> ('e, nat) result" where
  "uadd w a b = expect (checked_add w a b)"

definition usub :: "nat \<Rightarrow> nat \<Rightarrow> ('e, nat) result" where
  "usub a b = expect (checked_sub a b)"

definition umul :: "nat \<Rightarrow> nat \<Rightarrow> nat \<Rightarrow> ('e, nat) result" where
  "umul w a b = expect (checked_mul w a b)"

definition saturating_add :: "nat \<Rightarrow> nat \<Rightarrow> nat \<Rightarrow> nat" where
  "saturating_add w a b = min (a + b) (2 ^ w - 1)"

lemma checked_add_Some [simp]: "checked_add w a b = Some c \<longleftrightarrow> c = a + b \<and> a + b < 2 ^ w"
  by (auto simp: checked_add_def)

lemma checked_add_eq [simp]: "a + b < 2 ^ w \<Longrightarrow> checked_add w a b = Some (a + b)"
  by (simp add: checked_add_def)

lemma checked_add_overflow [simp]: "2 ^ w \<le> a + b \<Longrightarrow> checked_add w a b = None"
  by (simp add: checked_add_def)

lemma checked_sub_less [simp]: "a < b \<Longrightarrow> checked_sub a b = None"
  by (simp add: checked_sub_def)

lemma checked_sub_eq [simp]: "b \<le> a \<Longrightarrow> checked_sub a b = Some (a - b)"
  by (simp add: checked_sub_def)

lemma checked_add_None [simp]: "checked_add w a b = None \<longleftrightarrow> 2 ^ w \<le> a + b"
  by (auto simp: checked_add_def)

lemma checked_sub_Some [simp]: "checked_sub a b = Some c \<longleftrightarrow> c = a - b \<and> b \<le> a"
  by (auto simp: checked_sub_def)

lemma checked_sub_None [simp]: "checked_sub a b = None \<longleftrightarrow> a < b"
  by (auto simp: checked_sub_def)

lemma checked_mul_Some [simp]: "checked_mul w a b = Some c \<longleftrightarrow> c = a * b \<and> a * b < 2 ^ w"
  by (auto simp: checked_mul_def)

lemma uadd_iff [simp]:
  "uadd w a b = Inr c \<longleftrightarrow> c = a + b \<and> a + b < 2 ^ w"
  "uadd w a b = Inl s \<longleftrightarrow> s = Panic \<and> 2 ^ w \<le> a + b"
  by (auto simp: uadd_def expect_iff)

lemma usub_iff [simp]:
  "usub a b = Inr c \<longleftrightarrow> c = a - b \<and> b \<le> a"
  "usub a b = Inl s \<longleftrightarrow> s = Panic \<and> a < b"
  by (auto simp: usub_def expect_iff)

lemma uadd_eq [simp]: "a + b < 2 ^ w \<Longrightarrow> uadd w a b = Ok (a + b)"
  by (simp add: uadd_def checked_add_def)

lemma usub_eq [simp]: "b \<le> a \<Longrightarrow> usub a b = Ok (a - b)"
  by (simp add: usub_def checked_sub_def)

lemma umul_iff [simp]:
  "umul w a b = Inr c \<longleftrightarrow> c = a * b \<and> a * b < 2 ^ w"
  by (auto simp: umul_def expect_iff)

subsection \<open>Powers of two\<close>

text \<open>\<open>is_power_of_two\<close> and \<open>ilog2\<close> of Rust's unsigned integers (\<open>ilog2 0\<close> panics in Rust;
  every call in the source is on a positive number).\<close>

fun is_power_of_two :: "nat \<Rightarrow> bool" where
  "is_power_of_two n = (if n = 0 then False else if n = 1 then True
     else even n \<and> is_power_of_two (n div 2))"

fun ilog2 :: "nat \<Rightarrow> nat" where
  "ilog2 n = (if n < 2 then 0 else Suc (ilog2 (n div 2)))"

declare is_power_of_two.simps [simp del] ilog2.simps [simp del]

lemma is_power_of_two_power [simp]: "is_power_of_two (2 ^ k)"
  by (induction k) (simp_all add: is_power_of_two.simps)

lemma is_power_of_two_iff: "is_power_of_two n \<longleftrightarrow> (\<exists>k. n = 2 ^ k)"
proof
  show "is_power_of_two n \<Longrightarrow> \<exists>k. n = 2 ^ k"
  proof (induction n rule: is_power_of_two.induct)
    case (1 n)
    show ?case
    proof (cases "n = 1")
      case True
      then have "n = 2 ^ 0" by simp
      then show ?thesis by blast
    next
      case False
      with "1.prems" have n: "n \<noteq> 0" "even n" "is_power_of_two (n div 2)"
        by (auto simp: is_power_of_two.simps [of n] split: if_splits)
      with "1.IH" False obtain k where "n div 2 = 2 ^ k" by auto
      with n(2) have "n = 2 ^ Suc k" by auto
      then show ?thesis by blast
    qed
  qed
next
  show "\<exists>k. n = 2 ^ k \<Longrightarrow> is_power_of_two n" by auto
qed

lemma ilog2_power [simp]: "ilog2 (2 ^ k) = k"
proof (induction k)
  case (Suc k)
  have "\<not> (2::nat) ^ Suc k < 2" using one_le_power [of "2::nat" k] by simp
  then show ?case using Suc by (simp add: ilog2.simps [of "2 * 2 ^ k"])
qed (simp add: ilog2.simps)

lemma ilog2_one [simp]: "ilog2 1 = 0" "ilog2 (Suc 0) = 0"
  using ilog2_power [of 0] by simp_all

lemma power_of_two_ilog2: "is_power_of_two n \<Longrightarrow> n = 2 ^ ilog2 n"
  by (auto simp: is_power_of_two_iff)

section \<open>Byte strings\<close>

text \<open>\<open>to_be_bytes\<close> of an unsigned integer with \<open>k\<close> bytes, and its inverse.\<close>

fun be_bytes :: "nat \<Rightarrow> nat \<Rightarrow> byte list" where
  "be_bytes 0 x = []"
| "be_bytes (Suc k) x = be_bytes k (x div 256) @ [word_of_nat (x mod 256)]"

definition from_be_bytes :: "byte list \<Rightarrow> nat" where
  "from_be_bytes bs = foldl (\<lambda>a b. a * 256 + unat b) 0 bs"

lemma length_be_bytes [simp]: "length (be_bytes k x) = k"
  by (induction k arbitrary: x) auto

lemma from_be_bytes_snoc: "from_be_bytes (bs @ [b]) = from_be_bytes bs * 256 + unat b"
  by (simp add: from_be_bytes_def)

lemma unat_of_mod_256 [simp]: "unat (word_of_nat (x mod 256) :: byte) = x mod 256"
  by (simp add: unat_of_nat)

lemma from_be_bytes_be_bytes: "x < 256 ^ k \<Longrightarrow> from_be_bytes (be_bytes k x) = x"
proof (induction k arbitrary: x)
  case 0
  then show ?case by (simp add: from_be_bytes_def)
next
  case (Suc k)
  then have "x div 256 < 256 ^ k" by (simp add: less_mult_imp_div_less mult.commute)
  with Suc.IH show ?case by (simp add: from_be_bytes_snoc)
qed

lemma be_bytes_inj: "x < 256 ^ k \<Longrightarrow> y < 256 ^ k \<Longrightarrow> be_bytes k x = be_bytes k y \<Longrightarrow> x = y"
  by (metis from_be_bytes_be_bytes)

text \<open>The 32 bytes of a digest or identifier.\<close>

definition digest_bytes :: "digest \<Rightarrow> byte list" where
  "digest_bytes d = be_bytes 32 (unat d)"

lemma length_digest_bytes [simp]: "length (digest_bytes d) = 32"
  by (simp add: digest_bytes_def)

lemma unat_digest_less: "unat (d :: digest) < 256 ^ 32"
  using unsigned_less [of d, where ?'a = nat] by simp

lemma digest_bytes_inject [simp]: "digest_bytes a = digest_bytes b \<longleftrightarrow> a = b"
  using be_bytes_inj [OF unat_digest_less unat_digest_less, of a b]
  by (auto simp: digest_bytes_def word_unat_eq_iff)

definition digest_of :: "byte list \<Rightarrow> digest" where
  "digest_of bs = word_of_nat (from_be_bytes bs)"

lemma digest_of_bytes [simp]: "digest_of (digest_bytes d) = d"
  by (simp add: digest_of_def digest_bytes_def from_be_bytes_be_bytes [OF unat_digest_less])

definition zeros :: "nat \<Rightarrow> byte list" where
  "zeros n = replicate n 0"

lemma length_zeros [simp]: "length (zeros n) = n"
  by (simp add: zeros_def)

text \<open>\<open>slice::chunks(n)\<close> keeps a short last chunk; \<open>as_chunks::<N>().0\<close> drops it. \<open>sub xs s n\<close>
  is the list behind the slice \<open>xs[s..s+n]\<close>; \<open>slice\<close> and \<open>index\<close> are Rust's \<open>xs[a..b]\<close> and
  \<open>xs[i]\<close>, which panic out of range.\<close>

function (sequential) chunks :: "nat \<Rightarrow> 'a list \<Rightarrow> 'a list list" where
  "chunks n [] = []"
| "chunks n xs = (if n = 0 then [] else take n xs # chunks n (drop n xs))"
  by pat_completeness auto
termination by (relation "measure (\<lambda>(n, xs). length xs)") auto

definition as_chunks :: "nat \<Rightarrow> 'a list \<Rightarrow> 'a list list" where
  "as_chunks n xs = filter (\<lambda>c. length c = n) (chunks n xs)"

definition sub :: "'a list \<Rightarrow> nat \<Rightarrow> nat \<Rightarrow> 'a list" where
  "sub xs s n = take n (drop s xs)"

definition slice :: "'a list \<Rightarrow> nat \<Rightarrow> nat \<Rightarrow> ('e, 'a list) result" where
  "slice xs a b = (if a \<le> b \<and> b \<le> length xs then Ok (sub xs a (b - a)) else panic)"

definition index :: "'a list \<Rightarrow> nat \<Rightarrow> ('e, 'a) result" where
  "index xs i = (if i < length xs then Ok (xs ! i) else panic)"

lemma index_iff [simp]:
  "index xs i = Inr x \<longleftrightarrow> i < length xs \<and> x = xs ! i"
  "index xs i = Inl s \<longleftrightarrow> length xs \<le> i \<and> s = Panic"
  by (auto simp: index_def)

lemma index_eq: "i < length xs \<Longrightarrow> index xs i = Ok (xs ! i)"
  by simp

lemma slice_eq: "a \<le> b \<Longrightarrow> b \<le> length xs \<Longrightarrow> slice xs a b = Ok (sub xs a (b - a))"
  by (simp add: slice_def)

lemma concat_chunks [simp]: "0 < n \<Longrightarrow> concat (chunks n xs) = xs"
  by (induction n xs rule: chunks.induct) auto

lemma chunks_append_exact: "length xs = n \<Longrightarrow> 0 < n \<Longrightarrow> chunks n (xs @ ys) = xs # chunks n ys"
  by (cases xs) auto

lemma chunks_short: "length xs \<le> n \<Longrightarrow> chunks n xs = (if xs = [] then [] else [xs])"
  by (cases xs) auto

lemma chunks_concat_exact:
  assumes "\<forall>l \<in> set ls. length l = n" "length xs < n"
  shows "chunks n (concat ls @ xs) = ls @ (if xs = [] then [] else [xs])"
  using assms by (induction ls) (auto simp: chunks_append_exact chunks_short)

lemma chunks_nonempty: "c \<in> set (chunks n xs) \<Longrightarrow> c \<noteq> [] \<and> length c \<le> n"
  by (induction n xs rule: chunks.induct) (auto split: if_splits)

lemma chunks_exact:
  assumes "0 < n" "length xs = m * n"
  shows "length (chunks n xs) = m \<and> (\<forall>i < m. chunks n xs ! i = sub xs (i * n) n)"
  using assms(2)
proof (induction m arbitrary: xs)
  case 0
  then show ?case by simp
next
  case (Suc m)
  then obtain y ys where xs: "xs = y # ys" using assms(1) by (cases xs) auto
  have step: "chunks n xs = take n xs # chunks n (drop n xs)"
    using assms(1) by (simp add: xs)
  have IH: "length (chunks n (drop n xs)) = m"
    "\<And>i. i < m \<Longrightarrow> chunks n (drop n xs) ! i = sub (drop n xs) (i * n) n"
    using Suc.IH [of "drop n xs"] Suc.prems by auto
  show ?case
    by (auto simp: step IH sub_def nth_Cons less_Suc_eq_0_disj add.commute split: nat.splits)
qed

lemma as_chunks_exact:
  assumes "0 < n" "length xs = m * n"
  shows "as_chunks n xs = chunks n xs"
proof -
  have "length c = n" if "c \<in> set (chunks n xs)" for c
  proof -
    from that chunks_exact [OF assms] obtain i where i: "i < m" "c = sub xs (i * n) n"
      by (metis in_set_conv_nth)
    have "(i + 1) * n \<le> m * n" using i(1) by (intro mult_le_mono1) simp
    with assms i(2) show ?thesis by (simp add: sub_def)
  qed
  then show ?thesis by (simp add: as_chunks_def filter_id_conv)
qed

lemma length_sub [simp]: "s + n \<le> length xs \<Longrightarrow> length (sub xs s n) = n"
  by (simp add: sub_def)

lemma sub_sub: "s' + n' \<le> n \<Longrightarrow> sub (sub xs s n) s' n' = sub xs (s + s') n'"
  by (simp add: sub_def take_drop min_absorb1 add.commute)

lemma map_sub: "map f (sub xs s n) = sub (map f xs) s n"
  by (simp add: sub_def take_map drop_map)

lemma set_sub_subset: "set (sub xs s n) \<subseteq> set xs"
  unfolding sub_def by (meson in_set_dropD in_set_takeD subsetI)

lemma chunks_sub:
  assumes "0 < k" "length xs = m * k" "i + n \<le> m"
  shows "chunks k (sub xs (i * k) (n * k)) = sub (chunks k xs) i n"
proof (rule nth_equalityI)
  have "(i + n) * k \<le> m * k" using assms(3) by (rule mult_le_mono1)
  then have l: "length (sub xs (i * k) (n * k)) = n * k" using assms(2) by (simp add: add_mult_distrib)
  note c = chunks_exact [OF assms(1) l] and d = chunks_exact [OF assms(1,2)]
  show "length (chunks k (sub xs (i * k) (n * k))) = length (sub (chunks k xs) i n)"
    using c d assms(3) by simp
  fix j
  assume "j < length (chunks k (sub xs (i * k) (n * k)))"
  then have j: "j < n" using c by simp
  then have "(j + 1) * k \<le> n * k" by (intro mult_le_mono1) simp
  then have "sub (sub xs (i * k) (n * k)) (j * k) k = sub xs ((i + j) * k) k"
    by (subst sub_sub) (simp_all add: algebra_simps)
  then show "chunks k (sub xs (i * k) (n * k)) ! j = sub (chunks k xs) i n ! j"
    using c d j assms(3) by (simp add: sub_def [of "chunks k xs"])
qed

section \<open>Hash functions\<close>

text \<open>The two BLAKE3 entry points: \<open>derive_key context bytes\<close> (also the incremental
  \<open>Hasher::new_derive_key(context)\<close> followed by updates, whose digest is that of the
  concatenated updates) and the plain hash.\<close>

record blake3 =
  derive_key :: "string \<Rightarrow> byte list \<Rightarrow> digest"
  plain_hash :: "byte list \<Rightarrow> digest"

text \<open>No two different inputs of a set of \<open>(context, bytes)\<close> queries have the same digest.\<close>

definition collision_free :: "blake3 \<Rightarrow> (string \<times> byte list) set \<Rightarrow> bool" where
  "collision_free B Q \<longleftrightarrow> (\<forall>(c, x) \<in> Q. \<forall>(d, y) \<in> Q. c = d \<longrightarrow> derive_key B c x = derive_key B d y \<longrightarrow> x = y)"

lemma collision_freeD:
  "collision_free B Q \<Longrightarrow> (c, x) \<in> Q \<Longrightarrow> (c, y) \<in> Q \<Longrightarrow> derive_key B c x = derive_key B c y \<Longrightarrow> x = y"
  by (auto simp: collision_free_def)

lemma collision_free_mono: "collision_free B Q \<Longrightarrow> R \<subseteq> Q \<Longrightarrow> collision_free B R"
  unfolding collision_free_def by blast

text \<open>A concrete instance of the hash parameter on which hypotheses about it can be checked: the
  digest of an input is its last byte plus one, which is never zero.\<close>

definition sample_blake3 :: blake3 where
  "sample_blake3 = \<lparr>derive_key = \<lambda>c x. ucast (last x) + 1, plain_hash = \<lambda>x. ucast (last x) + 1\<rparr>"

lemma sample_blake3_simps [simp]:
  "derive_key sample_blake3 c x = ucast (last x) + 1" "plain_hash sample_blake3 x = ucast (last x) + 1"
  by (simp_all add: sample_blake3_def)

lemma last_digest_bytes [simp]: "last (digest_bytes d) = ucast d"
proof -
  have "last (digest_bytes d) = word_of_nat (unat d mod 256)"
    unfolding digest_bytes_def using be_bytes.simps(2) [of 31 "unat d"] by simp
  also have "\<dots> = ucast d"
    by (simp add: word_unat_eq_iff unsigned_ucast_eq unat_of_nat take_bit_eq_mod)
  finally show ?thesis .
qed

lemma digest_bytes_nonempty [simp]: "digest_bytes d \<noteq> []"
  using length_digest_bytes [of d] by (metis length_0_conv zero_neq_numeral)

lemma byte_plus_one_nonzero [simp]: "ucast (b :: byte) + 1 \<noteq> (0 :: digest)"
proof
  assume "ucast b + 1 = (0 :: digest)"
  then have "ucast b = (- 1 :: digest)" by (simp add: eq_neg_iff_add_eq_0)
  then have "unat (ucast b :: digest) = 2 ^ 256 - 1" by (simp add: unsigned_minus_1_eq_mask mask_eq_exp_minus_1)
  then show False using unsigned_less [of b, where ?'a = nat] by (simp add: unsigned_ucast_eq take_bit_eq_mod)
qed

end
