(* ===== verification/Merkle.thy ===== *)
theory Merkle
  imports Prelude
begin

unbundle bit_operations_syntax

text \<open>
  The version-one Merkle suite of \<open>src/crates/mb-core/src/range.rs\<close>: commitments over 16-byte
  leaves, openings of aligned power-of-two ranges and subtrees, their verification, virtual
  all-zero shards, the incremental subtree accumulator and the challenged leaf.

  \<open>tree_root\<close> is the reference definition: the root of a perfect binary tree over a list of
  digests. The lemmas relate the level-by-level code to it.
\<close>

section \<open>Data\<close>

abbreviation (input) MERKLE_LEAF_SIZE :: nat where "MERKLE_LEAF_SIZE \<equiv> 16"
abbreviation (input) MERKLE_SUITE_V1 :: nat where "MERKLE_SUITE_V1 \<equiv> 1"
abbreviation (input) MAX_MERKLE_BYTES :: nat where "MAX_MERKLE_BYTES \<equiv> 4194304"

record merkle_commitment =
  mc_format_version :: nat
  mc_leaf_size :: nat
  mc_byte_len :: nat
  mc_root :: digest

record merkle_range_proof =
  rp_format_version :: nat
  rp_start_leaf :: nat
  rp_leaves :: "byte list list"
  rp_siblings :: "digest list"

record merkle_subtree_proof =
  sp_format_version :: nat
  sp_start_leaf :: nat
  sp_leaf_count :: nat
  sp_subtree_root :: digest
  sp_siblings :: "digest list"

datatype merkle_error = InvalidDataLength | InvalidRange | InvalidProof | RootMismatch

section \<open>Hashing\<close>

definition hash_leaf :: "blake3 \<Rightarrow> byte list \<Rightarrow> digest" where
  "hash_leaf B leaf = derive_key B ''mutualbackup merkle leaf v1'' leaf"

definition hash_node :: "blake3 \<Rightarrow> digest \<Rightarrow> digest \<Rightarrow> digest" where
  "hash_node B l r = derive_key B ''mutualbackup merkle node v1'' (digest_bytes l @ digest_bytes r)"

definition bind_root :: "blake3 \<Rightarrow> nat \<Rightarrow> digest \<Rightarrow> digest" where
  "bind_root B len tree_root = derive_key B ''mutualbackup merkle root v1''
     (be_bytes 2 MERKLE_SUITE_V1 @ be_bytes 2 MERKLE_LEAF_SIZE @ be_bytes 4 len @ digest_bytes tree_root)"

section \<open>Validation\<close>

definition validate_data_len :: "nat \<Rightarrow> (merkle_error, unit) result" where
  "validate_data_len len =
     (if \<not> (MERKLE_LEAF_SIZE \<le> len \<and> len \<le> MAX_MERKLE_BYTES) \<or> \<not> is_power_of_two len
         \<or> len mod MERKLE_LEAF_SIZE \<noteq> 0
      then Err InvalidDataLength else Ok ())"

definition validate_commitment :: "merkle_commitment \<Rightarrow> (merkle_error, unit) result" where
  "validate_commitment c =
     (if mc_format_version c \<noteq> MERKLE_SUITE_V1 \<or> mc_leaf_size c \<noteq> MERKLE_LEAF_SIZE \<or> mc_root c = 0
      then Err InvalidProof else validate_data_len (mc_byte_len c))"

text \<open>The range test shared, line for line, by the opening and verifying functions.\<close>

definition bad_range :: "nat \<Rightarrow> nat \<Rightarrow> nat \<Rightarrow> bool" where
  "bad_range start count total_leaves \<longleftrightarrow>
     count = 0 \<or> \<not> is_power_of_two count \<or> start mod count \<noteq> 0
     \<or> (case checked_add 64 start count of None \<Rightarrow> True | Some e \<Rightarrow> total_leaves < e)"

section \<open>Levels and commitments\<close>

text \<open>One level up: \<open>as_chunks::<2>()\<close> pairs the nodes and drops an odd last one.\<close>

fun pair_level :: "blake3 \<Rightarrow> digest list \<Rightarrow> digest list" where
  "pair_level B (x # y # xs) = hash_node B x y # pair_level B xs"
| "pair_level B xs = []"

lemma length_pair_level [simp]: "length (pair_level B xs) = length xs div 2"
  by (induction B xs rule: pair_level.induct) auto

function levels_from :: "blake3 \<Rightarrow> digest list \<Rightarrow> digest list list" where
  "levels_from B level = (if 1 < length level then level # levels_from B (pair_level B level) else [level])"
  by pat_completeness auto
termination by (relation "measure (\<lambda>(B, xs). length xs)") auto

definition merkle_levels :: "blake3 \<Rightarrow> byte list \<Rightarrow> digest list list" where
  "merkle_levels B bytes = levels_from B (map (hash_leaf B) (as_chunks MERKLE_LEAF_SIZE bytes))"

definition merkle_commit :: "blake3 \<Rightarrow> byte list \<Rightarrow> (merkle_error, merkle_commitment) result" where
  "merkle_commit B bytes =
     and_then (validate_data_len (length bytes)) (\<lambda>_.
     and_then (index (last (merkle_levels B bytes)) 0) (\<lambda>tree_root.
     Ok \<lparr>mc_format_version = MERKLE_SUITE_V1, mc_leaf_size = MERKLE_LEAF_SIZE,
         mc_byte_len = length bytes mod 2 ^ 32,
         mc_root = bind_root B (length bytes mod 2 ^ 32) tree_root\<rparr>))"

section \<open>Openings\<close>

text \<open>The sibling loop over the levels from the opened subtree to just below the root.\<close>

fun sibling_path :: "digest list list \<Rightarrow> nat \<Rightarrow> (merkle_error, digest list) result" where
  "sibling_path [] node_index = Ok []"
| "sibling_path (level # levels) node_index =
     and_then (index level (node_index XOR 1)) (\<lambda>s.
     and_then (sibling_path levels (drop_bit 1 node_index)) (\<lambda>ss. Ok (s # ss)))"

definition merkle_open_range ::
    "blake3 \<Rightarrow> byte list \<Rightarrow> nat \<Rightarrow> nat \<Rightarrow> (merkle_error, merkle_range_proof) result" where
  "merkle_open_range B bytes start count =
     and_then (validate_data_len (length bytes)) (\<lambda>_.
     if bad_range start count (length bytes div MERKLE_LEAF_SIZE) then Err InvalidRange
     else
       (let levels = merkle_levels B bytes; subtree_level = ilog2 count in
        and_then (usub (length levels) (subtree_level + 1)) (\<lambda>_.
        and_then (sibling_path (drop subtree_level (take (length levels - 1) levels))
                   (drop_bit subtree_level start)) (\<lambda>siblings.
        and_then (slice bytes (start * MERKLE_LEAF_SIZE) ((start + count) * MERKLE_LEAF_SIZE)) (\<lambda>range.
        Ok \<lparr>rp_format_version = MERKLE_SUITE_V1, rp_start_leaf = start,
            rp_leaves = as_chunks MERKLE_LEAF_SIZE range, rp_siblings = siblings\<rparr>)))))"

definition merkle_open_subtree ::
    "blake3 \<Rightarrow> byte list \<Rightarrow> nat \<Rightarrow> nat \<Rightarrow> (merkle_error, merkle_subtree_proof) result" where
  "merkle_open_subtree B bytes start count =
     and_then (validate_data_len (length bytes)) (\<lambda>_.
     if bad_range start count (length bytes div MERKLE_LEAF_SIZE) then Err InvalidRange
     else
       (let levels = merkle_levels B bytes; subtree_level = ilog2 count in
        and_then (index levels subtree_level) (\<lambda>level.
        and_then (index level (drop_bit subtree_level start)) (\<lambda>subtree_root.
        and_then (usub (length levels) (subtree_level + 1)) (\<lambda>_.
        and_then (sibling_path (drop subtree_level (take (length levels - 1) levels))
                   (drop_bit subtree_level start)) (\<lambda>siblings.
        Ok \<lparr>sp_format_version = MERKLE_SUITE_V1, sp_start_leaf = start, sp_leaf_count = count,
            sp_subtree_root = subtree_root, sp_siblings = siblings\<rparr>))))))"

section \<open>Verification\<close>

text \<open>The loop from the proved node to the tree root.\<close>

fun climb :: "blake3 \<Rightarrow> digest \<Rightarrow> nat \<Rightarrow> digest list \<Rightarrow> digest" where
  "climb B current node_index [] = current"
| "climb B current node_index (sibling # siblings) =
     climb B (if node_index AND 1 = 0 then hash_node B current sibling else hash_node B sibling current)
       (drop_bit 1 node_index) siblings"

definition merkle_verify_subtree ::
    "blake3 \<Rightarrow> merkle_commitment \<Rightarrow> merkle_subtree_proof \<Rightarrow> (merkle_error, digest) result" where
  "merkle_verify_subtree B commitment proof =
     and_then (validate_commitment commitment) (\<lambda>_.
     let total_leaves = mc_byte_len commitment div MERKLE_LEAF_SIZE;
         start = sp_start_leaf proof; count = sp_leaf_count proof in
     if sp_format_version proof \<noteq> MERKLE_SUITE_V1 \<or> bad_range start count total_leaves
        \<or> sp_subtree_root proof = 0
     then Err InvalidProof
     else
       (let subtree_level = ilog2 count in
        and_then (usub (ilog2 total_leaves) subtree_level) (\<lambda>expected.
        if length (sp_siblings proof) \<noteq> expected then Err InvalidProof
        else if bind_root B (mc_byte_len commitment)
                  (climb B (sp_subtree_root proof) (drop_bit subtree_level start) (sp_siblings proof))
                \<noteq> mc_root commitment
             then Err RootMismatch
        else Ok (sp_subtree_root proof))))"

function reduce_nodes :: "blake3 \<Rightarrow> digest list \<Rightarrow> digest list" where
  "reduce_nodes B nodes = (if 1 < length nodes then reduce_nodes B (pair_level B nodes) else nodes)"
  by pat_completeness auto
termination by (relation "measure (\<lambda>(B, xs). length xs)") auto

definition merkle_verify_range ::
    "blake3 \<Rightarrow> merkle_commitment \<Rightarrow> merkle_range_proof \<Rightarrow> (merkle_error, byte list) result" where
  "merkle_verify_range B commitment proof =
     and_then (validate_commitment commitment) (\<lambda>_.
     let total_leaves = mc_byte_len commitment div MERKLE_LEAF_SIZE;
         start = rp_start_leaf proof; count = length (rp_leaves proof) in
     if rp_format_version proof \<noteq> MERKLE_SUITE_V1 \<or> bad_range start count total_leaves
     then Err InvalidProof
     else
       (let subtree_level = ilog2 count in
        and_then (usub (ilog2 total_leaves) subtree_level) (\<lambda>expected.
        if length (rp_siblings proof) \<noteq> expected then Err InvalidProof
        else
          and_then (index (reduce_nodes B (map (hash_leaf B) (rp_leaves proof))) 0) (\<lambda>node.
          if bind_root B (mc_byte_len commitment)
               (climb B node (drop_bit subtree_level start) (rp_siblings proof))
             \<noteq> mc_root commitment
          then Err RootMismatch
          else Ok (concat (rp_leaves proof))))))"

section \<open>Virtual all-zero shards\<close>

text \<open>\<open>zero_steps n\<close> is the loop body \<open>root = hash_node(&root, &root)\<close> run \<open>n\<close> times.\<close>

fun zero_steps :: "blake3 \<Rightarrow> nat \<Rightarrow> digest \<Rightarrow> digest" where
  "zero_steps B 0 root = root"
| "zero_steps B (Suc n) root = zero_steps B n (hash_node B root root)"

definition merkle_zero_subtree_root :: "blake3 \<Rightarrow> nat \<Rightarrow> (merkle_error, digest) result" where
  "merkle_zero_subtree_root B byte_len =
     and_then (validate_data_len byte_len) (\<lambda>_.
     Ok (zero_steps B (ilog2 (byte_len div MERKLE_LEAF_SIZE)) (hash_leaf B (zeros MERKLE_LEAF_SIZE))))"

definition merkle_zero_commitment :: "blake3 \<Rightarrow> nat \<Rightarrow> (merkle_error, merkle_commitment) result" where
  "merkle_zero_commitment B byte_len =
     and_then (merkle_zero_subtree_root B byte_len) (\<lambda>tree_root.
     Ok \<lparr>mc_format_version = MERKLE_SUITE_V1, mc_leaf_size = MERKLE_LEAF_SIZE,
         mc_byte_len = byte_len, mc_root = bind_root B byte_len tree_root\<rparr>)"

text \<open>The loop over all levels; siblings are recorded from the opened subtree upwards.\<close>

fun zero_siblings :: "blake3 \<Rightarrow> nat list \<Rightarrow> nat \<Rightarrow> digest \<Rightarrow> digest list" where
  "zero_siblings B [] subtree_level zero_root = []"
| "zero_siblings B (level # levels) subtree_level zero_root =
     (if subtree_level \<le> level then [zero_root] else [])
     @ zero_siblings B levels subtree_level (hash_node B zero_root zero_root)"

definition merkle_open_zero_range ::
    "blake3 \<Rightarrow> nat \<Rightarrow> nat \<Rightarrow> nat \<Rightarrow> (merkle_error, merkle_range_proof) result" where
  "merkle_open_zero_range B byte_len start count =
     and_then (validate_data_len byte_len) (\<lambda>_.
     if bad_range start count (byte_len div MERKLE_LEAF_SIZE) then Err InvalidRange
     else
       (let subtree_level = ilog2 count; tree_height = ilog2 (byte_len div MERKLE_LEAF_SIZE) in
        and_then (usub tree_height subtree_level) (\<lambda>_.
        Ok \<lparr>rp_format_version = MERKLE_SUITE_V1, rp_start_leaf = start,
            rp_leaves = replicate count (zeros MERKLE_LEAF_SIZE),
            rp_siblings = zero_siblings B [0..<tree_height] subtree_level
              (hash_leaf B (zeros MERKLE_LEAF_SIZE))\<rparr>)))"

section \<open>The challenged leaf\<close>

definition challenged_leaf :: "blake3 \<Rightarrow> digest \<Rightarrow> merkle_commitment \<Rightarrow> (merkle_error, nat) result" where
  "challenged_leaf B challenge commitment =
     and_then (validate_commitment commitment) (\<lambda>_.
     let digest = derive_key B ''mutualbackup range challenge v1''
                    (digest_bytes challenge @ be_bytes 4 (mc_byte_len commitment));
         val = from_be_bytes (take 8 (digest_bytes digest));
         leaf_count = mc_byte_len commitment div MERKLE_LEAF_SIZE in
     and_then (usub leaf_count 1) (\<lambda>mask. Ok ((val AND mask) mod 2 ^ 32)))"

declare levels_from.simps [simp del] reduce_nodes.simps [simp del]


section \<open>Perfect trees\<close>

fun tree_root :: "blake3 \<Rightarrow> nat \<Rightarrow> digest list \<Rightarrow> digest" where
  "tree_root B 0 xs = hd xs"
| "tree_root B (Suc k) xs = hash_node B (tree_root B k (take (2 ^ k) xs)) (tree_root B k (drop (2 ^ k) xs))"

definition level :: "blake3 \<Rightarrow> nat \<Rightarrow> digest list \<Rightarrow> digest list" where
  "level B k xs = (pair_level B ^^ k) xs"

lemma level_simps [simp]:
  "level B 0 xs = xs"
  "level B (Suc k) xs = pair_level B (level B k xs)"
  by (simp_all add: level_def)

lemma level_pair_level: "level B k (pair_level B xs) = level B (Suc k) xs"
  by (induction k) auto

lemma length_level [simp]: "length (level B k xs) = length xs div 2 ^ k"
  by (induction k) (auto simp: mult.commute simp flip: div_mult2_eq)

lemma nth_pair_level:
  "i < length xs div 2 \<Longrightarrow> pair_level B xs ! i = hash_node B (xs ! (2 * i)) (xs ! (2 * i + 1))"
proof (induction B xs arbitrary: i rule: pair_level.induct)
  case (1 B x y xs)
  then show ?case by (cases i) auto
qed auto

lemma tree_root_sub_Suc:
  "tree_root B (Suc k) (sub xs (j * 2 ^ Suc k) (2 ^ Suc k)) =
     hash_node B (tree_root B k (sub xs (2 * j * 2 ^ k) (2 ^ k))) (tree_root B k (sub xs ((2 * j + 1) * 2 ^ k) (2 ^ k)))"
proof -
  have "take (2 ^ k) (sub xs (j * 2 ^ Suc k) (2 ^ Suc k)) = sub xs (2 * j * 2 ^ k) (2 ^ k)"
    by (simp add: sub_def ac_simps)
  moreover have "drop (2 ^ k) (sub xs (j * 2 ^ Suc k) (2 ^ Suc k)) = sub xs ((2 * j + 1) * 2 ^ k) (2 ^ k)"
    by (simp add: sub_def drop_take algebra_simps)
  ultimately show ?thesis by simp
qed

lemma level_nth:
  "i < length xs div 2 ^ k \<Longrightarrow> level B k xs ! i = tree_root B k (sub xs (i * 2 ^ k) (2 ^ k))"
proof (induction k arbitrary: i)
  case 0
  then show ?case by (simp add: sub_def hd_conv_nth)
next
  case (Suc k)
  have half: "i < length (level B k xs) div 2"
    using Suc.prems by (simp add: mult.commute flip: div_mult2_eq)
  then have "2 * i + 1 < length xs div 2 ^ k" by simp
  then have "level B (Suc k) xs ! i = hash_node B
      (tree_root B k (sub xs (2 * i * 2 ^ k) (2 ^ k))) (tree_root B k (sub xs ((2 * i + 1) * 2 ^ k) (2 ^ k)))"
    using Suc.IH [of "2 * i"] Suc.IH [of "2 * i + 1"] nth_pair_level [OF half] by simp
  then show ?case by (simp only: tree_root_sub_Suc)
qed

lemma level_top: "length xs = 2 ^ h \<Longrightarrow> level B h xs = [tree_root B h xs]"
  using level_nth [of 0 xs h B] by (auto simp: sub_def list_eq_iff_nth_eq)

lemma level_level: "level B a (level B b xs) = level B (a + b) xs"
  by (simp add: level_def funpow_add)

lemma tree_root_level:
  assumes "length xs = 2 ^ (a + b)"
  shows "tree_root B a (level B b xs) = tree_root B (a + b) xs"
proof -
  have "length (level B b xs) = 2 ^ a" using assms by (simp add: power_add)
  from level_top [OF this, of B] level_top [OF assms, of B] show ?thesis by (simp add: level_level)
qed

lemma levels_from_eq: "length xs = 2 ^ h \<Longrightarrow> levels_from B xs = map (\<lambda>k. level B k xs) [0..<Suc h]"
proof (induction h arbitrary: xs)
  case 0
  then show ?case by (simp add: levels_from.simps [of B xs])
next
  case (Suc h)
  have "1 < length xs" using Suc.prems by (simp add: Suc_lessI)
  then have "levels_from B xs = xs # levels_from B (pair_level B xs)"
    by (simp add: levels_from.simps [of B xs])
  also have "levels_from B (pair_level B xs) = map (\<lambda>k. level B (Suc k) xs) [0..<Suc h]"
    using Suc.IH [of "pair_level B xs"] Suc.prems by (simp add: level_pair_level)
  also have "xs # \<dots> = map (\<lambda>k. level B k xs) [0..<Suc (Suc h)]"
    by (simp add: upt_conv_Cons del: upt_Suc flip: map_Suc_upt)
  finally show ?case .
qed

lemma reduce_nodes_eq: "length xs = 2 ^ k \<Longrightarrow> reduce_nodes B xs = [tree_root B k xs]"
proof (induction k arbitrary: xs)
  case 0
  then show ?case by (cases xs) (auto simp: reduce_nodes.simps)
next
  case (Suc k)
  have "1 < length xs" using Suc.prems by (simp add: Suc_lessI)
  then have "reduce_nodes B xs = reduce_nodes B (pair_level B xs)"
    by (simp add: reduce_nodes.simps [of B xs])
  also have "\<dots> = level B k (pair_level B xs)"
    using Suc level_top [of "pair_level B xs" k B] by simp
  finally show ?case using level_top [OF Suc.prems] by (simp only: level_pair_level)
qed

section \<open>Openings reach the root\<close>

lemma xor_1_less: "i < 2 * n \<Longrightarrow> i XOR 1 < 2 * (n::nat)"
  by (auto simp: xor_Suc_0_eq elim!: evenE oddE)

lemma sibling_path_climbs:
  assumes "length xs = 2 ^ h" "s \<le> h" "i < 2 ^ (h - s)"
  shows "\<exists>ss. sibling_path (map (\<lambda>k. level B k xs) [s..<h]) i = Ok ss \<and> length ss = h - s
           \<and> climb B (level B s xs ! i) i ss = tree_root B h xs"
  using assms(2,3)
proof (induction "h - s" arbitrary: s i)
  case 0
  then have "s = h" by simp
  with 0 assms(1) show ?case by (simp add: level_top)
next
  case (Suc n)
  then have s: "s < h" "n = h - Suc s" "[s..<h] = s # [Suc s..<h]"
    by (auto simp: upt_conv_Cons)
  have two: "(2::nat) ^ (h - s) = 2 * 2 ^ (h - Suc s)"
    using s(1) by (simp flip: power_Suc add: Suc_diff_Suc)
  have len: "length (level B s xs) = 2 ^ (h - s)"
    using assms(1) s(1) by (simp add: power_diff)
  have i': "i div 2 < 2 ^ (h - Suc s)" using Suc.prems(2) two by simp
  have idx: "i XOR 1 < length (level B s xs)"
    using Suc.prems(2) by (simp only: len two xor_1_less)
  obtain ss where ss: "sibling_path (map (\<lambda>k. level B k xs) [Suc s..<h]) (i div 2) = Ok ss"
    "length ss = h - Suc s" "climb B (level B (Suc s) xs ! (i div 2)) (i div 2) ss = tree_root B h xs"
    using Suc.hyps(1) [OF s(2) _ i'] s(1) by auto
  have up: "level B (Suc s) xs ! (i div 2) =
      hash_node B (level B s xs ! (2 * (i div 2))) (level B s xs ! (2 * (i div 2) + 1))"
    using i' nth_pair_level [of "i div 2" "level B s xs" B] by (simp only: level_simps len two nonzero_mult_div_cancel_left)
  show ?case
  proof (cases "even i")
    case True
    then show ?thesis using ss up idx s
      by (intro exI [of _ "level B s xs ! (i XOR 1) # ss"])
        (auto simp: index_eq drop_bit_Suc and_Suc_0_eq xor_Suc_0_eq simp del: level_simps)
  next
    case False
    then show ?thesis using ss up idx s
      by (intro exI [of _ "level B s xs ! (i XOR 1) # ss"])
        (auto simp: index_eq drop_bit_Suc and_Suc_0_eq xor_Suc_0_eq simp del: level_simps elim!: oddE)
  qed
qed


section \<open>Commitments in terms of the tree\<close>

abbreviation leaf_digests :: "blake3 \<Rightarrow> byte list \<Rightarrow> digest list" where
  "leaf_digests B bytes \<equiv> map (hash_leaf B) (chunks MERKLE_LEAF_SIZE bytes)"

lemma validate_data_len_iff:
  "validate_data_len len = Inr u \<longleftrightarrow> (\<exists>h \<le> 18. len = 2 ^ h * MERKLE_LEAF_SIZE)"
proof -
  have "(16 \<le> len \<and> len \<le> 4194304 \<and> is_power_of_two len \<and> len mod 16 = 0) \<longleftrightarrow>
        (\<exists>h \<le> 18. len = 2 ^ h * 16)" (is "?L \<longleftrightarrow> ?R")
  proof
    assume ?L
    then obtain k where k: "len = 2 ^ k" by (auto simp: is_power_of_two_iff)
    with \<open>?L\<close> have "(2::nat) ^ 4 \<le> 2 ^ k" "(2::nat) ^ k \<le> 2 ^ 22" by simp_all
    then have "4 \<le> k" "k \<le> 22" by (simp_all only: power_increasing_iff)
    then have "len = 2 ^ (k - 4) * 2 ^ 4" using k by (metis le_add_diff_inverse2 power_add)
    then show ?R using \<open>k \<le> 22\<close> by (intro exI [of _ "k - 4"]) simp
  next
    assume ?R
    then obtain h where h: "h \<le> 18" "len = 2 ^ h * 16" by blast
    have "len = 2 ^ (h + 4)" using h(2) by (simp add: power_add)
    then have "is_power_of_two len" by (metis is_power_of_two_power)
    moreover have "(2::nat) ^ h \<le> 2 ^ 18" using h(1) by (intro power_increasing) auto
    ultimately show ?L using h(2) by simp
  qed
  then show ?thesis by (auto simp: validate_data_len_def)
qed

lemma validate_data_len_OkE:
  assumes "validate_data_len len = Inr u"
  obtains h where "h \<le> 18" "len = 2 ^ h * 16" "len < 2 ^ 32" "len div 16 = 2 ^ h"
proof -
  obtain h where h: "h \<le> 18" "len = 2 ^ h * 16"
    using assms by (auto simp: validate_data_len_iff)
  moreover have "(2::nat) ^ h \<le> 2 ^ 18" using h(1) by (intro power_increasing) auto
  ultimately show ?thesis by (intro that [of h]) auto
qed

lemma length_leaf_digests: "length bytes = 2 ^ h * 16 \<Longrightarrow> length (leaf_digests B bytes) = 2 ^ h"
  using chunks_exact [of 16 bytes "2 ^ h"] by simp

lemma merkle_levels_eq:
  assumes "length bytes = 2 ^ h * 16"
  shows "merkle_levels B bytes = map (\<lambda>k. level B k (leaf_digests B bytes)) [0..<Suc h]"
  unfolding merkle_levels_def
  using levels_from_eq [OF length_leaf_digests [OF assms, of B]] as_chunks_exact [OF _ assms]
  by (simp del: upt_Suc)

text \<open>The commitment \<open>merkle_commit\<close> returns, as a function of the bytes.\<close>

definition commitment_of :: "blake3 \<Rightarrow> nat \<Rightarrow> digest \<Rightarrow> merkle_commitment" where
  "commitment_of B len r = \<lparr>mc_format_version = MERKLE_SUITE_V1, mc_leaf_size = MERKLE_LEAF_SIZE,
     mc_byte_len = len, mc_root = bind_root B len r\<rparr>"

lemma merkle_commit_eq:
  assumes "length bytes = 2 ^ h * 16" "h \<le> 18"
  shows "merkle_commit B bytes = Ok (commitment_of B (length bytes) (tree_root B h (leaf_digests B bytes)))"
proof -
  have v: "validate_data_len (length bytes) = Ok ()"
    using assms by (auto simp: validate_data_len_iff)
  then have "length bytes < 2 ^ 32" by (rule validate_data_len_OkE)
  with v show ?thesis
    using level_top [OF length_leaf_digests [OF assms(1), of B], of B]
    by (simp add: merkle_commit_def merkle_levels_eq [OF assms(1)] commitment_of_def index_eq)
qed

lemma merkle_commit_OkE:
  assumes "merkle_commit B bytes = Ok c"
  obtains h where "h \<le> 18" "length bytes = 2 ^ h * 16" "length bytes < 2 ^ 32"
    "length bytes div 16 = 2 ^ h"
    "c = commitment_of B (length bytes) (tree_root B h (leaf_digests B bytes))"
proof -
  from assms have "validate_data_len (length bytes) = Ok ()"
    by (auto simp: merkle_commit_def and_then_Ok_iff)
  then obtain h where h: "h \<le> 18" "length bytes = 2 ^ h * 16" "length bytes < 2 ^ 32"
    "length bytes div 16 = 2 ^ h" by (rule validate_data_len_OkE)
  with assms merkle_commit_eq [OF h(2,1), of B] show ?thesis by (intro that [of h]) auto
qed

lemma good_rangeE:
  assumes "\<not> bad_range start count (2 ^ h)"
  obtains s i where "count = 2 ^ s" "start = i * 2 ^ s" "s \<le> h" "i < 2 ^ (h - s)"
    "drop_bit s start = i" "ilog2 count = s" "start + count \<le> 2 ^ h"
proof -
  from assms have r: "count > 0" "is_power_of_two count" "start mod count = 0" "start + count \<le> 2 ^ h"
    by (auto simp: bad_range_def not_less split: option.splits if_splits)
  obtain s where s: "count = 2 ^ s" using r(2) by (auto simp: is_power_of_two_iff)
  obtain i where i: "start = i * 2 ^ s" using r(3) s by (metis mult.commute mod_0_imp_dvd dvd_def)
  have "count \<le> 2 ^ h" using r(4) by simp
  then have sh: "s \<le> h" using s by simp
  have "(i + 1) * 2 ^ s \<le> 2 ^ (h - s) * 2 ^ s"
    using r(4) s i sh by (simp add: algebra_simps flip: power_add)
  then have "i < 2 ^ (h - s)" unfolding mult_le_cancel2 by simp
  then show ?thesis using s i sh r(4) by (intro that [of s i]) (simp_all add: drop_bit_eq_div)
qed

lemma good_rangeI:
  assumes "s \<le> h" "i < 2 ^ (h - s)" "h < 64"
  shows "\<not> bad_range (i * 2 ^ s) (2 ^ s) (2 ^ h)"
proof -
  have "(i + 1) * 2 ^ s \<le> 2 ^ (h - s) * 2 ^ s" using assms(2) by (intro mult_le_mono1) simp
  then have le: "i * 2 ^ s + 2 ^ s \<le> 2 ^ h" using assms(1) by (simp add: algebra_simps flip: power_add)
  moreover have "(2::nat) ^ h < 2 ^ 64" using assms(3) by (intro power_strict_increasing) auto
  ultimately show ?thesis by (auto simp: bad_range_def split: option.splits)
qed


section \<open>Binding\<close>

text \<open>The hash queries made while committing and while verifying, as lists: the soundness
  statements ask only that BLAKE3 has no collision among them.\<close>

definition leaf_query :: "byte list \<Rightarrow> string \<times> byte list" where
  "leaf_query leaf = (''mutualbackup merkle leaf v1'', leaf)"

definition node_query :: "digest \<Rightarrow> digest \<Rightarrow> string \<times> byte list" where
  "node_query l r = (''mutualbackup merkle node v1'', digest_bytes l @ digest_bytes r)"

definition root_query :: "nat \<Rightarrow> digest \<Rightarrow> string \<times> byte list" where
  "root_query len r = (''mutualbackup merkle root v1'',
     be_bytes 2 MERKLE_SUITE_V1 @ be_bytes 2 MERKLE_LEAF_SIZE @ be_bytes 4 len @ digest_bytes r)"

fun tree_queries :: "blake3 \<Rightarrow> nat \<Rightarrow> digest list \<Rightarrow> (string \<times> byte list) list" where
  "tree_queries B 0 xs = []"
| "tree_queries B (Suc k) xs =
     node_query (tree_root B k (take (2 ^ k) xs)) (tree_root B k (drop (2 ^ k) xs))
     # tree_queries B k (take (2 ^ k) xs) @ tree_queries B k (drop (2 ^ k) xs)"

fun climb_queries :: "blake3 \<Rightarrow> digest \<Rightarrow> nat \<Rightarrow> digest list \<Rightarrow> (string \<times> byte list) list" where
  "climb_queries B current node_index [] = []"
| "climb_queries B current node_index (sibling # siblings) =
     (if node_index AND 1 = 0 then node_query current sibling else node_query sibling current)
     # climb_queries B (if node_index AND 1 = 0 then hash_node B current sibling else hash_node B sibling current)
         (drop_bit 1 node_index) siblings"

definition commit_queries :: "blake3 \<Rightarrow> byte list \<Rightarrow> (string \<times> byte list) list" where
  "commit_queries B bytes =
     (let h = ilog2 (length bytes div MERKLE_LEAF_SIZE); ds = leaf_digests B bytes in
      map leaf_query (chunks MERKLE_LEAF_SIZE bytes) @ tree_queries B h ds
      @ [root_query (length bytes) (tree_root B h ds)])"

definition verify_subtree_queries :: "blake3 \<Rightarrow> nat \<Rightarrow> merkle_subtree_proof \<Rightarrow> (string \<times> byte list) list" where
  "verify_subtree_queries B len p =
     (let i = drop_bit (ilog2 (sp_leaf_count p)) (sp_start_leaf p) in
      climb_queries B (sp_subtree_root p) i (sp_siblings p)
      @ [root_query len (climb B (sp_subtree_root p) i (sp_siblings p))])"

definition verify_range_queries :: "blake3 \<Rightarrow> nat \<Rightarrow> merkle_range_proof \<Rightarrow> (string \<times> byte list) list" where
  "verify_range_queries B len p =
     (let s = ilog2 (length (rp_leaves p)); i = drop_bit s (rp_start_leaf p);
          ds = map (hash_leaf B) (rp_leaves p); node = tree_root B s ds in
      map leaf_query (rp_leaves p) @ tree_queries B s ds
      @ climb_queries B node i (rp_siblings p)
      @ [root_query len (climb B node i (rp_siblings p))])"

lemma append_same_length: "length a = length b \<Longrightarrow> a @ c = b @ d \<longleftrightarrow> a = b \<and> c = d"
  by simp

lemma hash_node_inj:
  assumes "collision_free B Q" "node_query l r \<in> Q" "node_query l' r' \<in> Q"
    and "hash_node B l r = hash_node B l' r'"
  shows "l = l' \<and> r = r'"
proof -
  have "digest_bytes l @ digest_bytes r = digest_bytes l' @ digest_bytes r'"
    using collision_freeD [OF assms(1)] assms(2-4) by (simp add: node_query_def hash_node_def)
  then show ?thesis by (simp add: append_same_length)
qed

lemma bind_root_inj:
  assumes "collision_free B Q" "root_query len r \<in> Q" "root_query len r' \<in> Q"
    and "bind_root B len r = bind_root B len r'"
  shows "r = r'"
  using collision_freeD [OF assms(1)] assms(2-4) by (fastforce simp: root_query_def bind_root_def)

lemma hash_leaf_inj:
  assumes "collision_free B Q" "leaf_query x \<in> Q" "leaf_query y \<in> Q" "hash_leaf B x = hash_leaf B y"
  shows "x = y"
  using collision_freeD [OF assms(1)] assms(2-4) by (simp add: leaf_query_def hash_leaf_def)

lemma map_hash_leaf_inj:
  assumes "collision_free B Q" "leaf_query ` set xs \<subseteq> Q" "leaf_query ` set ys \<subseteq> Q"
    and "map (hash_leaf B) xs = map (hash_leaf B) ys"
  shows "xs = ys"
  using assms(4)
proof (rule map_inj_on)
  show "inj_on (hash_leaf B) (set xs \<union> set ys)"
    using assms(2,3) by (intro inj_onI hash_leaf_inj [OF assms(1)]) blast+
qed

lemma tree_root_inj:
  assumes "collision_free B Q" "length xs = 2 ^ k" "length ys = 2 ^ k"
    and "set (tree_queries B k xs) \<subseteq> Q" "set (tree_queries B k ys) \<subseteq> Q"
    and "tree_root B k xs = tree_root B k ys"
  shows "xs = ys"
  using assms(2-)
proof (induction k arbitrary: xs ys)
  case 0
  then show ?case by (cases xs; cases ys) auto
next
  case (Suc k)
  have "tree_root B k (take (2 ^ k) xs) = tree_root B k (take (2 ^ k) ys)
      \<and> tree_root B k (drop (2 ^ k) xs) = tree_root B k (drop (2 ^ k) ys)"
    using Suc.prems by (intro hash_node_inj [OF assms(1)]) auto
  then have "take (2 ^ k) xs = take (2 ^ k) ys" "drop (2 ^ k) xs = drop (2 ^ k) ys"
    using Suc.prems by (auto intro!: Suc.IH)
  then show ?case by (metis append_take_drop_id)
qed

lemma drop_bit_div: "drop_bit n (i::nat) = i div 2 ^ n"
  by (simp add: drop_bit_eq_div)

lemma climb_snoc:
  "climb B cur i (ss @ [x]) =
     (let top = climb B cur i ss in
      if even (i div 2 ^ length ss) then hash_node B top x else hash_node B x top)"
  by (induction ss arbitrary: cur i)
    (simp_all add: Let_def drop_bit_Suc and_Suc_0_eq odd_iff_mod_2_eq_one flip: div_mult2_eq)

lemma climb_queries_snoc:
  "climb_queries B cur i (ss @ [x]) = climb_queries B cur i ss @
     [let top = climb B cur i ss in
      if even (i div 2 ^ length ss) then node_query top x else node_query x top]"
  by (induction ss arbitrary: cur i)
    (simp_all add: Let_def drop_bit_Suc and_Suc_0_eq odd_iff_mod_2_eq_one flip: div_mult2_eq)


lemma climb_mod: "climb B cur (i mod 2 ^ length ss) ss = climb B cur i ss"
proof (induction ss arbitrary: cur i)
  case (Cons x ss)
  have "i mod (2 * 2 ^ length ss) mod 2 = i mod 2"
    by (simp add: mod_mod_cancel)
  moreover have "(i mod (2 * 2 ^ length ss)) div 2 = (i div 2) mod 2 ^ length ss"
    by (simp add: mod_mult2_eq)
  ultimately show ?case
    using Cons [of _ "i div 2"] by (simp add: drop_bit_Suc and_Suc_0_eq odd_iff_mod_2_eq_one)
qed simp

lemma climb_queries_mod: "climb_queries B cur (i mod 2 ^ length ss) ss = climb_queries B cur i ss"
proof (induction ss arbitrary: cur i)
  case (Cons x ss)
  have "i mod (2 * 2 ^ length ss) mod 2 = i mod 2"
    by (simp add: mod_mod_cancel)
  moreover have "(i mod (2 * 2 ^ length ss)) div 2 = (i div 2) mod 2 ^ length ss"
    by (simp add: mod_mult2_eq)
  ultimately show ?case
    using Cons [of _ "i div 2"] by (simp add: drop_bit_Suc and_Suc_0_eq odd_iff_mod_2_eq_one)
qed simp

text \<open>A path that ends in the tree's root starts in the tree's node at its position.\<close>

lemma climb_sound:
  assumes "collision_free B Q" "length xs = 2 ^ (s + length ss)" "i < 2 ^ length ss"
    and "set (climb_queries B cur i ss) \<subseteq> Q" "set (tree_queries B (s + length ss) xs) \<subseteq> Q"
    and "climb B cur i ss = tree_root B (s + length ss) xs"
  shows "cur = tree_root B s (sub xs (i * 2 ^ s) (2 ^ s))
    \<and> set (tree_queries B s (sub xs (i * 2 ^ s) (2 ^ s))) \<subseteq> Q"
  using assms(2-)
proof (induction ss arbitrary: xs i rule: rev_induct)
  case Nil
  then show ?case by (simp add: sub_def)
next
  case (snoc x ss)
  let ?n = "s + length ss" and ?j = "i mod 2 ^ length ss" and ?top = "climb B cur i ss"
  let ?half = "if even (i div 2 ^ length ss) then take (2 ^ ?n) xs else drop (2 ^ ?n) xs"
  have len: "length xs = 2 * 2 ^ ?n" using snoc.prems(1) by simp
  have eq: "(if even (i div 2 ^ length ss) then hash_node B ?top x else hash_node B x ?top) =
      hash_node B (tree_root B ?n (take (2 ^ ?n) xs)) (tree_root B ?n (drop (2 ^ ?n) xs))"
    using snoc.prems(5) by (simp add: climb_snoc Let_def)
  have q: "node_query (tree_root B ?n (take (2 ^ ?n) xs)) (tree_root B ?n (drop (2 ^ ?n) xs)) \<in> Q"
    "set (tree_queries B ?n ?half) \<subseteq> Q" "set (climb_queries B cur i ss) \<subseteq> Q"
    "(if even (i div 2 ^ length ss) then node_query ?top x else node_query x ?top) \<in> Q"
    using snoc.prems(3,4) by (auto simp: climb_queries_snoc Let_def)
  have top: "?top = tree_root B ?n ?half"
    using eq q hash_node_inj [OF assms(1)] by (cases "even (i div 2 ^ length ss)") auto
  have IH: "cur = tree_root B s (sub ?half (?j * 2 ^ s) (2 ^ s))
      \<and> set (tree_queries B s (sub ?half (?j * 2 ^ s) (2 ^ s))) \<subseteq> Q"
    using len q(2,3) top by (intro snoc.IH) (auto simp: climb_mod climb_queries_mod)
  have "i div 2 ^ length ss < 2"
    using snoc.prems(2) by (simp add: less_mult_imp_div_less mult.commute)
  then have cases: "i div 2 ^ length ss = 0 \<or> i div 2 ^ length ss = 1" by auto
  have ij: "i = (i div 2 ^ length ss) * 2 ^ length ss + ?j" by (simp add: div_mult_mod_eq)
  have jb: "?j * 2 ^ s + 2 ^ s \<le> 2 ^ ?n"
  proof -
    have "(?j + 1) * 2 ^ s \<le> 2 ^ length ss * 2 ^ s" by (intro mult_le_mono1) (simp add: Suc_leI)
    then show ?thesis by (simp add: power_add algebra_simps)
  qed
  have "sub ?half (?j * 2 ^ s) (2 ^ s) = sub xs (i * 2 ^ s) (2 ^ s)"
  proof (cases "i div 2 ^ length ss = 0")
    case True
    with ij have "?j = i" by simp
    with True jb show ?thesis by (simp add: sub_def take_drop min_absorb1)
  next
    case False
    with cases have one: "i div 2 ^ length ss = 1" by simp
    with ij have "i = 2 ^ length ss + ?j" by simp
    then have "i * 2 ^ s = ?j * 2 ^ s + 2 ^ ?n" by (metis add.commute add_mult_distrib power_add)
    with one show ?thesis by (simp add: sub_def)
  qed
  with IH show ?case by simp
qed

section \<open>Properties\<close>

lemma validate_commitment_of:
  assumes "h \<le> 18" "len = 2 ^ h * 16" "bind_root B len r \<noteq> 0"
  shows "validate_commitment (commitment_of B len r) = Ok ()"
  using assms by (auto simp: validate_commitment_def commitment_of_def validate_data_len_iff)

lemma leaf_digests_sub:
  assumes "length bytes = m * 16" "i + n \<le> m"
  shows "map (hash_leaf B) (chunks 16 (sub bytes (i * 16) (n * 16))) = sub (leaf_digests B bytes) i n"
  using chunks_sub [OF _ assms] by (simp add: map_sub)


text \<open>Opening a good range of committed bytes: the position, the collected siblings and the
  root they lead to.\<close>

lemma opening_path:
  assumes "length bytes = 2 ^ h * 16" "\<not> bad_range start count (2 ^ h)"
  obtains s i ss where "count = 2 ^ s" "start = i * 2 ^ s" "s \<le> h" "i < 2 ^ (h - s)"
    "drop_bit s start = i" "ilog2 count = s" "start + count \<le> 2 ^ h"
    "sibling_path (drop s (take (length (merkle_levels B bytes) - 1) (merkle_levels B bytes))) i = Ok ss"
    "length ss = h - s" "length (merkle_levels B bytes) = Suc h"
    "merkle_levels B bytes ! s ! i = tree_root B s (sub (leaf_digests B bytes) start count)"
    "length (merkle_levels B bytes ! s) = 2 ^ (h - s)"
    "climb B (tree_root B s (sub (leaf_digests B bytes) start count)) i ss = tree_root B h (leaf_digests B bytes)"
proof -
  let ?ds = "leaf_digests B bytes"
  note levels = merkle_levels_eq [OF assms(1), of B]
  obtain s i where si: "count = 2 ^ s" "start = i * 2 ^ s" "s \<le> h" "i < 2 ^ (h - s)"
    "drop_bit s start = i" "ilog2 count = s" "start + count \<le> 2 ^ h"
    using assms(2) by (rule good_rangeE)
  have lds: "length ?ds = 2 ^ h" using assms(1) by (rule length_leaf_digests)
  obtain ss where ss: "sibling_path (map (\<lambda>k. level B k ?ds) [s..<h]) i = Ok ss" "length ss = h - s"
    "climb B (level B s ?ds ! i) i ss = tree_root B h ?ds"
    using sibling_path_climbs [OF lds si(3,4)] by blast
  have cut: "drop s (take (length (merkle_levels B bytes) - 1) (merkle_levels B bytes)) = map (\<lambda>k. level B k ?ds) [s..<h]"
    by (simp add: levels take_map drop_map del: upt_Suc)
  have node: "level B s ?ds ! i = tree_root B s (sub ?ds start count)"
    using level_nth [of i ?ds s B] si lds by (simp add: power_diff)
  have at: "merkle_levels B bytes ! s = level B s ?ds"
    using si(3) by (simp add: levels del: upt_Suc)
  show ?thesis
    using si lds ss node at by (intro that [of s i ss]) (simp_all only: cut at, simp_all add: levels power_diff)
qed

lemma open_range_eq:
  assumes len: "length bytes = 2 ^ h * 16" and vd: "validate_data_len (length bytes) = Ok ()"
    and range: "\<not> bad_range start count (2 ^ h)"
  shows "\<exists>ss. merkle_open_range B bytes start count = Ok \<lparr>rp_format_version = 1, rp_start_leaf = start,
       rp_leaves = chunks 16 (sub bytes (start * 16) (count * 16)), rp_siblings = ss\<rparr>
     \<and> length ss = h - ilog2 count
     \<and> climb B (tree_root B (ilog2 count) (sub (leaf_digests B bytes) start count))
         (drop_bit (ilog2 count) start) ss = tree_root B h (leaf_digests B bytes)"
proof -
  obtain s i ss where o: "count = 2 ^ s" "s \<le> h" "drop_bit s start = i" "ilog2 count = s" "start + count \<le> 2 ^ h"
    "sibling_path (drop s (take (length (merkle_levels B bytes) - 1) (merkle_levels B bytes))) i = Ok ss"
    "length ss = h - s" "length (merkle_levels B bytes) = Suc h"
    "climb B (tree_root B s (sub (leaf_digests B bytes) start count)) i ss = tree_root B h (leaf_digests B bytes)"
    by (rule opening_path [OF len range, of B])
  have rng: "start * 16 + count * 16 \<le> length bytes" using o(5) len by linarith
  have sl: "slice bytes (start * 16) ((start + count) * 16) =
      (Ok (sub bytes (start * 16) (count * 16)) :: (merkle_error, byte list) result)"
    using rng by (simp add: slice_def algebra_simps)
  have "as_chunks 16 (sub bytes (start * 16) (count * 16)) = chunks 16 (sub bytes (start * 16) (count * 16))"
    using rng by (intro as_chunks_exact [of _ _ count]) auto
  then have "merkle_open_range B bytes start count = Ok \<lparr>rp_format_version = 1, rp_start_leaf = start,
       rp_leaves = chunks 16 (sub bytes (start * 16) (count * 16)), rp_siblings = ss\<rparr>"
    unfolding merkle_open_range_def Let_def
    using vd range len o(2,6,8) sl by (simp add: o(3,4))
  with o(3,4,7,9) show ?thesis by (intro exI [of _ ss]) simp
qed

lemma open_verify_range:
  assumes commit: "merkle_commit B bytes = Ok c" "mc_root c \<noteq> 0"
    and range: "\<not> bad_range start count (length bytes div 16)"
  shows "\<exists>p. merkle_open_range B bytes start count = Ok p \<and> rp_start_leaf p = start
    \<and> length (rp_leaves p) = count
    \<and> merkle_verify_range B c p = Ok (sub bytes (16 * start) (16 * count))"
proof -
  let ?ds = "leaf_digests B bytes" and ?range = "sub bytes (start * 16) (count * 16)"
  obtain h where h: "h \<le> 18" "length bytes = 2 ^ h * 16" "length bytes div 16 = 2 ^ h"
    and c: "c = commitment_of B (length bytes) (tree_root B h ?ds)"
    using commit(1) by (auto elim: merkle_commit_OkE)
  note range' = range [unfolded h(3)]
  obtain s where s: "count = 2 ^ s" "s \<le> h" "ilog2 count = s" "start + count \<le> 2 ^ h"
    using range' by (rule good_rangeE)
  have vd: "validate_data_len (length bytes) = Ok ()" using h by (auto simp: validate_data_len_iff)
  obtain ss where p: "merkle_open_range B bytes start count = Ok \<lparr>rp_format_version = 1,
      rp_start_leaf = start, rp_leaves = chunks 16 ?range, rp_siblings = ss\<rparr>" (is "_ = Ok ?p")
    and ss: "length ss = h - s"
      "climb B (tree_root B s (sub ?ds start count)) (drop_bit s start) ss = tree_root B h ?ds"
    using open_range_eq [OF h(2) vd range', of B] s(3) by auto
  have n: "length (chunks 16 ?range) = count"
    using chunks_exact [of 16 ?range count] s(4) h(2) by auto
  have node: "reduce_nodes B (map (hash_leaf B) (chunks 16 ?range)) = [tree_root B s (sub ?ds start count)]"
    using reduce_nodes_eq [of "map (hash_leaf B) (chunks 16 ?range)" s B] n s(1)
      leaf_digests_sub [OF h(2) s(4), of B] by simp
  have "validate_commitment c = Ok ()"
    unfolding c using h commit(2) by (intro validate_commitment_of) (auto simp: c commitment_of_def)
  then have "merkle_verify_range B c ?p = Ok (concat (chunks 16 ?range))"
    unfolding merkle_verify_range_def Let_def
    using range' h(3) node ss s(2,3) by (simp add: c commitment_of_def n index_eq)
  with p n show ?thesis by (intro exI [of _ ?p]) (simp add: mult.commute)
qed

text \<open>C23: A range opened from committed bytes verifies against the commitment and the verifier
  returns exactly the bytes of the range: \<open>merkle_open_range\<close> followed by
  \<open>merkle_verify_range\<close> is the slice \<open>bytes[16 * start .. 16 * (start + count)]\<close>. The only
  requirement is that the commitment's root is not the all-zero digest, which the format
  reserves as invalid.\<close>

theorem merkle_open_verify_range:
  assumes commit: "merkle_commit B bytes = Ok c" "mc_root c \<noteq> 0"
    and range: "\<not> bad_range start count (length bytes div 16)"
  shows "\<exists>p. merkle_open_range B bytes start count = Ok p \<and> rp_start_leaf p = start
    \<and> length (rp_leaves p) = count
    \<and> merkle_verify_range B c p = Ok (sub bytes (16 * start) (16 * count))"
  using assms by (rule open_verify_range)


lemma verify_range_sound:
  assumes commit: "merkle_commit B bytes = Ok c" and verify: "merkle_verify_range B c p = Ok out"
    and cf: "collision_free B (set (commit_queries B bytes) \<union> set (verify_range_queries B (length bytes) p))"
  shows "16 * (rp_start_leaf p + length (rp_leaves p)) \<le> length bytes
    \<and> out = sub bytes (16 * rp_start_leaf p) (16 * length (rp_leaves p))"
proof -
  let ?ds = "leaf_digests B bytes" and ?ls = "rp_leaves p" and ?start = "rp_start_leaf p"
  let ?es = "map (hash_leaf B) ?ls"
  let ?Q = "set (commit_queries B bytes) \<union> set (verify_range_queries B (length bytes) p)"
  obtain h where h: "h \<le> 18" "length bytes = 2 ^ h * 16" "length bytes div 16 = 2 ^ h"
    and c: "c = commitment_of B (length bytes) (tree_root B h ?ds)"
    using commit by (auto elim: merkle_commit_OkE)
  have lds: "length ?ds = 2 ^ h" using h(2) by (rule length_leaf_digests)
  have good: "\<not> bad_range ?start (length ?ls) (2 ^ h)"
    using verify h(3) by (auto simp: merkle_verify_range_def c commitment_of_def Let_def and_then_Ok_iff split: if_splits)
  obtain s i where s: "length ?ls = 2 ^ s" "?start = i * 2 ^ s" "s \<le> h" "i < 2 ^ (h - s)"
    "drop_bit s ?start = i" "ilog2 (length ?ls) = s" "?start + length ?ls \<le> 2 ^ h"
    using good by (rule good_rangeE)
  have v: "length (rp_siblings p) = h - s" "out = concat ?ls"
    "bind_root B (length bytes) (climb B (tree_root B s ?es) i (rp_siblings p)) = mc_root c"
    using verify h(3) s reduce_nodes_eq [of ?es s B]
    by (auto simp: merkle_verify_range_def c commitment_of_def Let_def and_then_Ok_iff split: if_splits)
  have q: "set (tree_queries B h ?ds) \<subseteq> ?Q" "set (tree_queries B s ?es) \<subseteq> ?Q"
    "set (climb_queries B (tree_root B s ?es) i (rp_siblings p)) \<subseteq> ?Q"
    "leaf_query ` set (chunks 16 bytes) \<subseteq> ?Q" "leaf_query ` set ?ls \<subseteq> ?Q"
    "root_query (length bytes) (tree_root B h ?ds) \<in> ?Q"
    "root_query (length bytes) (climb B (tree_root B s ?es) i (rp_siblings p)) \<in> ?Q"
    using h(3) s by (auto simp: commit_queries_def verify_range_queries_def Let_def)
  have "climb B (tree_root B s ?es) i (rp_siblings p) = tree_root B h ?ds"
    using bind_root_inj [OF cf q(7,6)] v(3) by (simp add: c commitment_of_def)
  then have sub: "tree_root B s ?es = tree_root B s (sub ?ds ?start (length ?ls))"
    "set (tree_queries B s (sub ?ds ?start (length ?ls))) \<subseteq> ?Q"
    using climb_sound [OF cf, of ?ds s "rp_siblings p" i "tree_root B s ?es"] s q v(1) lds by auto
  have "?es = sub ?ds ?start (length ?ls)"
    using sub q(2) s lds by (intro tree_root_inj [OF cf, of _ s]) auto
  then have "map (hash_leaf B) ?ls = map (hash_leaf B) (sub (chunks 16 bytes) ?start (length ?ls))"
    by (simp add: map_sub)
  then have "?ls = sub (chunks 16 bytes) ?start (length ?ls)"
    using q(4,5) set_sub_subset [of "chunks 16 bytes" ?start "length ?ls"]
    by (intro map_hash_leaf_inj [OF cf]) blast+
  also have "\<dots> = chunks 16 (sub bytes (?start * 16) (length ?ls * 16))"
    using chunks_sub [OF _ h(2) s(7)] by simp
  finally have "concat ?ls = sub bytes (?start * 16) (length ?ls * 16)"
    by (metis concat_chunks zero_less_numeral)
  then show ?thesis using v(2) s(7) h(2) by (simp add: mult.commute)
qed

text \<open>C2: The commitment binds the bytes. Whatever proof the verifier accepts, if BLAKE3 has no
  collision among the inputs hashed while committing and while verifying, the returned bytes
  are the committed ones at the proof's position.\<close>

theorem merkle_verify_range_sound:
  assumes commit: "merkle_commit B bytes = Ok c" and verify: "merkle_verify_range B c p = Ok out"
    and cf: "collision_free B (set (commit_queries B bytes) \<union> set (verify_range_queries B (length bytes) p))"
  shows "16 * (rp_start_leaf p + length (rp_leaves p)) \<le> length bytes
    \<and> out = sub bytes (16 * rp_start_leaf p) (16 * length (rp_leaves p))"
  using assms by (rule verify_range_sound)


lemma open_subtree_eq:
  assumes len: "length bytes = 2 ^ h * 16" and vd: "validate_data_len (length bytes) = Ok ()"
    and range: "\<not> bad_range start count (2 ^ h)"
  shows "\<exists>ss. merkle_open_subtree B bytes start count = Ok \<lparr>sp_format_version = 1, sp_start_leaf = start,
       sp_leaf_count = count, sp_subtree_root = tree_root B (ilog2 count) (sub (leaf_digests B bytes) start count),
       sp_siblings = ss\<rparr>
     \<and> length ss = h - ilog2 count
     \<and> climb B (tree_root B (ilog2 count) (sub (leaf_digests B bytes) start count))
         (drop_bit (ilog2 count) start) ss = tree_root B h (leaf_digests B bytes)"
proof -
  obtain s i ss where o: "s \<le> h" "i < 2 ^ (h - s)" "drop_bit s start = i" "ilog2 count = s"
    "sibling_path (drop s (take (length (merkle_levels B bytes) - 1) (merkle_levels B bytes))) i = Ok ss"
    "length ss = h - s" "length (merkle_levels B bytes) = Suc h"
    "merkle_levels B bytes ! s ! i = tree_root B s (sub (leaf_digests B bytes) start count)"
    "length (merkle_levels B bytes ! s) = 2 ^ (h - s)"
    "climb B (tree_root B s (sub (leaf_digests B bytes) start count)) i ss = tree_root B h (leaf_digests B bytes)"
    by (rule opening_path [OF len range, of B])
  then have "merkle_open_subtree B bytes start count = Ok \<lparr>sp_format_version = 1, sp_start_leaf = start,
       sp_leaf_count = count, sp_subtree_root = tree_root B s (sub (leaf_digests B bytes) start count),
       sp_siblings = ss\<rparr>"
    unfolding merkle_open_subtree_def Let_def using vd range len by (simp add: index_eq)
  with o show ?thesis by (intro exI [of _ ss]) simp
qed

text \<open>A subtree opened from committed bytes verifies, and the verifier returns the subtree root
  that the opening carries. The format reserves the all-zero digest, so neither the
  commitment's root nor the subtree's root may be zero.\<close>

theorem merkle_open_verify_subtree:
  assumes commit: "merkle_commit B bytes = Ok c" "mc_root c \<noteq> 0"
    and opened: "merkle_open_subtree B bytes start count = Ok p" "sp_subtree_root p \<noteq> 0"
  shows "merkle_verify_subtree B c p = Ok (sp_subtree_root p)"
proof -
  let ?ds = "leaf_digests B bytes"
  obtain h where h: "h \<le> 18" "length bytes = 2 ^ h * 16" "length bytes div 16 = 2 ^ h"
    and c: "c = commitment_of B (length bytes) (tree_root B h ?ds)"
    using commit(1) by (auto elim: merkle_commit_OkE)
  have vd: "validate_data_len (length bytes) = Ok ()" using h by (auto simp: validate_data_len_iff)
  have range: "\<not> bad_range start count (2 ^ h)"
    using opened(1) vd h(3) by (auto simp: merkle_open_subtree_def split: if_splits)
  obtain s where s: "s \<le> h" "ilog2 count = s" using range by (rule good_rangeE)
  have "validate_commitment c = Ok ()"
    unfolding c using h commit(2) by (intro validate_commitment_of) (auto simp: c commitment_of_def)
  then show ?thesis
    unfolding merkle_verify_subtree_def Let_def
    using opened open_subtree_eq [OF h(2) vd range, of B] range h(3) s
    by (auto simp: c commitment_of_def)
qed

text \<open>A verified subtree proof is bound to the committed bytes: without a BLAKE3 collision among
  the inputs hashed while committing and verifying, the proved digest is the subtree root
  that the bytes themselves have at that position.\<close>

theorem merkle_verify_subtree_sound:
  assumes commit: "merkle_commit B bytes = Ok c" and verify: "merkle_verify_subtree B c p = Ok r"
    and cf: "collision_free B (set (commit_queries B bytes) \<union> set (verify_subtree_queries B (length bytes) p))"
  shows "\<exists>q. merkle_open_subtree B bytes (sp_start_leaf p) (sp_leaf_count p) = Ok q \<and> sp_subtree_root q = r"
proof -
  let ?ds = "leaf_digests B bytes" and ?start = "sp_start_leaf p" and ?count = "sp_leaf_count p"
  let ?Q = "set (commit_queries B bytes) \<union> set (verify_subtree_queries B (length bytes) p)"
  obtain h where h: "h \<le> 18" "length bytes = 2 ^ h * 16" "length bytes div 16 = 2 ^ h"
    and c: "c = commitment_of B (length bytes) (tree_root B h ?ds)"
    using commit by (auto elim: merkle_commit_OkE)
  have vd: "validate_data_len (length bytes) = Ok ()" using h by (auto simp: validate_data_len_iff)
  have good: "\<not> bad_range ?start ?count (2 ^ h)"
    using verify h(3) by (auto simp: merkle_verify_subtree_def c commitment_of_def Let_def and_then_Ok_iff split: if_splits)
  obtain s i where s: "?count = 2 ^ s" "?start = i * 2 ^ s" "s \<le> h" "i < 2 ^ (h - s)"
    "drop_bit s ?start = i" "ilog2 ?count = s"
    using good by (rule good_rangeE)
  have v: "length (sp_siblings p) = h - s" "r = sp_subtree_root p"
    "bind_root B (length bytes) (climb B (sp_subtree_root p) i (sp_siblings p)) = mc_root c"
    using verify h(3) s
    by (auto simp: merkle_verify_subtree_def c commitment_of_def Let_def and_then_Ok_iff split: if_splits)
  have q: "set (tree_queries B h ?ds) \<subseteq> ?Q"
    "set (climb_queries B (sp_subtree_root p) i (sp_siblings p)) \<subseteq> ?Q"
    "root_query (length bytes) (tree_root B h ?ds) \<in> ?Q"
    "root_query (length bytes) (climb B (sp_subtree_root p) i (sp_siblings p)) \<in> ?Q"
    using h(3) s by (auto simp: commit_queries_def verify_subtree_queries_def Let_def)
  have "climb B (sp_subtree_root p) i (sp_siblings p) = tree_root B h ?ds"
    using bind_root_inj [OF cf q(4,3)] v(3) by (simp add: c commitment_of_def)
  then have "sp_subtree_root p = tree_root B s (sub ?ds ?start ?count)"
    using climb_sound [OF cf, of ?ds s "sp_siblings p" i "sp_subtree_root p"] s q v(1)
      length_leaf_digests [OF h(2), of B] by auto
  then show ?thesis using open_subtree_eq [OF h(2) vd good, of B] s v(2) by auto
qed


subsection \<open>Virtual all-zero shards\<close>

lemma zero_steps_Suc: "zero_steps B (Suc k) d = hash_node B (zero_steps B k d) (zero_steps B k d)"
  by (induction k arbitrary: d) auto

lemma pair_level_replicate: "pair_level B (replicate (2 * n) d) = replicate n (hash_node B d d)"
  by (induction n) auto

lemma level_replicate:
  "k \<le> h \<Longrightarrow> level B k (replicate (2 ^ h) d) = replicate (2 ^ (h - k)) (zero_steps B k d)"
proof (induction k)
  case (Suc k)
  then have "level B (Suc k) (replicate (2 ^ h) d) = pair_level B (replicate (2 * 2 ^ (h - Suc k)) (zero_steps B k d))"
    by (simp flip: power_Suc add: Suc_diff_Suc)
  then show ?case by (simp only: pair_level_replicate zero_steps_Suc)
qed simp

lemma tree_root_replicate: "tree_root B h (replicate (2 ^ h) d) = zero_steps B h d"
  using level_top [of "replicate (2 ^ h) d" h B] by (simp add: level_replicate)

lemma chunks_zeros: "chunks 16 (zeros (n * 16)) = replicate n (zeros 16)"
proof -
  note c = chunks_exact [of 16 "zeros (n * 16)" n]
  show ?thesis
  proof (rule nth_equalityI)
    fix i assume "i < length (chunks 16 (zeros (n * 16)))"
    then have "i < n" using c by simp
    then show "chunks 16 (zeros (n * 16)) ! i = replicate n (zeros 16) ! i"
      using c by (simp add: sub_def zeros_def min_def)
  qed (use c in simp)
qed

lemma leaf_digests_zeros: "leaf_digests B (zeros (2 ^ h * 16)) = replicate (2 ^ h) (hash_leaf B (zeros 16))"
  by (simp add: chunks_zeros)

text \<open>The commitment of a virtual all-zero shard, computed without the shard's bytes, is the
  commitment of the allocated zero buffer, error cases included.\<close>

theorem merkle_zero_commitment_correct:
  "merkle_zero_commitment B len = merkle_commit B (zeros len)"
proof (cases "validate_data_len len")
  case (Inl e)
  then show ?thesis by (simp add: merkle_zero_commitment_def merkle_zero_subtree_root_def merkle_commit_def)
next
  case (Inr u)
  then obtain h where h: "h \<le> 18" "len = 2 ^ h * 16" "len div 16 = 2 ^ h"
    by (rule validate_data_len_OkE)
  then show ?thesis
    using Inr merkle_commit_eq [of "zeros len" h B]
    by (simp add: merkle_zero_commitment_def merkle_zero_subtree_root_def commitment_of_def
        leaf_digests_zeros tree_root_replicate)
qed

lemma zero_siblings_eq:
  "zero_siblings B [j..<n] s (zero_steps B j d) = map (\<lambda>k. zero_steps B k d) [max s j..<n]"
proof (induction "n - j" arbitrary: j)
  case (Suc m)
  then have j: "j < n" "[j..<n] = j # [Suc j..<n]" by (auto simp: upt_conv_Cons)
  have IH: "zero_siblings B [Suc j..<n] s (zero_steps B (Suc j) d) = map (\<lambda>k. zero_steps B k d) [max s (Suc j)..<n]"
    using Suc.hyps(2) by (intro Suc.hyps(1)) simp
  show ?case
  proof (cases "s \<le> j")
    case True
    then show ?thesis using IH j by (simp add: zero_steps_Suc max_def upt_conv_Cons del: zero_steps.simps)
  next
    case False
    then have "max s (Suc j) = s" "max s j = s" by auto
    with False show ?thesis using IH j by (simp add: zero_steps_Suc del: zero_steps.simps)
  qed
qed simp

lemma sibling_path_zeros:
  assumes "s \<le> h" "i < 2 ^ (h - s)"
  shows "sibling_path (map (\<lambda>k. level B k (replicate (2 ^ h) d)) [s..<h]) i
    = Ok (map (\<lambda>k. zero_steps B k d) [s..<h])"
  using assms
proof (induction "h - s" arbitrary: s i)
  case (Suc n)
  then have s: "s < h" "[s..<h] = s # [Suc s..<h]" by (auto simp: upt_conv_Cons)
  have two: "(2::nat) ^ (h - s) = 2 * 2 ^ (h - Suc s)"
    using s(1) by (simp flip: power_Suc add: Suc_diff_Suc)
  have "i XOR 1 < 2 ^ (h - s)" using Suc.prems(2) unfolding two by (rule xor_1_less)
  then have "i XOR 1 < length (level B s (replicate (2 ^ h) d))"
      "level B s (replicate (2 ^ h) d) ! (i XOR 1) = zero_steps B s d"
    using s(1) by (simp_all add: level_replicate power_diff)
  moreover have "sibling_path (map (\<lambda>k. level B k (replicate (2 ^ h) d)) [Suc s..<h]) (i div 2)
      = Ok (map (\<lambda>k. zero_steps B k d) [Suc s..<h])"
    using Suc.hyps Suc.prems two s(1) by (intro Suc.hyps(1)) auto
  ultimately show ?case by (simp add: s(2) drop_bit_Suc index_eq)
qed simp

text \<open>Opening a range of a virtual all-zero shard gives, byte for byte, the proof that opening
  the same range of an allocated zero buffer gives, error cases included.\<close>

theorem merkle_open_zero_range_correct:
  "merkle_open_zero_range B len start count = merkle_open_range B (zeros len) start count"
proof (cases "validate_data_len len")
  case (Inl e)
  then show ?thesis by (simp add: merkle_open_zero_range_def merkle_open_range_def)
next
  case (Inr u)
  then obtain h where h: "h \<le> 18" "len = 2 ^ h * 16" "len div 16 = 2 ^ h"
    by (rule validate_data_len_OkE)
  show ?thesis
  proof (cases "bad_range start count (2 ^ h)")
    case True
    then show ?thesis using Inr h by (simp add: merkle_open_zero_range_def merkle_open_range_def)
  next
    case False
    obtain s i where s: "count = 2 ^ s" "s \<le> h" "i < 2 ^ (h - s)" "drop_bit s start = i" "ilog2 count = s"
      "start + count \<le> 2 ^ h"
      using False by (rule good_rangeE)
    have lv: "merkle_levels B (zeros len) = map (\<lambda>k. level B k (replicate (2 ^ h) (hash_leaf B (zeros 16)))) [0..<Suc h]"
      using merkle_levels_eq [of "zeros len" h B] h(2) by (simp add: leaf_digests_zeros del: upt_Suc)
    have r: "slice (zeros len) (start * 16) ((start + count) * 16) = (Ok (zeros (count * 16)) :: (merkle_error, byte list) result)"
      using s(6) h(2) by (simp add: slice_def sub_def zeros_def algebra_simps min_def)
    have ch: "as_chunks 16 (zeros (count * 16)) = replicate count (zeros 16)"
      using as_chunks_exact [of 16 "zeros (count * 16)" count] by (simp add: chunks_zeros)
    show ?thesis
      unfolding merkle_open_range_def merkle_open_zero_range_def Let_def lv
      using Inr False h(3) s r ch sibling_path_zeros [OF s(2,3), of B]
        zero_siblings_eq [of B 0 h s "hash_leaf B (zeros 16)"]
      by (simp add: take_map drop_map del: upt_Suc)
  qed
qed

subsection \<open>The challenged leaf\<close>

lemma and_mask_mod: "(n::nat) AND (2 ^ h - 1) = n mod 2 ^ h"
  by (metis mask_eq_exp_minus_1 take_bit_eq_mask take_bit_eq_mod)

lemma challenged_leaf_range:
  assumes "validate_commitment c = Ok ()"
  shows "\<exists>l. challenged_leaf B ch c = Ok l \<and> l < mc_byte_len c div 16
    \<and> l = from_be_bytes (take 8 (digest_bytes (derive_key B ''mutualbackup range challenge v1''
            (digest_bytes ch @ be_bytes 4 (mc_byte_len c))))) mod (mc_byte_len c div 16)
    \<and> \<not> bad_range l 1 (mc_byte_len c div 16)"
proof -
  have "validate_data_len (mc_byte_len c) = Ok ()"
    using assms by (auto simp: validate_commitment_def split: if_splits)
  then obtain h where h: "h \<le> 18" "mc_byte_len c div 16 = 2 ^ h" by (rule validate_data_len_OkE)
  define v where "v = from_be_bytes (take 8 (digest_bytes (derive_key B ''mutualbackup range challenge v1''
            (digest_bytes ch @ be_bytes 4 (mc_byte_len c)))))"
  have "v mod 2 ^ h < 2 ^ h" by simp
  also have "(2::nat) ^ h \<le> 2 ^ 32" using h(1) by (intro power_increasing) auto
  finally have small: "v mod 2 ^ h < 2 ^ 32" .
  have "challenged_leaf B ch c = Ok (v mod 2 ^ h)"
    using assms h(2) small and_mask_mod [of v h] by (simp add: challenged_leaf_def Let_def flip: v_def)
  moreover have "\<not> bad_range (v mod 2 ^ h * 2 ^ 0) (2 ^ 0) (2 ^ h)" using h(1) by (intro good_rangeI) auto
  ultimately show ?thesis using h(2) by (simp flip: v_def)
qed

text \<open>A challenge against a valid commitment always selects a leaf: the index is the digest's
  leading 64-bit value modulo the number of leaves, it lies inside the tree, and the
  single-leaf range there passes the opening's range test.\<close>

theorem challenged_leaf_in_range:
  assumes "validate_commitment c = Ok ()"
  shows "\<exists>l. challenged_leaf B ch c = Ok l \<and> l < mc_byte_len c div 16
    \<and> l = from_be_bytes (take 8 (digest_bytes (derive_key B ''mutualbackup range challenge v1''
            (digest_bytes ch @ be_bytes 4 (mc_byte_len c))))) mod (mc_byte_len c div 16)
    \<and> \<not> bad_range l 1 (mc_byte_len c div 16)"
  using assms by (rule challenged_leaf_range)

section \<open>Instances\<close>

text \<open>A shard of two leaves, its commitment and its openings under the sample hash.\<close>

definition sample_shard :: "byte list" where
  "sample_shard = replicate 16 1 @ replicate 16 2"

definition sample_commitment :: merkle_commitment where
  "sample_commitment = commitment_of sample_blake3 32 4"

definition sample_range_proof :: merkle_range_proof where
  "sample_range_proof = \<lparr>rp_format_version = 1, rp_start_leaf = 1, rp_leaves = [replicate 16 2], rp_siblings = [2]\<rparr>"

definition sample_subtree_proof :: merkle_subtree_proof where
  "sample_subtree_proof = \<lparr>sp_format_version = 1, sp_start_leaf = 1, sp_leaf_count = 1, sp_subtree_root = 3,
     sp_siblings = [2]\<rparr>"

lemma last_replicate_pos [simp]: "0 < n \<Longrightarrow> last (replicate n x) = x"
  by (simp add: last_replicate)

lemma sample_leaves: "chunks 16 sample_shard = [replicate 16 1, replicate 16 2]"
  using chunks_append_exact [of "replicate 16 2" 16 "[]"]
  by (simp add: sample_shard_def chunks_append_exact)

lemma length_sample_shard: "length sample_shard = 32"
  by (simp add: sample_shard_def)

lemma sample_data_len: "validate_data_len 32 = Ok ()" "validate_data_len 16 = Ok ()"
  by (auto simp: validate_data_len_iff intro: exI [of _ 1] exI [of _ 0])

lemma ilog2_small: "ilog2 (Suc 0) = 0" "ilog2 2 = Suc 0"
  using ilog2_power [of 0] ilog2_power [of 1] by simp_all

lemma sample_digests: "leaf_digests sample_blake3 sample_shard = [2, 3]"
  by (simp add: sample_leaves hash_leaf_def)

lemma sample_commit: "merkle_commit sample_blake3 sample_shard = Ok sample_commitment"
  using merkle_commit_eq [of sample_shard 1 sample_blake3]
  by (simp add: length_sample_shard sample_digests sample_commitment_def hash_node_def)

lemma sample_commitment_root: "mc_root sample_commitment = 5"
  by (simp add: sample_commitment_def commitment_of_def bind_root_def)

lemma sample_validate: "validate_commitment sample_commitment = Ok ()"
  unfolding sample_commitment_def
  by (rule validate_commitment_of [of 1]) (simp_all add: bind_root_def)

text \<open>The properties above, applied to the sample.\<close>

lemma sample_good_range: "\<not> bad_range 1 1 (length sample_shard div 16)"
  using good_rangeI [of 0 1 1] by (simp add: length_sample_shard)

lemma sample_verify_range:
  "merkle_verify_range sample_blake3 sample_commitment sample_range_proof = Ok (replicate 16 2)"
  using sample_validate sample_good_range
  by (simp add: merkle_verify_range_def sample_range_proof_def Let_def length_sample_shard sample_commitment_def
      commitment_of_def ilog2_small index_def reduce_nodes.simps hash_leaf_def hash_node_def bind_root_def)

lemma sample_verify_subtree:
  "merkle_verify_subtree sample_blake3 sample_commitment sample_subtree_proof = Ok 3"
  using sample_validate sample_good_range
  by (simp add: merkle_verify_subtree_def sample_subtree_proof_def Let_def length_sample_shard sample_commitment_def
      commitment_of_def ilog2_small index_def hash_node_def bind_root_def)

lemma sample_collision_free:
  "collision_free sample_blake3 (set (commit_queries sample_blake3 sample_shard)
     \<union> set (verify_range_queries sample_blake3 32 sample_range_proof)
     \<union> set (verify_subtree_queries sample_blake3 32 sample_subtree_proof))"
  by (simp add: collision_free_def commit_queries_def verify_range_queries_def verify_subtree_queries_def
      sample_range_proof_def sample_subtree_proof_def Let_def length_sample_shard ilog2_small sample_leaves sample_digests
      hash_leaf_def hash_node_def leaf_query_def node_query_def root_query_def)

theorem merkle_open_verify_range_witness:
  "\<exists>p. merkle_open_range sample_blake3 sample_shard 1 1 = Ok p \<and>
    merkle_verify_range sample_blake3 sample_commitment p = Ok (replicate 16 2)"
  using merkle_open_verify_range [OF sample_commit _ sample_good_range]
  by (auto simp: sample_commitment_root sub_def sample_shard_def)

theorem merkle_verify_range_sound_witness:
  "merkle_verify_range sample_blake3 sample_commitment sample_range_proof = Ok (replicate 16 2) \<and>
    replicate 16 2 = sub sample_shard 16 16"
  using merkle_verify_range_sound [OF sample_commit sample_verify_range] sample_verify_range
    collision_free_mono [OF sample_collision_free, of "set (commit_queries sample_blake3 sample_shard)
      \<union> set (verify_range_queries sample_blake3 32 sample_range_proof)"]
  by (simp add: length_sample_shard sample_range_proof_def)

theorem merkle_open_verify_subtree_witness:
  "merkle_verify_subtree sample_blake3 sample_commitment sample_subtree_proof = Ok 3"
proof -
  have "merkle_open_subtree sample_blake3 sample_shard 1 1 = Ok sample_subtree_proof"
    using merkle_levels_eq [of sample_shard 1 sample_blake3] sample_good_range
    by (simp add: merkle_open_subtree_def sample_subtree_proof_def sample_data_len length_sample_shard
        sample_digests ilog2_small index_def Let_def hash_node_def)
  from merkle_open_verify_subtree [OF sample_commit _ this] show ?thesis
    by (simp add: sample_commitment_root sample_subtree_proof_def)
qed

theorem merkle_verify_subtree_sound_witness:
  "\<exists>q. merkle_open_subtree sample_blake3 sample_shard 1 1 = Ok q \<and> sp_subtree_root q = 3"
  using merkle_verify_subtree_sound [OF sample_commit sample_verify_subtree]
    collision_free_mono [OF sample_collision_free, of "set (commit_queries sample_blake3 sample_shard)
      \<union> set (verify_subtree_queries sample_blake3 32 sample_subtree_proof)"]
  by (auto simp: length_sample_shard sample_subtree_proof_def)

theorem challenged_leaf_in_range_witness:
  "\<exists>l < 2. challenged_leaf sample_blake3 7 sample_commitment = Ok l"
  using challenged_leaf_in_range [OF sample_validate, of sample_blake3 7]
  by (auto simp: sample_commitment_def commitment_of_def)

end
