(* ===== verification/Fence.thy ===== *)
theory Fence
  imports Prelude
begin

text \<open>
  The failure fence shared by the streaming interfaces of \<open>src/crates/mb-core/src\<close>
  (\<open>MerkleSubtreeAccumulator\<close>, \<open>CatalogBuilder\<close>, \<open>CatalogReader\<close>, \<open>CatalogRangeReader\<close>, the
  record builder and reader): after an operation has returned an error, every later operation
  returns an error. A client that ignores one error cannot obtain a result afterwards.

  An operation takes an input and the object and returns the object and a result. The locale
  states the two laws each implementation promises; its lemmas are about whole call sequences.
\<close>

fun run_ops :: "('i \<Rightarrow> 's \<Rightarrow> 's \<times> ('e, 'o) result) \<Rightarrow> 'i list \<Rightarrow> 's \<Rightarrow> 's \<times> ('e, 'o) result list" where
  "run_ops step [] s = (s, [])"
| "run_ops step (i # is) s =
     (case step i s of (s', r) \<Rightarrow> (case run_ops step is s' of (s'', rs) \<Rightarrow> (s'', r # rs)))"

lemma run_ops_Cons [simp]:
  "fst (run_ops step (i # is) s) = fst (run_ops step is (fst (step i s)))"
  "snd (run_ops step (i # is) s) = snd (step i s) # snd (run_ops step is (fst (step i s)))"
  by (simp_all split: prod.splits)

declare run_ops.simps(2) [simp del]

lemma run_ops_append:
  "run_ops step (is @ js) s =
    (fst (run_ops step js (fst (run_ops step is s))), snd (run_ops step is s) @ snd (run_ops step js (fst (run_ops step is s))))"
  by (induction "is" arbitrary: s) (simp_all add: run_ops.simps(2) split: prod.splits)

lemma length_run_ops [simp]: "length (snd (run_ops step is s)) = length is"
  by (induction "is" arbitrary: s) simp_all

locale fence =
  fixes step :: "'i \<Rightarrow> 's \<Rightarrow> 's \<times> ('e, 'o) result"
    and failed :: "'s \<Rightarrow> bool"
  assumes stays_failed: "failed s \<Longrightarrow> failed (fst (step i s)) \<and> (\<exists>e. snd (step i s) = Err e)"
    and error_fails: "snd (step i s) = Err e \<Longrightarrow> failed (fst (step i s))"
begin

lemma failed_run:
  "failed s \<Longrightarrow> r \<in> set (snd (run_ops step is s)) \<Longrightarrow> \<exists>e. r = Err e"
proof (induction "is" arbitrary: s)
  case (Cons i "is")
  then show ?case
    using stays_failed [OF Cons.prems(1), of i]
    by (auto dest: Cons.IH)
qed simp

text \<open>In the results of a call sequence nothing but errors follows an error.\<close>

lemma error_is_final:
  assumes "j < k" "k < length is" "snd (run_ops step is s) ! j = Err e"
  shows "\<exists>e'. snd (run_ops step is s) ! k = Err e'"
  using assms
proof (induction "is" arbitrary: s j k)
  case (Cons i "is")
  obtain k' where k: "k = Suc k'" using Cons.prems(1) by (cases k) auto
  show ?case
  proof (cases j)
    case 0
    with Cons.prems(3) error_fails have "failed (fst (step i s))" by simp
    moreover have "snd (run_ops step is (fst (step i s))) ! k' \<in> set (snd (run_ops step is (fst (step i s))))"
      using Cons.prems(2) k by simp
    ultimately show ?thesis using failed_run k by simp
  next
    case (Suc j')
    then show ?thesis using Cons.IH [of j' k'] Cons.prems k by simp
  qed
qed simp

end

text \<open>The wrapper the page streams share: refuse after a failure, otherwise run the inner method and
  record whether it failed. A panic unwinds before the flag is written. The state is the object and
  the environment its callbacks change.\<close>

definition fenced_call ::
    "('o \<Rightarrow> bool) \<Rightarrow> (bool \<Rightarrow> 'o \<Rightarrow> 'o) \<Rightarrow> 'e \<Rightarrow> ('o \<times> 't, 'e, 'a) op \<Rightarrow> ('o \<times> 't, 'e, 'a) op" where
  "fenced_call failed set_failed err inner s =
     (if failed (fst s) then (s, Err err)
      else case inner s of ((self', t'), r) \<Rightarrow>
        (case r of Inl Panic \<Rightarrow> ((self', t'), panic) | _ \<Rightarrow> ((set_failed (is_err r) self', t'), r)))"

lemma fenced_call_Ok:
  "\<not> failed (fst s) \<Longrightarrow> inner s = ((self', t'), Ok x) \<Longrightarrow> fenced_call failed set_failed err inner s = ((set_failed False self', t'), Ok x)"
  by (simp add: fenced_call_def)

lemma fenced_call_OkD:
  assumes "fenced_call failed set_failed err inner s = ((self', t'), Inr x)"
  obtains self1 where "\<not> failed (fst s)" "inner s = ((self1, t'), Inr x)" "self' = set_failed False self1"
proof -
  obtain self1 t1 r where i: "inner s = ((self1, t1), r)" by (metis surj_pair)
  from assms i show thesis by (cases r) (auto simp: fenced_call_def intro: that split: if_splits stop.splits)
qed

lemma fenced_call_result:
  "\<not> failed (fst s) \<Longrightarrow> snd (fenced_call failed set_failed err inner s) = snd (inner s)"
  by (cases "inner s") (auto simp: fenced_call_def split: sum.splits stop.splits)

locale guarded =
  fixes failed :: "'o \<Rightarrow> bool" and set_failed :: "bool \<Rightarrow> 'o \<Rightarrow> 'o"
    and err :: 'e and inner :: "'i \<Rightarrow> ('o \<times> 't, 'e, 'a) op"
  assumes failed_set: "failed (set_failed b self) = b"

sublocale guarded \<subseteq> fence "\<lambda>i. fenced_call failed set_failed err (inner i)" "\<lambda>s. failed (fst s)"
proof
  fix s i e
  show "failed (fst s) \<Longrightarrow> failed (fst (fst (fenced_call failed set_failed err (inner i) s)))
      \<and> (\<exists>e. snd (fenced_call failed set_failed err (inner i) s) = Err e)"
    by (simp add: fenced_call_def)
  show "snd (fenced_call failed set_failed err (inner i) s) = Err e \<Longrightarrow>
      failed (fst (fst (fenced_call failed set_failed err (inner i) s)))"
    by (cases "inner i s") (auto simp: fenced_call_def failed_set split: sum.splits stop.splits if_splits)
qed

section \<open>Streams of items\<close>

text \<open>The results of \<open>n\<close> calls that return the items \<open>xs\<close> and then \<open>None\<close>.\<close>

definition item_results :: "'a list \<Rightarrow> nat \<Rightarrow> ('e, 'a option) result list" where
  "item_results xs n = map (\<lambda>x. Ok (Some x)) (take n xs) @ replicate (n - length xs) (Ok None)"

lemma item_results_0 [simp]: "item_results xs 0 = []"
  by (simp add: item_results_def)

lemma item_results_Suc: "item_results xs (Suc n) = Ok (if xs = [] then None else Some (hd xs)) # item_results (tl xs) n"
  by (cases xs) (simp_all add: item_results_def)

lemma item_results_nth: "k < n \<Longrightarrow> item_results xs n ! k = Ok (if k < length xs then Some (xs ! k) else None)"
  by (auto simp: item_results_def nth_append)

text \<open>The contract of a reader: the invariant names the items still to come. A call returns the next
  one and keeps the invariant, or it fails, which it may only do over a dishonest callback.\<close>

locale item_stream =
  fixes step :: "('o \<times> 't, 'e, 'a option) op" and inv :: "'a list \<Rightarrow> 'o \<Rightarrow> bool" and honest :: bool
  assumes outcome: "inv xs (fst s) \<Longrightarrow>
    is_err (snd (step s)) \<and> \<not> honest
    \<or> snd (step s) = Ok (if xs = [] then None else Some (hd xs)) \<and> inv (tl xs) (fst (fst (step s)))"
begin

lemma run_honest:
  "inv xs (fst s) \<Longrightarrow> honest \<Longrightarrow> snd (run_ops (\<lambda>_. step) (replicate n i) s) = item_results xs n"
proof (induction n arbitrary: xs s)
  case (Suc n)
  then show ?case using outcome [OF Suc.prems(1)] by (simp add: item_results_Suc)
qed simp

lemma run_safe:
  assumes "inv xs (fst s)" "k < n" "\<forall>j \<le> k. \<not> is_err (snd (run_ops (\<lambda>_. step) (replicate n i) s) ! j)"
  shows "snd (run_ops (\<lambda>_. step) (replicate n i) s) ! k = Ok (if k < length xs then Some (xs ! k) else None)"
proof -
  have "snd (run_ops (\<lambda>_. step) (replicate n i) s) ! k = item_results xs n ! k"
    using assms
  proof (induction n arbitrary: xs s k)
    case (Suc n)
    have good: "snd (step s) = Ok (if xs = [] then None else Some (hd xs))" "inv (tl xs) (fst (fst (step s)))"
      using outcome [OF Suc.prems(1)] Suc.prems(3) [rule_format, of 0] by auto
    show ?case
    proof (cases k)
      case 0
      then show ?thesis using good(1) by (simp add: item_results_Suc)
    next
      case (Suc j)
      have "\<not> is_err (snd (run_ops (\<lambda>_. step) (replicate n i) (fst (step s))) ! l)" if "l \<le> j" for l
        using Suc.prems(3) [rule_format, of "Suc l"] that Suc by simp
      then show ?thesis using Suc.IH [OF good(2), of j] Suc.prems(2) Suc by (simp add: item_results_Suc)
    qed
  qed simp
  then show ?thesis by (simp only: item_results_nth [OF assms(2)])
qed

end

end
