(* ===== verification/Merkle_Accumulator.thy ===== *)
theory Merkle_Accumulator
  imports Merkle Fence
begin

unbundle bit_operations_syntax

text \<open>
  The streaming accumulator \<open>MerkleSubtreeAccumulator\<close> and \<open>merkle_commit_subtrees\<close> of
  \<open>src/crates/mb-core/src/range.rs\<close>: equal-size subtree roots arrive in order, and a binary
  counter of at most 19 digests (the frontier) holds the roots of the completed subtrees.
  The invariant \<open>frontier_ok\<close> reads the frontier as the binary digits of the number of
  pushed roots; the refinement lemma says that \<open>finish\<close> returns the root of the perfect
  tree over them.
\<close>

section \<open>Operations\<close>

record merkle_acc =
  acc_byte_len :: nat
  acc_width :: nat
  acc_consumed :: nat
  acc_frontier :: "digest option list"
  acc_failed :: bool

definition acc_new :: "nat \<Rightarrow> nat \<Rightarrow> (merkle_error, merkle_acc) result" where
  "acc_new byte_len subtree_byte_len =
     and_then (validate_data_len byte_len) (\<lambda>_.
     and_then (validate_data_len subtree_byte_len) (\<lambda>_.
     if byte_len < subtree_byte_len then Err InvalidProof
     else Ok \<lparr>acc_byte_len = byte_len, acc_width = byte_len div subtree_byte_len, acc_consumed = 0,
              acc_frontier = replicate (ilog2 (MAX_MERKLE_BYTES div MERKLE_LEAF_SIZE) + 1) None,
              acc_failed = False\<rparr>))"

text \<open>The carry loop of \<open>push\<close>: take the occupied slots under the low one bits of the position.\<close>

function acc_carry ::
    "blake3 \<Rightarrow> digest option list \<Rightarrow> nat \<Rightarrow> nat \<Rightarrow> digest \<Rightarrow> (merkle_error, digest option list \<times> nat \<times> digest) result" where
  "acc_carry B frontier lev position root =
     (if position AND 1 \<noteq> 0
      then and_then (index frontier lev) (\<lambda>slot.
           and_then (expect slot) (\<lambda>left.
           acc_carry B (frontier[lev := None]) (lev + 1) (drop_bit 1 position) (hash_node B left root)))
      else Ok (frontier, lev, root))"
  by pat_completeness auto
termination
  by (relation "measure (\<lambda>(B, f, l, p, r). p)") (auto simp: and_Suc_0_eq drop_bit_Suc)

declare acc_carry.simps [simp del]

text \<open>\<open>push\<close> returns the accumulator after the call and the result. A rejected root poisons it.\<close>

definition acc_push :: "blake3 \<Rightarrow> digest \<Rightarrow> merkle_acc \<Rightarrow> merkle_acc \<times> (merkle_error, unit) result" where
  "acc_push B root self =
     (if acc_failed self \<or> acc_consumed self = acc_width self \<or> root = 0
      then (self\<lparr>acc_failed := True\<rparr>, Err InvalidProof)
      else case acc_carry B (acc_frontier self) 0 (acc_consumed self) root of
        Inl e \<Rightarrow> (self, Inl e)
      | Inr (frontier, lev, root') \<Rightarrow>
          (if lev < length frontier
           then (case uadd 32 (acc_consumed self) 1 of
                   Inl e \<Rightarrow> (self\<lparr>acc_frontier := frontier[lev := Some root']\<rparr>, Inl e)
                 | Inr n \<Rightarrow> (self\<lparr>acc_frontier := frontier[lev := Some root'], acc_consumed := n\<rparr>, Ok ()))
           else (self\<lparr>acc_frontier := frontier\<rparr>, panic)))"

definition acc_finish :: "blake3 \<Rightarrow> merkle_acc \<Rightarrow> (merkle_error, merkle_commitment) result" where
  "acc_finish B self =
     (if acc_failed self \<or> acc_consumed self \<noteq> acc_width self then Err InvalidProof
      else and_then (index (acc_frontier self) (ilog2 (acc_width self))) (\<lambda>slot.
           and_then (ok_or slot InvalidProof) (\<lambda>root.
           Ok \<lparr>mc_format_version = MERKLE_SUITE_V1, mc_leaf_size = MERKLE_LEAF_SIZE,
               mc_byte_len = acc_byte_len self, mc_root = bind_root B (acc_byte_len self) root\<rparr>)))"

fun acc_push_all :: "blake3 \<Rightarrow> digest list \<Rightarrow> merkle_acc \<Rightarrow> (merkle_error, merkle_acc) result" where
  "acc_push_all B [] self = Ok self"
| "acc_push_all B (root # roots) self =
     (case acc_push B root self of (self', r) \<Rightarrow> and_then r (\<lambda>_. acc_push_all B roots self'))"

definition merkle_commit_subtrees ::
    "blake3 \<Rightarrow> nat \<Rightarrow> nat \<Rightarrow> digest list \<Rightarrow> (merkle_error, merkle_commitment) result" where
  "merkle_commit_subtrees B byte_len subtree_byte_len subtree_roots =
     and_then (acc_new byte_len subtree_byte_len) (\<lambda>builder.
     and_then (acc_push_all B subtree_roots builder) (\<lambda>builder'. acc_finish B builder'))"

section \<open>The frontier as a binary counter\<close>

definition frontier_slot :: "blake3 \<Rightarrow> digest list \<Rightarrow> nat \<Rightarrow> nat \<Rightarrow> digest option" where
  "frontier_slot B roots n k =
     (if odd (n div 2 ^ k) then Some (tree_root B k (sub roots ((n div 2 ^ k - 1) * 2 ^ k) (2 ^ k))) else None)"

definition frontier_ok :: "blake3 \<Rightarrow> digest list \<Rightarrow> digest option list \<Rightarrow> bool" where
  "frontier_ok B roots fr \<longleftrightarrow> length fr = 19 \<and> (\<forall>k < 19. fr ! k = frontier_slot B roots (length roots) k)"

lemma frontier_slot_snoc:
  assumes "n = length roots"
  shows "frontier_slot B (roots @ [x]) n k = frontier_slot B roots n k"
proof -
  have "(n div 2 ^ k - 1) * 2 ^ k + 2 ^ k \<le> n" if "odd (n div 2 ^ k)"
  proof -
    have "n div 2 ^ k \<noteq> 0" using that by (metis even_zero)
    then have "(n div 2 ^ k - 1) * 2 ^ k + 2 ^ k = n div 2 ^ k * 2 ^ k"
      by (metis Suc_pred' add.commute mult_Suc not_gr_zero diff_Suc_1)
    also have "\<dots> \<le> n" by simp
    finally show ?thesis .
  qed
  then show ?thesis using assms by (auto simp: frontier_slot_def sub_def)
qed


lemma low_ones_div:
  assumes "Suc n = (pos + 1) * 2 ^ k"
  shows "n div 2 ^ k = pos"
proof (rule div_nat_eqI)
  have "Suc n = 2 ^ k * pos + 2 ^ k" "(1::nat) \<le> 2 ^ k" using assms by (simp_all add: algebra_simps)
  then show "2 ^ k * pos \<le> n" "n < 2 ^ k * Suc pos" unfolding mult_Suc_right by linarith+
qed

lemma carry_level_bound:
  assumes "Suc n = (pos + 1) * 2 ^ k" "n < 2 ^ 18"
  shows "k < 19"
proof -
  have "(2::nat) ^ k \<le> (pos + 1) * 2 ^ k" by simp
  also have "\<dots> \<le> 2 ^ 18" using assms by simp
  finally show ?thesis by (simp only: power_increasing_iff)
qed

text \<open>The counter's digits after the carry stops at level \<open>lev\<close>.\<close>

lemma frontier_slot_Suc:
  assumes "Suc n = (pos + 1) * 2 ^ lev" "even pos"
  shows "k < lev \<Longrightarrow> frontier_slot B zs (Suc n) k = None"
    and "frontier_slot B zs (Suc n) lev = Some (tree_root B lev (sub zs (pos * 2 ^ lev) (2 ^ lev)))"
    and "lev < k \<Longrightarrow> frontier_slot B zs (Suc n) k = frontier_slot B zs n k"
proof -
  show "frontier_slot B zs (Suc n) k = None" if "k < lev"
  proof -
    have p: "(2::nat) ^ lev = 2 ^ (lev - k) * 2 ^ k" using that by (simp flip: power_add)
    have "Suc n = ((pos + 1) * 2 ^ (lev - k)) * 2 ^ k" unfolding assms(1) p by (simp add: algebra_simps)
    then have "Suc n div 2 ^ k = (pos + 1) * 2 ^ (lev - k)" by simp
    then show ?thesis using that by (simp add: frontier_slot_def)
  qed
  show "frontier_slot B zs (Suc n) lev = Some (tree_root B lev (sub zs (pos * 2 ^ lev) (2 ^ lev)))"
    using assms by (simp add: frontier_slot_def)
  show "frontier_slot B zs (Suc n) k = frontier_slot B zs n k" if "lev < k"
  proof -
    have k: "(2::nat) ^ k = 2 ^ lev * (2 * 2 ^ (k - Suc lev))"
      using that by (simp flip: power_add power_Suc)
    have "Suc n div 2 ^ k = (pos + 1) div 2 div 2 ^ (k - Suc lev)"
      unfolding k div_mult2_eq using assms(1) by simp
    moreover have "n div 2 ^ k = pos div 2 div 2 ^ (k - Suc lev)"
      unfolding k div_mult2_eq using low_ones_div [OF assms(1)] by simp
    ultimately have "Suc n div 2 ^ k = n div 2 ^ k" using assms(2) by simp
    then show ?thesis by (simp add: frontier_slot_def)
  qed
qed

lemma acc_carry_ok:
  assumes "length fr = 19" "n < 2 ^ 18" "Suc n = (pos + 1) * 2 ^ lev"
    and "root = tree_root B lev (sub zs (pos * 2 ^ lev) (2 ^ lev))"
    and "\<And>k. k < lev \<Longrightarrow> fr ! k = None"
    and "\<And>k. lev \<le> k \<Longrightarrow> k < 19 \<Longrightarrow> fr ! k = frontier_slot B zs n k"
  shows "\<exists>fr' L r. acc_carry B fr lev pos root = Ok (fr', L, r) \<and> L < 19 \<and> length fr' = 19
    \<and> (\<forall>k < 19. fr'[L := Some r] ! k = frontier_slot B zs (Suc n) k)"
  using assms
proof (induction pos arbitrary: fr lev root rule: less_induct)
  case (less pos)
  have lev: "lev < 19" using less.prems(3,2) by (rule carry_level_bound)
  show ?case
  proof (cases "even pos")
    case True
    then have stop: "acc_carry B fr lev pos root = Ok (fr, lev, root)"
      by (simp add: acc_carry.simps [of B fr] and_Suc_0_eq)
    have "fr[lev := Some root] ! k = frontier_slot B zs (Suc n) k" if "k < 19" for k
    proof -
      consider "k < lev" | "k = lev" | "lev < k" by linarith
      then show ?thesis
      proof cases
      case 1
      then show ?thesis using frontier_slot_Suc(1) [OF less.prems(3) True] less.prems(5) by simp
    next
      case 2
      then show ?thesis using frontier_slot_Suc(2) [OF less.prems(3) True] less.prems(1,4) lev by simp
    next
      case 3
      then show ?thesis using frontier_slot_Suc(3) [OF less.prems(3) True] less.prems(6) that by simp
      qed
    qed
    then show ?thesis using stop lev less.prems(1) by blast
  next
    case False
    then obtain q where q: "pos = 2 * q + 1" by (elim oddE)
    let ?left = "tree_root B lev (sub zs (2 * q * 2 ^ lev) (2 ^ lev))"
    have "fr ! lev = Some ?left"
      using less.prems(6) [OF _ lev] low_ones_div [OF less.prems(3)] by (simp add: frontier_slot_def q)
    then have go: "acc_carry B fr lev pos root = acc_carry B (fr[lev := None]) (Suc lev) q (hash_node B ?left root)"
      using lev less.prems(1) by (simp add: acc_carry.simps [of B fr] q and_Suc_0_eq drop_bit_Suc index_eq)
    have "\<exists>fr' L r. acc_carry B (fr[lev := None]) (Suc lev) q (hash_node B ?left root) = Ok (fr', L, r) \<and> L < 19
        \<and> length fr' = 19 \<and> (\<forall>k < 19. fr'[L := Some r] ! k = frontier_slot B zs (Suc n) k)"
    proof (rule less.IH)
      show "hash_node B ?left root = tree_root B (Suc lev) (sub zs (q * 2 ^ Suc lev) (2 ^ Suc lev))"
        unfolding tree_root_sub_Suc less.prems(4) q by simp
      show "\<And>k. k < Suc lev \<Longrightarrow> fr[lev := None] ! k = None"
        using less.prems(1,5) lev by (auto simp: nth_list_update less_Suc_eq)
      show "\<And>k. Suc lev \<le> k \<Longrightarrow> k < 19 \<Longrightarrow> fr[lev := None] ! k = frontier_slot B zs n k"
        using less.prems(6) by simp
    qed (use less.prems q in auto)
    then show ?thesis by (simp only: go)
  qed
qed

section \<open>Invariant\<close>

definition acc_inv :: "blake3 \<Rightarrow> nat \<Rightarrow> digest list \<Rightarrow> merkle_acc \<Rightarrow> bool" where
  "acc_inv B len roots self \<longleftrightarrow> acc_byte_len self = len \<and> \<not> acc_failed self
     \<and> acc_consumed self = length roots \<and> length roots \<le> acc_width self
     \<and> (\<exists>w \<le> 18. acc_width self = 2 ^ w) \<and> frontier_ok B roots (acc_frontier self)"

lemma acc_new_inv:
  assumes "acc_new len sub_len = Ok self"
  shows "acc_inv B len [] self \<and> acc_width self = len div sub_len"
proof -
  from assms have v: "validate_data_len len = Ok ()" "validate_data_len sub_len = Ok ()" "sub_len \<le> len"
    and self: "self = \<lparr>acc_byte_len = len, acc_width = len div sub_len, acc_consumed = 0,
      acc_frontier = replicate (ilog2 (4194304 div 16) + 1) None, acc_failed = False\<rparr>"
    by (auto simp: acc_new_def and_then_Ok_iff split: if_splits)
  obtain h where h: "h \<le> 18" "len = 2 ^ h * 16" using v(1) by (auto simp: validate_data_len_iff)
  obtain b where b: "len = len" "sub_len = 2 ^ b * 16" using v(2) by (auto simp: validate_data_len_iff)
  have "b \<le> h" using v(3) h(2) b(2) by simp
  then have "len div sub_len = 2 ^ (h - b)" using h b by (simp add: power_diff)
  moreover have "ilog2 (4194304 div 16) = 18" using ilog2_power [of 18] by simp
  ultimately show ?thesis
    using h(1) by (auto simp: self acc_inv_def frontier_ok_def frontier_slot_def nth_append intro: exI [of _ "h - b"])
qed

lemma acc_push_inv:
  assumes "acc_inv B len roots self" "length roots < acc_width self" "root \<noteq> 0"
  shows "\<exists>self'. acc_push B root self = (self', Ok ()) \<and> acc_inv B len (roots @ [root]) self'
    \<and> acc_width self' = acc_width self"
proof -
  let ?n = "length roots"
  obtain w where w: "w \<le> 18" "acc_width self = 2 ^ w" using assms(1) by (auto simp: acc_inv_def)
  have "(2::nat) ^ w \<le> 2 ^ 18" using w(1) by (intro power_increasing) auto
  then have n: "?n < 2 ^ 18" using assms(2) w(2) by simp
  have "\<exists>fr' L r. acc_carry B (acc_frontier self) 0 ?n root = Ok (fr', L, r) \<and> L < 19 \<and> length fr' = 19
    \<and> (\<forall>k < 19. fr'[L := Some r] ! k = frontier_slot B (roots @ [root]) (Suc ?n) k)"
    using assms(1) n by (intro acc_carry_ok) (auto simp: acc_inv_def frontier_ok_def frontier_slot_snoc sub_def)
  then obtain fr' L r where c: "acc_carry B (acc_frontier self) 0 ?n root = Ok (fr', L, r)" "L < 19" "length fr' = 19"
    "\<forall>k < 19. fr'[L := Some r] ! k = frontier_slot B (roots @ [root]) (Suc ?n) k" by blast
  show ?thesis
    using assms c n w
    by (intro exI [of _ "self\<lparr>acc_frontier := fr'[L := Some r], acc_consumed := Suc ?n\<rparr>"])
      (auto simp: acc_push_def acc_inv_def frontier_ok_def)
qed

lemma acc_push_all_inv:
  assumes "acc_inv B len prev self" "length prev + length roots \<le> acc_width self" "0 \<notin> set roots"
  shows "\<exists>self'. acc_push_all B roots self = Ok self' \<and> acc_inv B len (prev @ roots) self'
    \<and> acc_width self' = acc_width self"
  using assms
proof (induction roots arbitrary: prev self)
  case (Cons r roots)
  then obtain self' where p: "acc_push B r self = (self', Ok ())" "acc_inv B len (prev @ [r]) self'"
    "acc_width self' = acc_width self"
    using acc_push_inv [of B len prev self r] by auto
  with Cons.IH [OF p(2)] Cons.prems show ?case by auto
qed simp

lemma acc_finish_inv:
  assumes "acc_inv B len roots self" "length roots = acc_width self"
  shows "acc_finish B self = Ok (commitment_of B len (tree_root B (ilog2 (length roots)) roots))"
proof -
  obtain w where w: "w \<le> 18" "length roots = 2 ^ w" using assms by (auto simp: acc_inv_def)
  have "acc_frontier self ! w = Some (tree_root B w roots)"
    using assms(1) w by (simp add: acc_inv_def frontier_ok_def frontier_slot_def sub_def)
  moreover have "acc_width self = 2 ^ w" using assms(2) w(2) by simp
  ultimately show ?thesis
    using assms(1) w by (simp add: acc_finish_def acc_inv_def frontier_ok_def commitment_of_def index_def)
qed

section \<open>Call sequences\<close>

lemma acc_run_failed:
  assumes "acc_failed self"
  shows "acc_failed (fst (run_ops (acc_push B) roots self)) \<and>
    snd (run_ops (acc_push B) roots self) = replicate (length roots) (Err InvalidProof)"
  using assms by (induction roots arbitrary: self) (simp_all add: acc_push_def)

lemma acc_run:
  assumes "acc_inv B len prev self" "k < length roots"
  shows "snd (run_ops (acc_push B) roots self) ! k =
    (if length prev + k < acc_width self \<and> 0 \<notin> set (take (Suc k) roots) then Ok () else Err InvalidProof)"
  using assms
proof (induction roots arbitrary: prev self k)
  case (Cons r roots)
  show ?case
  proof (cases "length prev < acc_width self \<and> r \<noteq> 0")
    case True
    then obtain self' where p: "acc_push B r self = (self', Ok ())" "acc_inv B len (prev @ [r]) self'"
      "acc_width self' = acc_width self"
      using acc_push_inv [OF Cons.prems(1)] by blast
    show ?thesis
    proof (cases k)
      case 0
      then show ?thesis using True p by simp
    next
      case (Suc j)
      then show ?thesis using True p Cons.IH [OF p(2), of j] Cons.prems(2) by simp
    qed
  next
    case False
    then have p: "acc_push B r self = (self\<lparr>acc_failed := True\<rparr>, Err InvalidProof)"
      using Cons.prems(1) by (auto simp: acc_push_def acc_inv_def)
    have "snd (run_ops (acc_push B) (r # roots) self) = replicate (Suc (length roots)) (Err InvalidProof)"
      using p acc_run_failed [of "self\<lparr>acc_failed := True\<rparr>" B roots] by simp
    then show ?thesis using False Cons.prems(2) by (auto simp del: replicate.simps)
  qed
qed simp

lemma acc_run_state:
  assumes "acc_inv B len prev self"
  shows "let self' = fst (run_ops (acc_push B) roots self) in
    if length prev + length roots \<le> acc_width self \<and> 0 \<notin> set roots
    then acc_inv B len (prev @ roots) self' \<and> acc_width self' = acc_width self else acc_failed self'"
  using assms
proof (induction roots arbitrary: prev self)
  case Nil
  then show ?case by (simp add: acc_inv_def)
next
  case (Cons r roots)
  show ?case
  proof (cases "length prev < acc_width self \<and> r \<noteq> 0")
    case True
    then obtain self' where p: "acc_push B r self = (self', Ok ())" "acc_inv B len (prev @ [r]) self'"
      "acc_width self' = acc_width self"
      using acc_push_inv [OF Cons.prems(1)] by blast
    then show ?thesis using True Cons.IH [OF p(2)] by (auto simp: Let_def)
  next
    case False
    then have p: "acc_push B r self = (self\<lparr>acc_failed := True\<rparr>, Err InvalidProof)"
      using Cons.prems(1) by (auto simp: acc_push_def acc_inv_def)
    then show ?thesis
      using False acc_run_failed [of "self\<lparr>acc_failed := True\<rparr>" B roots]
      by (auto simp: Let_def)
  qed
qed

lemma commit_subtrees_eq:
  assumes "acc_new len sub_len = Ok self" "length roots = len div sub_len" "0 \<notin> set roots"
  shows "merkle_commit_subtrees B len sub_len roots =
    Ok (commitment_of B len (tree_root B (ilog2 (length roots)) roots))"
proof -
  have inv: "acc_inv B len [] self" "acc_width self = length roots"
    using acc_new_inv [OF assms(1), of B] assms(2) by auto
  obtain self' where "acc_push_all B roots self = Ok self'" "acc_inv B len roots self'"
    "acc_width self' = acc_width self"
    using acc_push_all_inv [OF inv(1), of roots] inv(2) assms(3) by auto
  then show ?thesis using assms(1) inv(2) acc_finish_inv [of B len roots self']
    by (simp add: merkle_commit_subtrees_def)
qed

section \<open>Properties\<close>

text \<open>C34: The exact behaviour of the accumulator on every sequence of \<open>push\<close> calls. From a fresh
  accumulator of \<open>width\<close> subtrees, call \<open>k\<close> succeeds if and only if \<open>k < width\<close> and no root up
  to and including it is the all-zero digest; otherwise it is the error \<open>InvalidProof\<close>, never a
  panic. \<open>finish\<close> then returns the commitment to the perfect tree over the roots if and only if
  exactly \<open>width\<close> non-zero roots were pushed, and \<open>InvalidProof\<close> otherwise.\<close>

theorem accumulator_exact:
  assumes "acc_new len sub_len = Ok self"
  shows "(\<forall>k < length roots. snd (run_ops (acc_push B) roots self) ! k =
      (if k < len div sub_len \<and> 0 \<notin> set (take (Suc k) roots) then Ok () else Err InvalidProof)) \<and>
    acc_finish B (fst (run_ops (acc_push B) roots self)) =
      (if length roots = len div sub_len \<and> 0 \<notin> set roots
       then Ok (commitment_of B len (tree_root B (ilog2 (length roots)) roots)) else Err InvalidProof)"
proof -
  define run where "run = run_ops (acc_push B) roots self"
  note inv = acc_new_inv [OF assms(1), of B]
  have "snd run ! k = (if k < len div sub_len \<and> 0 \<notin> set (take (Suc k) roots) then Ok () else Err InvalidProof)"
    if "k < length roots" for k
    using acc_run [of B len "[]" self k roots] inv that by (simp add: run_def)
  moreover have "acc_finish B (fst run) = (if length roots = len div sub_len \<and> 0 \<notin> set roots
       then Ok (commitment_of B len (tree_root B (ilog2 (length roots)) roots)) else Err InvalidProof)"
  proof (cases "length roots \<le> len div sub_len \<and> 0 \<notin> set roots")
    case True
    then have "acc_inv B len roots (fst run)" "acc_width (fst run) = len div sub_len"
      using acc_run_state [of B len "[]" self roots] inv by (auto simp: run_def Let_def)
    then show ?thesis using True acc_finish_inv [of B len roots "fst run"]
      by (auto simp: acc_inv_def acc_finish_def)
  next
    case False
    then have "acc_failed (fst run)"
      using acc_run_state [of B len "[]" self roots] inv by (auto simp: run_def Let_def)
    then show ?thesis using False by (auto simp: acc_finish_def)
  qed
  ultimately show ?thesis by (simp add: run_def)
qed

text \<open>Composing the commitment from the subtree roots opened out of the bytes gives exactly the
  commitment of the bytes themselves: streaming subtree roots and hashing the whole payload
  agree. Every subtree root must be non-zero (the format's reserved digest).\<close>

theorem merkle_commit_subtrees_agrees:
  assumes commit: "merkle_commit B bytes = Ok c" and sub: "acc_new (length bytes) (16 * count) = Ok self"
    and roots: "\<And>j. j < length bytes div (16 * count) \<Longrightarrow>
      \<exists>q. merkle_open_subtree B bytes (j * count) count = Ok q \<and> sp_subtree_root q = roots ! j"
    and shape: "length roots = length bytes div (16 * count)" "0 \<notin> set roots"
  shows "merkle_commit_subtrees B (length bytes) (16 * count) roots = merkle_commit B bytes"
proof -
  let ?ds = "leaf_digests B bytes"
  obtain h where h: "h \<le> 18" "length bytes = 2 ^ h * 16"
    and c: "c = commitment_of B (length bytes) (tree_root B h ?ds)"
    using commit by (auto elim: merkle_commit_OkE)
  have v: "validate_data_len (length bytes) = Ok ()" "validate_data_len (16 * count) = Ok ()" "16 * count \<le> length bytes"
    using sub by (auto simp: acc_new_def and_then_Ok_iff split: if_splits)
  obtain b where b: "count = 2 ^ b" using v(2) by (auto simp: validate_data_len_iff)
  have bh: "b \<le> h" using v(3) h(2) b by simp
  have w: "length bytes div (16 * count) = 2 ^ (h - b)"
    using h(2) b bh by (simp add: power_diff mult.commute)
  have lds: "length ?ds = 2 ^ (h - b + b)" using length_leaf_digests [OF h(2)] bh by simp
  have "roots = level B b ?ds"
  proof (rule nth_equalityI)
    show "length roots = length (level B b ?ds)" using lds by (simp add: shape(1) w power_add)
    fix j assume "j < length roots"
    then have j: "j < 2 ^ (h - b)" using shape(1) w by simp
    have "\<not> bad_range (j * count) count (2 ^ h)" unfolding b using bh j h(1) by (intro good_rangeI) auto
    then have "roots ! j = tree_root B b (sub ?ds (j * count) count)"
      using roots [of j] j w open_subtree_eq [OF h(2) v(1), of "j * count" count B] b by auto
    then show "roots ! j = level B b ?ds ! j"
      using level_nth [of j ?ds b B] j lds by (simp add: b power_add)
  qed
  then have "tree_root B (ilog2 (length roots)) roots = tree_root B h ?ds"
    using tree_root_level [OF lds, of B] shape(1) w bh by simp
  then show ?thesis
    using commit_subtrees_eq [OF sub shape(1) shape(2), of B] commit c by simp
qed

text \<open>The failure fence: a rejected root is the only error of \<open>push\<close>, and it is permanent.\<close>

lemma acc_carry_no_error: "acc_carry B frontier lev position root \<noteq> Err e"
proof (induction B frontier lev position root rule: acc_carry.induct)
  case (1 B frontier lev position root)
  show ?case
    using 1 by (subst acc_carry.simps) (auto simp: result_simps)
qed

interpretation acc: fence "acc_push B" acc_failed
proof
  fix i s e
  show "acc_failed s \<Longrightarrow> acc_failed (fst (acc_push B i s)) \<and> (\<exists>e. snd (acc_push B i s) = Err e)"
    by (simp add: acc_push_def)
  show "snd (acc_push B i s) = Err e \<Longrightarrow> acc_failed (fst (acc_push B i s))"
    using acc_carry_no_error [of B "acc_frontier s" 0 "acc_consumed s" i e]
    by (auto simp: acc_push_def split: if_splits sum.splits)
qed

section \<open>Instances\<close>

definition sample_acc :: merkle_acc where
  "sample_acc = \<lparr>acc_byte_len = 32, acc_width = 2, acc_consumed = 0, acc_frontier = replicate 19 None,
     acc_failed = False\<rparr>"

lemma sample_acc_new: "acc_new 32 16 = Ok sample_acc"
proof -
  have "ilog2 262144 = 18" using ilog2_power [of 18] by simp
  then show ?thesis by (simp add: acc_new_def sample_acc_def sample_data_len)
qed

theorem accumulator_exact_witness:
  "snd (run_ops (acc_push sample_blake3) [2, 0, 3] sample_acc) ! 0 = Ok () \<and>
    snd (run_ops (acc_push sample_blake3) [2, 0, 3] sample_acc) ! 2 = Err InvalidProof"
proof -
  note run = accumulator_exact [OF sample_acc_new, of "[2, 0, 3]" sample_blake3, THEN conjunct1, rule_format]
  from run [of 0] run [of 2] show ?thesis by (simp del: run_ops_Cons)
qed

theorem merkle_commit_subtrees_agrees_witness:
  "merkle_commit_subtrees sample_blake3 32 16 [2, 3] = Ok sample_commitment"
proof -
  have "\<exists>q. merkle_open_subtree sample_blake3 sample_shard (j * 1) 1 = Ok q \<and> sp_subtree_root q = [2, 3] ! j"
    if "j < length sample_shard div (16 * 1)" for j
  proof -
    have j: "j < 2" using that by (simp add: length_sample_shard)
    then have "\<not> bad_range j 1 (2 ^ 1)" using good_rangeI [of 0 1 j] by simp
    then show ?thesis
      using open_subtree_eq [of sample_shard 1 j 1 sample_blake3] j
      by (force simp: length_sample_shard sample_data_len sample_digests sub_def ilog2_small less_2_cases_iff)
  qed
  from merkle_commit_subtrees_agrees [OF sample_commit _ this] show ?thesis
    using sample_acc_new sample_commit by (simp add: length_sample_shard)
qed

end
