(* ===== verification/Catalog_Page.thy ===== *)
theory Catalog_Page
  imports Prelude
begin

text \<open>
  The pages of the paged catalogs, \<open>src/crates/mb-core/src/catalog.rs\<close>: scopes and sections, page
  references, the counts a page's reference carries, canonical encoding and verification of an
  encoded page against its authenticated reference.

  The canonical byte encoding is the third-party crate \<open>postcard\<close>, called through
  \<open>canonical_bytes\<close> and \<open>decode_canonical\<close> (\<open>src/crates/mb-core/src/model.rs\<close>): it is the record
  \<open>page_codec\<close>. \<open>codec_roundtrip\<close> is what it documents (a serialised value deserialises to
  itself, and is not the empty string) and \<open>codec_fits\<close> bounds the size of an encoded page.
\<close>

section \<open>Data\<close>

abbreviation (input) CATALOG_PAGE_BYTES :: nat where "CATALOG_PAGE_BYTES \<equiv> 65536"
abbreviation (input) CATALOG_LEAF_BYTES :: nat where "CATALOG_LEAF_BYTES \<equiv> 61440"
abbreviation (input) CATALOG_FANOUT :: nat where "CATALOG_FANOUT \<equiv> 128"
abbreviation (input) CATALOG_MAX_HEIGHT :: nat where "CATALOG_MAX_HEIGHT \<equiv> 3"
abbreviation (input) CATALOG_MAX_STREAM_BYTES :: nat where "CATALOG_MAX_STREAM_BYTES \<equiv> 17179869184"
abbreviation (input) CATALOG_MAX_PAGE_OCCURRENCES :: nat where "CATALOG_MAX_PAGE_OCCURRENCES \<equiv> 1000000"

type_synonym uuid = "128 word"

datatype catalog_scope =
  Dataset (sc_guild_id: digest) (sc_owner: digest) (sc_protected_root_id: uuid)
| Guild (sc_guild_id: digest)

datatype catalog_section = FileMetadata | GitGraph | SectorReferences | Packing | Coding | Checkpoint

record page_ref =
  pr_hash :: digest
  pr_encoded_len :: nat
  pr_height :: nat
  pr_byte_len :: nat
  pr_page_occurrences :: nat

text \<open>The payload of the transparent variants is the type parameter.\<close>

datatype 'm catalog_error = Bounds | InvalidPage | Failed | Model 'm | Content 'm | CodingAttempt 'm

datatype ('m, 'e) stream_error = Catalog "'m catalog_error" | Storage 'e

datatype page_body = Leaf "byte list" | Index "page_ref list"

record page =
  pg_format_version :: nat
  pg_scope :: catalog_scope
  pg_section :: catalog_section
  pg_height :: nat
  pg_body :: page_body

record 'm page_codec =
  pc_encode :: "page \<Rightarrow> 'm + byte list"
  pc_decode :: "byte list \<Rightarrow> 'm + page"
  pc_too_long :: 'm

section \<open>Operations\<close>

definition scope_validate :: "catalog_scope \<Rightarrow> catalog_section \<Rightarrow> ('m catalog_error, unit) result" where
  "scope_validate self sec =
     (case self of
        Dataset guild_id owner root_id \<Rightarrow>
          if sec \<in> {FileMetadata, GitGraph, SectorReferences} \<and> root_id \<noteq> 0 then Ok () else Err InvalidPage
      | Guild guild_id \<Rightarrow>
          if sec \<in> {Packing, Coding, Checkpoint} then Ok () else Err InvalidPage)"

definition section_is_private :: "catalog_section \<Rightarrow> bool" where
  "section_is_private sec \<longleftrightarrow> sec = FileMetadata \<or> sec = GitGraph"

definition ref_validate :: "page_ref \<Rightarrow> ('m catalog_error, unit) result" where
  "ref_validate self =
     (if pr_encoded_len self = 0
       \<or> CATALOG_PAGE_BYTES < pr_encoded_len self
       \<or> CATALOG_MAX_HEIGHT < pr_height self
       \<or> CATALOG_MAX_STREAM_BYTES < pr_byte_len self
       \<or> pr_page_occurrences self = 0
       \<or> CATALOG_MAX_PAGE_OCCURRENCES < pr_page_occurrences self
       \<or> pr_height self = 0 \<and> (pr_page_occurrences self \<noteq> 1 \<or> CATALOG_LEAF_BYTES < pr_byte_len self)
       \<or> 0 < pr_height self \<and> (pr_byte_len self = 0 \<or> pr_page_occurrences self \<le> 1)
      then Err Bounds else Ok ())"

text \<open>\<open>decode_bounded\<close> refuses a collection longer than the limit of its field.\<close>

definition decode_bounded :: "nat \<Rightarrow> 'm page_codec \<Rightarrow> 'a list \<Rightarrow> ('m catalog_error, 'a list) result" where
  "decode_bounded limit C vals = (if limit < length vals then Err (Model (pc_too_long C)) else Ok vals)"

definition decode_page :: "'m page_codec \<Rightarrow> byte list \<Rightarrow> ('m catalog_error, page) result" where
  "decode_page C bytes =
     (case pc_decode C bytes of
        Inl e \<Rightarrow> Err (Model e)
      | Inr page \<Rightarrow>
          (case pg_body page of
             Leaf bs \<Rightarrow> and_then (decode_bounded CATALOG_LEAF_BYTES C bs) (\<lambda>_. Ok page)
           | Index cs \<Rightarrow> and_then (decode_bounded CATALOG_FANOUT C cs) (\<lambda>_. Ok page)))"

text \<open>The loop over the children of an index page: running byte and page counts.\<close>

fun count_children :: "nat \<Rightarrow> page_ref list \<Rightarrow> nat \<Rightarrow> nat \<Rightarrow> ('m catalog_error, nat \<times> nat) result" where
  "count_children height [] byte_len pages = Ok (byte_len, pages)"
| "count_children height (child # children) byte_len pages =
     and_then (ref_validate child) (\<lambda>_.
     and_then (uadd 8 (pr_height child) 1) (\<lambda>h.
     if h \<noteq> height \<or> pr_byte_len child = 0 then Err InvalidPage
     else
       and_then (ok_or (checked_add 64 byte_len (pr_byte_len child)) Bounds) (\<lambda>byte_len'.
       and_then (ok_or (checked_add 64 pages (pr_page_occurrences child)) Bounds) (\<lambda>pages'.
       count_children height children byte_len' pages'))))"

definition page_counts :: "page \<Rightarrow> ('m catalog_error, nat \<times> nat) result" where
  "page_counts self =
     and_then (scope_validate (pg_scope self) (pg_section self)) (\<lambda>_.
     if pg_format_version self \<noteq> 1 \<or> CATALOG_MAX_HEIGHT < pg_height self then Err InvalidPage
     else case pg_body self of
       Leaf bytes \<Rightarrow>
         if pg_height self = 0 \<and> length bytes \<le> CATALOG_LEAF_BYTES then Ok (length bytes, 1) else Err InvalidPage
     | Index children \<Rightarrow>
         if 0 < pg_height self \<and> children \<noteq> [] \<and> length children \<le> CATALOG_FANOUT
         then and_then (count_children (pg_height self) children 0 1) (\<lambda>(byte_len, pages).
              if CATALOG_MAX_STREAM_BYTES < byte_len \<or> CATALOG_MAX_PAGE_OCCURRENCES < pages
              then Err Bounds else Ok (byte_len, pages))
         else Err InvalidPage)"

definition page_hash :: "blake3 \<Rightarrow> byte list \<Rightarrow> digest" where
  "page_hash B bytes = derive_key B ''mutualbackup catalog page v1'' bytes"

definition page_encode :: "'m page_codec \<Rightarrow> blake3 \<Rightarrow> page \<Rightarrow> ('m catalog_error, page_ref \<times> byte list) result" where
  "page_encode C B self =
     and_then (page_counts self) (\<lambda>(byte_len, page_occurrences).
     case pc_encode C self of
       Inl e \<Rightarrow> Err (Model e)
     | Inr bytes \<Rightarrow>
         if CATALOG_PAGE_BYTES < length bytes then Err Bounds
         else Ok (\<lparr>pr_hash = page_hash B bytes, pr_encoded_len = length bytes, pr_height = pg_height self,
                   pr_byte_len = byte_len, pr_page_occurrences = page_occurrences\<rparr>, bytes))"

definition verify_page ::
    "'m page_codec \<Rightarrow> blake3 \<Rightarrow> page_ref \<Rightarrow> catalog_scope \<Rightarrow> catalog_section \<Rightarrow> byte list
      \<Rightarrow> ('m catalog_error, page) result" where
  "verify_page C B expected scope sec bytes =
     and_then (ref_validate expected) (\<lambda>_.
     if length bytes \<noteq> pr_encoded_len expected \<or> page_hash B bytes \<noteq> pr_hash expected then Err InvalidPage
     else
       and_then (decode_page C bytes) (\<lambda>page.
       if pg_scope page \<noteq> scope \<or> pg_section page \<noteq> sec then Err InvalidPage
       else
         and_then (page_encode C B page) (\<lambda>(reference, canonical).
         if reference \<noteq> expected \<or> canonical \<noteq> bytes then Err InvalidPage else Ok page)))"

text \<open>\<open>CatalogPageRef::verify_page\<close> returns the body of the verified page.\<close>

definition ref_verify_page ::
    "'m page_codec \<Rightarrow> blake3 \<Rightarrow> page_ref \<Rightarrow> catalog_scope \<Rightarrow> catalog_section \<Rightarrow> byte list
      \<Rightarrow> ('m catalog_error, page_body) result" where
  "ref_verify_page C B self scope sec bytes =
     and_then (verify_page C B self scope sec bytes) (\<lambda>page. Ok (pg_body page))"

section \<open>Laws of the encoding\<close>

definition codec_roundtrip :: "'m page_codec \<Rightarrow> bool" where
  "codec_roundtrip C \<longleftrightarrow> (\<forall>p bs. pc_encode C p = Inr bs \<longrightarrow> bs \<noteq> [] \<and> pc_decode C bs = Inr p)"

definition codec_fits :: "'m page_codec \<Rightarrow> bool" where
  "codec_fits C \<longleftrightarrow> (\<forall>p. (\<exists>n. page_counts p = (Ok n :: ('m catalog_error, _) result)) \<longrightarrow>
     (\<exists>bs. pc_encode C p = Inr bs \<and> 0 < length bs \<and> length bs \<le> CATALOG_PAGE_BYTES))"

section \<open>Counts\<close>

lemma ref_validate_iff:
  "ref_validate r = Ok () \<longleftrightarrow>
     0 < pr_encoded_len r \<and> pr_encoded_len r \<le> 65536 \<and> pr_height r \<le> 3 \<and> pr_byte_len r \<le> 17179869184
   \<and> 0 < pr_page_occurrences r \<and> pr_page_occurrences r \<le> 1000000
   \<and> (pr_height r = 0 \<longrightarrow> pr_page_occurrences r = 1 \<and> pr_byte_len r \<le> 61440)
   \<and> (0 < pr_height r \<longrightarrow> 0 < pr_byte_len r \<and> 1 < pr_page_occurrences r)"
  by (auto simp: ref_validate_def)

lemma count_children_OkD:
  assumes "count_children h cs b n = (Ok (b', n') :: ('m catalog_error, _) result)"
  shows "b' = b + sum_list (map pr_byte_len cs) \<and> n' = n + sum_list (map pr_page_occurrences cs)
    \<and> (\<forall>c \<in> set cs. ref_validate c = (Ok () :: ('m catalog_error, unit) result) \<and> Suc (pr_height c) = h \<and> 0 < pr_byte_len c)"
  using assms
proof (induction cs arbitrary: b n)
  case (Cons c cs)
  then have "ref_validate c = (Ok () :: ('m catalog_error, unit) result)" "Suc (pr_height c) = h" "0 < pr_byte_len c"
    "count_children h cs (b + pr_byte_len c) (n + pr_page_occurrences c) = (Ok (b', n') :: ('m catalog_error, _) result)"
    by (auto simp: result_simps split: if_splits)
  with Cons.IH [OF this(4)] show ?case by auto
qed simp

lemma count_children_Ok:
  assumes "\<forall>c \<in> set cs. ref_validate c = (Ok () :: ('m catalog_error, unit) result) \<and> Suc (pr_height c) = h \<and> 0 < pr_byte_len c"
    and "b + sum_list (map pr_byte_len cs) < 2 ^ 64" "n + sum_list (map pr_page_occurrences cs) < 2 ^ 64"
  shows "count_children h cs b n = (Ok (b + sum_list (map pr_byte_len cs), n + sum_list (map pr_page_occurrences cs))
    :: ('m catalog_error, _) result)"
  using assms
proof (induction cs arbitrary: b n)
  case (Cons c cs)
  then have c: "ref_validate c = (Ok () :: ('m catalog_error, unit) result)" "Suc (pr_height c) = h" "0 < pr_byte_len c"
    by auto
  have "pr_height c + 1 < 2 ^ 8" using c(1) by (simp add: ref_validate_iff)
  moreover have "b + pr_byte_len c < 2 ^ 64" "n + pr_page_occurrences c < 2 ^ 64" using Cons.prems by auto
  ultimately show ?case using Cons c by (simp add: add.assoc)
qed simp

lemma page_counts_leaf:
  assumes "pg_body p = Leaf bs"
  shows "page_counts p = (Ok n :: ('m catalog_error, _) result) \<longleftrightarrow>
    scope_validate (pg_scope p) (pg_section p) = (Ok () :: ('m catalog_error, unit) result)
    \<and> pg_format_version p = 1 \<and> pg_height p = 0 \<and> length bs \<le> 61440 \<and> n = (length bs, 1)"
  using assms by (auto simp: page_counts_def result_simps)

lemma page_counts_index:
  assumes "pg_body p = Index cs"
  shows "page_counts p = (Ok n :: ('m catalog_error, _) result) \<longleftrightarrow>
    scope_validate (pg_scope p) (pg_section p) = (Ok () :: ('m catalog_error, unit) result)
    \<and> pg_format_version p = 1 \<and> 0 < pg_height p \<and> pg_height p \<le> 3 \<and> cs \<noteq> [] \<and> length cs \<le> 128
    \<and> (\<forall>c \<in> set cs. ref_validate c = (Ok () :: ('m catalog_error, unit) result) \<and> Suc (pr_height c) = pg_height p \<and> 0 < pr_byte_len c)
    \<and> sum_list (map pr_byte_len cs) \<le> 17179869184 \<and> 1 + sum_list (map pr_page_occurrences cs) \<le> 1000000
    \<and> n = (sum_list (map pr_byte_len cs), 1 + sum_list (map pr_page_occurrences cs))"
proof
  assume "page_counts p = (Ok n :: ('m catalog_error, _) result)"
  then have top: "scope_validate (pg_scope p) (pg_section p) = (Ok () :: ('m catalog_error, unit) result)"
    "pg_format_version p = 1" "0 < pg_height p" "pg_height p \<le> 3" "cs \<noteq> []" "length cs \<le> 128"
    and loop: "count_children (pg_height p) cs 0 1 = (Ok n :: ('m catalog_error, _) result)"
      "fst n \<le> 17179869184" "snd n \<le> 1000000"
    using assms by (auto simp: page_counts_def result_simps split: if_splits)
  show "scope_validate (pg_scope p) (pg_section p) = (Ok () :: ('m catalog_error, unit) result)
    \<and> pg_format_version p = 1 \<and> 0 < pg_height p \<and> pg_height p \<le> 3 \<and> cs \<noteq> [] \<and> length cs \<le> 128
    \<and> (\<forall>c \<in> set cs. ref_validate c = (Ok () :: ('m catalog_error, unit) result) \<and> Suc (pr_height c) = pg_height p \<and> 0 < pr_byte_len c)
    \<and> sum_list (map pr_byte_len cs) \<le> 17179869184 \<and> 1 + sum_list (map pr_page_occurrences cs) \<le> 1000000
    \<and> n = (sum_list (map pr_byte_len cs), 1 + sum_list (map pr_page_occurrences cs))"
    using top loop count_children_OkD [of "pg_height p" cs 0 1 "fst n" "snd n", where ?'m = 'm] by (cases n) auto
next
  assume r: "scope_validate (pg_scope p) (pg_section p) = (Ok () :: ('m catalog_error, unit) result)
    \<and> pg_format_version p = 1 \<and> 0 < pg_height p \<and> pg_height p \<le> 3 \<and> cs \<noteq> [] \<and> length cs \<le> 128
    \<and> (\<forall>c \<in> set cs. ref_validate c = (Ok () :: ('m catalog_error, unit) result) \<and> Suc (pr_height c) = pg_height p \<and> 0 < pr_byte_len c)
    \<and> sum_list (map pr_byte_len cs) \<le> 17179869184 \<and> 1 + sum_list (map pr_page_occurrences cs) \<le> 1000000
    \<and> n = (sum_list (map pr_byte_len cs), 1 + sum_list (map pr_page_occurrences cs))"
  then have "count_children (pg_height p) cs 0 1 = (Ok n :: ('m catalog_error, _) result)"
    by (subst count_children_Ok) simp_all
  with r assms show "page_counts p = (Ok n :: ('m catalog_error, _) result)"
    by (simp add: page_counts_def)
qed

section \<open>Encoded pages\<close>

lemma page_encode_OkD:
  fixes C :: "'m page_codec"
  assumes "page_encode C B p = Ok (r, bs)"
  shows "page_counts p = (Ok (pr_byte_len r, pr_page_occurrences r) :: ('m catalog_error, _) result)"
    "pc_encode C p = Inr bs" "pr_hash r = page_hash B bs" "pr_encoded_len r = length bs" "pr_height r = pg_height p"
    "length bs \<le> 65536"
proof -
  obtain bs' where "pc_encode C p = Inr bs'" using assms
    by (cases "pc_encode C p") (auto simp: page_encode_def result_simps)
  then show "page_counts p = (Ok (pr_byte_len r, pr_page_occurrences r) :: ('m catalog_error, _) result)"
    "pc_encode C p = Inr bs" "pr_hash r = page_hash B bs" "pr_encoded_len r = length bs" "pr_height r = pg_height p"
    "length bs \<le> 65536"
    using assms by (auto simp: page_encode_def result_simps split: if_splits)
qed

lemma page_encode_valid:
  fixes C :: "'m page_codec"
  assumes "page_encode C B p = Ok (r, bs)" "bs \<noteq> []"
  shows "ref_validate r = (Ok () :: ('m catalog_error, unit) result)"
proof (cases "pg_body p")
  case (Leaf x)
  then show ?thesis using page_encode_OkD [OF assms(1)] assms(2)
    by (auto simp: page_counts_leaf [OF Leaf] ref_validate_iff)
next
  case (Index cs)
  note c = page_encode_OkD(1) [OF assms(1), unfolded page_counts_index [OF Index]]
  obtain c0 cs' where cs: "cs = c0 # cs'" using c by (cases cs) auto
  have "0 < pr_byte_len c0" "0 < pr_page_occurrences c0" using c cs by (auto simp: ref_validate_iff)
  then show ?thesis using c page_encode_OkD(4-6) [OF assms(1)] assms(2)
    by (auto simp: ref_validate_iff cs)
qed

lemma verify_page_OkD:
  fixes C :: "'m page_codec"
  assumes "verify_page C B r scope sec bytes = Ok page"
  shows "ref_validate r = (Ok () :: ('m catalog_error, unit) result)" "length bytes = pr_encoded_len r"
    "page_hash B bytes = pr_hash r" "page_encode C B page = Ok (r, bytes)" "pg_scope page = scope" "pg_section page = sec"
    "pc_decode C bytes = Inr page"
  using assms
  by (auto simp: verify_page_def result_simps decode_page_def decode_bounded_def
      split: sum.splits if_splits prod.splits page_body.splits)

lemma decode_page_encoded:
  assumes "codec_roundtrip C" "page_encode C B p = Ok (r, bs)"
  shows "decode_page C bs = Ok p"
proof -
  note e = page_encode_OkD [OF assms(2)]
  have "pc_decode C bs = Inr p" using assms(1) e(2) by (auto simp: codec_roundtrip_def)
  then show ?thesis
    using e(1) by (cases "pg_body p")
      (auto simp: decode_page_def decode_bounded_def page_counts_leaf page_counts_index)
qed

lemma verify_page_encoded:
  assumes "codec_roundtrip C" "page_encode C B p = Ok (r, bs)"
  shows "verify_page C B r (pg_scope p) (pg_section p) bs = Ok p"
  using page_encode_valid [OF assms(2)] page_encode_OkD(2) [OF assms(2)] assms(1) [unfolded codec_roundtrip_def] decode_page_encoded [OF assms(1,2)] page_encode_OkD [OF assms(2)] assms(2)
  by (simp add: verify_page_def)

text \<open>A page accepted for the reference of another page is that page, unless their encodings collide.\<close>

lemma verify_page_unique:
  assumes "page_encode C B p = Ok (r, bs)" "codec_roundtrip C" "verify_page C B r scope sec bytes = Ok q"
    "page_hash B bytes = page_hash B bs \<longrightarrow> bytes = bs"
  shows "q = p \<and> bytes = bs \<and> scope = pg_scope p \<and> sec = pg_section p"
proof -
  note v = verify_page_OkD [OF assms(3)] and e = page_encode_OkD [OF assms(1)]
  have "bytes = bs" using assms(4) v(3) e(3) by simp
  then have "q = p" using assms(2) e(2) v(7) by (auto simp: codec_roundtrip_def)
  with v \<open>bytes = bs\<close> show ?thesis by simp
qed

section \<open>The stream behind a root\<close>

text \<open>\<open>tree_leaves\<close> is the meaning of a root in a page store: the leaf payloads in order. Every page
  on the way must be present and verify.\<close>

function tree_leaves ::
    "'m page_codec \<Rightarrow> blake3 \<Rightarrow> catalog_scope \<Rightarrow> catalog_section \<Rightarrow> (page_ref \<Rightarrow> byte list option) \<Rightarrow> page_ref
      \<Rightarrow> byte list list option" where
  "tree_leaves C B scope sec S r =
     (case S r of
        None \<Rightarrow> None
      | Some enc \<Rightarrow>
          (case verify_page C B r scope sec enc of
             Inl _ \<Rightarrow> None
           | Inr page \<Rightarrow>
               (case pg_body page of
                  Leaf bs \<Rightarrow> Some [bs]
                | Index cs \<Rightarrow>
                    if \<forall>c \<in> set cs. pr_height c < pr_height r
                    then map_option concat (those (map (tree_leaves C B scope sec S) cs))
                    else None)))"
  by pat_completeness auto
termination by (relation "measure (\<lambda>(C, B, scope, sec, S, r). pr_height r)") auto

declare tree_leaves.simps [simp del]

lemma those_eq_Some: "those xs = Some ys \<longleftrightarrow> xs = map Some ys"
proof (induction xs arbitrary: ys)
  case (Cons x xs)
  then show ?case by (cases ys) (auto split: option.splits)
qed auto

lemma verified_leaf:
  assumes "verify_page C B r scope sec enc = Ok p" "pg_body p = Leaf bs"
  shows "pr_height r = 0 \<and> pr_byte_len r = length bs \<and> pr_page_occurrences r = 1 \<and> length bs \<le> 61440"
  using page_encode_OkD(1,5) [OF verify_page_OkD(4) [OF assms(1)]] by (auto simp: page_counts_leaf [OF assms(2)])

lemma verified_index:
  fixes C :: "'m page_codec"
  assumes "verify_page C B r scope sec enc = Ok p" "pg_body p = Index cs"
  shows "0 < pr_height r \<and> pr_height r \<le> 3 \<and> cs \<noteq> [] \<and> length cs \<le> 128
    \<and> pr_byte_len r = sum_list (map pr_byte_len cs)
    \<and> pr_page_occurrences r = 1 + sum_list (map pr_page_occurrences cs)
    \<and> (\<forall>c \<in> set cs. ref_validate c = (Ok () :: ('m catalog_error, unit) result) \<and> Suc (pr_height c) = pr_height r \<and> 0 < pr_byte_len c)"
  using page_encode_OkD(1,5) [OF verify_page_OkD(4) [OF assms(1)]] by (auto simp: page_counts_index [OF assms(2)])

lemma tree_leaves_SomeE:
  fixes C :: "'m page_codec"
  assumes "tree_leaves C B scope sec S r = Some ls"
  obtains (leaf) enc p bs where "S r = Some enc" "verify_page C B r scope sec enc = Ok p" "pg_body p = Leaf bs" "ls = [bs]"
  | (index) enc p cs lss where "S r = Some enc" "verify_page C B r scope sec enc = Ok p" "pg_body p = Index cs"
      "map (tree_leaves C B scope sec S) cs = map Some lss" "ls = concat lss"
proof -
  from assms obtain enc where enc: "S r = Some enc" by (subst (asm) tree_leaves.simps) (auto split: option.splits)
  with assms obtain p where p: "verify_page C B r scope sec enc = Ok p"
    by (subst (asm) tree_leaves.simps) (auto split: sum.splits)
  show thesis
  proof (cases "pg_body p")
    case (Leaf bs)
    then show ?thesis using assms enc p leaf by (subst (asm) tree_leaves.simps) auto
  next
    case (Index cs)
    then show ?thesis using assms enc p index by (subst (asm) tree_leaves.simps) (auto simp: those_eq_Some split: if_splits)
  qed
qed

lemma tree_leaves_leafI:
  "S r = Some enc \<Longrightarrow> verify_page C B r scope sec enc = Ok p \<Longrightarrow> pg_body p = Leaf bs
    \<Longrightarrow> tree_leaves C B scope sec S r = Some [bs]"
  by (subst tree_leaves.simps) simp

lemma tree_leaves_indexI:
  assumes "S r = Some enc" "verify_page C B r scope sec enc = Ok p" "pg_body p = Index cs"
    "map (tree_leaves C B scope sec S) cs = map Some lss"
  shows "tree_leaves C B scope sec S r = Some (concat lss)"
proof -
  have "\<forall>c \<in> set cs. pr_height c < pr_height r" using verified_index [OF assms(2,3)] by fastforce
  moreover have "those (map (tree_leaves C B scope sec S) cs) = Some lss" using assms(4) by (simp only: those_eq_Some)
  ultimately show ?thesis using assms(1-3) by (subst tree_leaves.simps) simp
qed

text \<open>The leaves behind a list of references.\<close>

definition denotes :: "(page_ref \<Rightarrow> byte list list option) \<Rightarrow> page_ref list \<Rightarrow> byte list list \<Rightarrow> bool" where
  "denotes L rs ls \<longleftrightarrow> (\<exists>lss. map L rs = map Some lss \<and> ls = concat lss)"

lemma denotes_Nil [simp]: "denotes L [] ls \<longleftrightarrow> ls = []"
  by (auto simp: denotes_def)

lemma denotes_single [simp]: "denotes L [r] ls \<longleftrightarrow> L r = Some ls"
  by (auto simp: denotes_def map_eq_Cons_conv Cons_eq_map_conv intro: exI [of _ "[ls]"])

lemma denotes_append: "denotes L (rs @ rs') ls \<longleftrightarrow> (\<exists>a b. denotes L rs a \<and> denotes L rs' b \<and> ls = a @ b)"
proof
  assume "denotes L (rs @ rs') ls"
  then obtain lss where l: "map L rs @ map L rs' = map Some lss" "ls = concat lss" by (auto simp: denotes_def)
  then obtain xs ys where "lss = xs @ ys" "map L rs = map Some xs" "map L rs' = map Some ys"
    using map_eq_append_conv [of Some lss "map L rs" "map L rs'"] by metis
  then show "\<exists>a b. denotes L rs a \<and> denotes L rs' b \<and> ls = a @ b" using l(2) by (auto simp: denotes_def)
next
  assume "\<exists>a b. denotes L rs a \<and> denotes L rs' b \<and> ls = a @ b"
  then obtain xs ys where "map L rs = map Some xs" "map L rs' = map Some ys" "ls = concat xs @ concat ys"
    by (auto simp: denotes_def)
  then show "denotes L (rs @ rs') ls" by (auto simp: denotes_def intro: exI [of _ "xs @ ys"])
qed

lemma denotes_mono:
  assumes "denotes L rs ls" "\<And>r l. r \<in> set rs \<Longrightarrow> L r = Some l \<Longrightarrow> L' r = Some l"
  shows "denotes L' rs ls"
proof -
  obtain lss where l: "map L rs = map Some lss" "ls = concat lss" using assms(1) by (auto simp: denotes_def)
  have "map L' rs = map Some lss"
    using l(1) assms(2) by (auto simp: list_eq_iff_nth_eq)
  then show ?thesis using l(2) by (auto simp: denotes_def)
qed

lemma map_eq_SomeD: "map f cs = map Some ys \<Longrightarrow> c \<in> set cs \<Longrightarrow> \<exists>y. f c = Some y"
  by (metis ex_map_conv image_eqI list.set_map option.exhaust)

lemma map_eq_Some_nth: "map f cs = map Some ys \<longleftrightarrow> length cs = length ys \<and> (\<forall>i < length cs. f (cs ! i) = Some (ys ! i))"
  by (auto simp: list_eq_iff_nth_eq)

lemma length_concat_concat: "length (concat (concat lss)) = sum_list (map (\<lambda>l. length (concat l)) lss)"
  by (induction lss) simp_all

lemma tree_leaves_sizes:
  assumes "tree_leaves C B scope sec S r = Some ls"
  shows "ls \<noteq> [] \<and> length (concat ls) = pr_byte_len r \<and> (\<forall>l \<in> set ls. length l \<le> 61440)"
  using assms
proof (induction "pr_height r" arbitrary: r ls rule: less_induct)
  case less
  from less.prems show ?case
  proof (cases rule: tree_leaves_SomeE)
    case (leaf enc p bs)
    then show ?thesis using verified_leaf [OF leaf(2,3)] by simp
  next
    case (index enc p cs lss)
    note v = verified_index [OF index(2,3)]
    have sizes: "lss ! i \<noteq> [] \<and> length (concat (lss ! i)) = pr_byte_len (cs ! i) \<and> (\<forall>l \<in> set (lss ! i). length l \<le> 61440)"
      if "i < length cs" for i
    proof (rule less.hyps)
      show "pr_height (cs ! i) < pr_height r" using v nth_mem [OF that] by (metis lessI)
      show "tree_leaves C B scope sec S (cs ! i) = Some (lss ! i)" using that index(4) by (simp add: map_eq_Some_nth)
    qed
    have len: "length lss = length cs" using index(4) by (metis length_map)
    then have "map (\<lambda>l. length (concat l)) lss = map pr_byte_len cs" by (intro nth_equalityI) (auto simp: sizes)
    then have "length (concat ls) = pr_byte_len r"
      using v index(5) by (simp add: length_concat_concat del: length_concat)
    moreover have "\<forall>l \<in> set ls. length l \<le> 61440" using sizes len by (auto simp: index(5)) (metis in_set_conv_nth)
    moreover have "ls \<noteq> []" using sizes [of 0] len v by (cases lss) (auto simp: index(5))
    ultimately show ?thesis by blast
  qed
qed

lemma tree_leaves_mono:
  assumes "tree_leaves C B scope sec S r = Some ls" "S \<subseteq>\<^sub>m S'"
  shows "tree_leaves C B scope sec S' r = Some ls"
  using assms(1)
proof (induction "pr_height r" arbitrary: r ls rule: less_induct)
  case less
  have keep: "S x = Some y \<Longrightarrow> S' x = Some y" for x y using assms(2) by (metis domI map_le_def)
  from less.prems show ?case
  proof (cases rule: tree_leaves_SomeE)
    case (leaf enc p bs)
    then show ?thesis using keep by (simp add: tree_leaves_leafI)
  next
    case (index enc p cs lss)
    have "map (tree_leaves C B scope sec S') cs = map Some lss"
      using index(4) verified_index [OF index(2,3)] less.hyps
      by (auto simp: map_eq_Some_nth) (metis lessI nth_mem)
    then show ?thesis using index keep tree_leaves_indexI by blast
  qed
qed

lemma denotes_tree_mono:
  "denotes (tree_leaves C B scope sec S) rs ls \<Longrightarrow> S \<subseteq>\<^sub>m S' \<Longrightarrow> denotes (tree_leaves C B scope sec S') rs ls"
  by (erule denotes_mono) (rule tree_leaves_mono)

section \<open>Properties of pages\<close>

text \<open>C37: Encoding and verifying a page round-trip, and a reference admits no other page. The encoding
  of a page verifies against the reference \<open>encode\<close> returns and gives back the page; and any bytes
  accepted for that reference, under any scope and section, are this page under its own scope and
  section, unless they collide with its encoding under the page hash.\<close>

theorem page_encode_verify:
  assumes "codec_roundtrip C" "page_encode C B p = Ok (r, bs)"
  shows "verify_page C B r (pg_scope p) (pg_section p) bs = Ok p \<and>
    (\<forall>scope sec bytes q. verify_page C B r scope sec bytes = Ok q \<longrightarrow> (page_hash B bytes = page_hash B bs \<longrightarrow> bytes = bs) \<longrightarrow>
      q = p \<and> bytes = bs \<and> scope = pg_scope p \<and> sec = pg_section p)"
  using verify_page_encoded [OF assms] verify_page_unique [OF assms(2,1)] by blast

section \<open>Instances\<close>

text \<open>An encoding of the leaf pages of one scope: a tag byte and the payload. Index pages are refused.\<close>

definition sample_page :: "byte list \<Rightarrow> page" where
  "sample_page bs = \<lparr>pg_format_version = 1, pg_scope = Guild 1, pg_section = Packing, pg_height = 0, pg_body = Leaf bs\<rparr>"

definition sample_page_codec :: "unit page_codec" where
  "sample_page_codec = \<lparr>
     pc_encode = \<lambda>p. case pg_body p of Leaf bs \<Rightarrow> if p = sample_page bs then Inr (7 # bs) else Inl () | Index _ \<Rightarrow> Inl (),
     pc_decode = \<lambda>bs. case bs of [] \<Rightarrow> Inl () | b # bs' \<Rightarrow> if b = 7 then Inr (sample_page bs') else Inl (),
     pc_too_long = ()\<rparr>"

definition sample_ref :: "byte list \<Rightarrow> page_ref" where
  "sample_ref bs = \<lparr>pr_hash = page_hash sample_blake3 (7 # bs), pr_encoded_len = Suc (length bs), pr_height = 0,
     pr_byte_len = length bs, pr_page_occurrences = 1\<rparr>"

lemma sample_roundtrip: "codec_roundtrip sample_page_codec"
  by (auto simp: codec_roundtrip_def sample_page_codec_def split: page_body.splits if_splits)

lemma sample_encode:
  "length bs \<le> 61440 \<Longrightarrow> page_encode sample_page_codec sample_blake3 (sample_page bs) = Ok (sample_ref bs, 7 # bs)"
  by (simp add: page_encode_def page_counts_def scope_validate_def sample_page_def sample_page_codec_def sample_ref_def)

lemma sample_tree_leaves:
  assumes "length bs \<le> 61440" "S (sample_ref bs) = Some (7 # bs)"
  shows "tree_leaves sample_page_codec sample_blake3 (Guild 1) Packing S (sample_ref bs) = Some [bs]"
proof -
  have "verify_page sample_page_codec sample_blake3 (sample_ref bs) (Guild 1) Packing (7 # bs) = Ok (sample_page bs)"
    using verify_page_encoded [OF sample_roundtrip sample_encode [OF assms(1)]] by (simp add: sample_page_def)
  then show ?thesis using assms(2) by (intro tree_leaves_leafI) (auto simp: sample_page_def)
qed

theorem page_encode_verify_witness:
  "verify_page sample_page_codec sample_blake3 (sample_ref [1, 2]) (Guild 1) Packing [7, 1, 2] = Ok (sample_page [1, 2])"
  using page_encode_verify [OF sample_roundtrip sample_encode [of "[1, 2]"]] by (simp add: sample_page_def)

end
