(* ===== verification/Catalog_Reader.thy ===== *)
theory Catalog_Reader
  imports Catalog_Page Fence
begin

text \<open>
  \<open>CatalogReader\<close> of \<open>src/crates/mb-core/src/catalog.rs\<close>: ordered, authenticated traversal of a page
  tree with an explicit stack, a root-to-page path, page and byte accounting and a sticky failure
  flag. The \<open>fetch\<close> callback is an argument with its own state; nothing is assumed about it except
  where a lemma says so.

  The invariant \<open>reader_inv\<close> says that the stack denotes the leaves still to be returned. It gives
  the exact behaviour over an honest store and, over any callback that finds no second preimage of a
  page, that a wrong answer is never returned.
\<close>

section \<open>Operations\<close>

record reader =
  cr_scope :: catalog_scope
  cr_section :: catalog_section
  cr_root :: page_ref
  cr_pending :: "page_ref list"
  cr_path :: "page_ref list"
  cr_visited :: nat
  cr_byte_len :: nat
  cr_failed :: bool

type_synonym ('t, 'e) path_fetch = "page_ref list \<Rightarrow> ('t, 'e, byte list) op"
type_synonym ('t, 'e) page_fetch = "page_ref \<Rightarrow> ('t, 'e, byte list) op"

definition reader_new ::
    "catalog_scope \<Rightarrow> catalog_section \<Rightarrow> page_ref \<Rightarrow> ('m catalog_error, reader) result" where
  "reader_new scope sec root =
     and_then (ref_validate root) (\<lambda>_.
     and_then (scope_validate scope sec) (\<lambda>_.
     Ok \<lparr>cr_scope = scope, cr_section = sec, cr_root = root, cr_pending = [root], cr_path = [],
         cr_visited = 0, cr_byte_len = 0, cr_failed = False\<rparr>))"

definition reader_check_finished :: "reader \<Rightarrow> ('m catalog_error, unit) result" where
  "reader_check_finished self =
     (if cr_visited self \<noteq> pr_page_occurrences (cr_root self) \<or> cr_byte_len self \<noteq> pr_byte_len (cr_root self)
      then Err InvalidPage else Ok ())"

text \<open>The loop of \<open>next_inner\<close>: pop the end of the stack, fetch and verify the page, push the children
  of an index page in reverse.\<close>

function reader_next_inner ::
    "'m page_codec \<Rightarrow> blake3 \<Rightarrow> ('t, 'e) path_fetch \<Rightarrow> (reader \<times> 't, ('m, 'e) stream_error, byte list option) op" where
  "reader_next_inner C B fetch (self, t) =
     (if cr_pending self = []
      then ((self, t), and_then (map_err Catalog (reader_check_finished self)) (\<lambda>_. Ok None))
      else
       (let reference = last (cr_pending self); self1 = self\<lparr>cr_pending := butlast (cr_pending self)\<rparr> in
        case uadd 64 (cr_visited self1) 1 of Inl e \<Rightarrow> ((self1, t), Inl e) | Inr visited \<Rightarrow>
       (let self2 = self1\<lparr>cr_visited := visited\<rparr> in
        if pr_page_occurrences (cr_root self2) < cr_visited self2 then ((self2, t), Err (Catalog Bounds))
        else case checked_sub (pr_height (cr_root self2)) (pr_height reference) of
          None \<Rightarrow> ((self2, t), Err (Catalog InvalidPage))
        | Some depth \<Rightarrow>
       (let self3 = self2\<lparr>cr_path := take depth (cr_path self2)\<rparr> in
        if length (cr_path self3) \<noteq> depth then ((self3, t), Err (Catalog InvalidPage))
        else
       (let self4 = self3\<lparr>cr_path := cr_path self3 @ [reference]\<rparr> in
        case fetch (cr_path self4) t of
          (t', Inl e) \<Rightarrow> ((self4, t'), Inl (map_stop Storage e))
        | (t', Inr bytes) \<Rightarrow>
       (case verify_page C B reference (cr_scope self4) (cr_section self4) bytes of
          Inl e \<Rightarrow> ((self4, t'), Inl (map_stop Catalog e))
        | Inr page \<Rightarrow>
       (case pg_body page of
          Index children \<Rightarrow> reader_next_inner C B fetch (self4\<lparr>cr_pending := cr_pending self4 @ rev children\<rparr>, t')
        | Leaf leaf \<Rightarrow>
       (case uadd 64 (cr_byte_len self4) (length leaf) of Inl e \<Rightarrow> ((self4, t'), Inl e) | Inr byte_len \<Rightarrow>
       (let self5 = self4\<lparr>cr_byte_len := byte_len\<rparr> in
        if pr_byte_len (cr_root self5) < cr_byte_len self5 then ((self5, t'), Err (Catalog Bounds))
        else if cr_pending self5 = []
             then ((self5, t'), and_then (map_err Catalog (reader_check_finished self5)) (\<lambda>_. Ok (Some leaf)))
             else ((self5, t'), Ok (Some leaf)))))))))))"
  by pat_completeness auto
termination
  by (relation "measure (\<lambda>(C, B, fetch, self, t). pr_page_occurrences (cr_root self) - cr_visited self)")
    (auto simp: Let_def)

declare reader_next_inner.simps [simp del]

definition reader_next_leaf_with_path ::
    "'m page_codec \<Rightarrow> blake3 \<Rightarrow> ('t, 'e) path_fetch \<Rightarrow> (reader \<times> 't, ('m, 'e) stream_error, byte list option) op" where
  "reader_next_leaf_with_path C B fetch =
     fenced_call cr_failed (\<lambda>b. cr_failed_update (\<lambda>_. b)) (Catalog Failed) (reader_next_inner C B fetch)"

definition reader_next_leaf ::
    "'m page_codec \<Rightarrow> blake3 \<Rightarrow> ('t, 'e) page_fetch \<Rightarrow> (reader \<times> 't, ('m, 'e) stream_error, byte list option) op" where
  "reader_next_leaf C B fetch =
     reader_next_leaf_with_path C B (\<lambda>path t. if path = [] then (t, panic) else fetch (last path) t)"

interpretation catalog_reader: guarded cr_failed "\<lambda>b. cr_failed_update (\<lambda>_. b)" "Catalog Failed"
    "\<lambda>_ :: unit. reader_next_inner C B fetch" for C B fetch
  by unfold_locales simp

section \<open>Callbacks\<close>

text \<open>A callback serves a store when it returns the stored page of every reference asked for.
  It finds no second preimage when no page it returns has the hash of the stored page of that
  reference without being that page.\<close>

definition serves :: "('t, 'e) path_fetch \<Rightarrow> (page_ref \<Rightarrow> byte list option) \<Rightarrow> bool" where
  "serves fetch S \<longleftrightarrow> (\<forall>path t enc. path \<noteq> [] \<longrightarrow> S (last path) = Some enc \<longrightarrow> (\<exists>t'. fetch path t = (t', Ok enc)))"

definition no_second_preimage :: "blake3 \<Rightarrow> ('t, 'e) path_fetch \<Rightarrow> (page_ref \<Rightarrow> byte list option) \<Rightarrow> bool" where
  "no_second_preimage B fetch S \<longleftrightarrow> (\<forall>path t t' enc b. path \<noteq> [] \<longrightarrow> S (last path) = Some enc \<longrightarrow>
     fetch path t = (t', Ok b) \<longrightarrow> page_hash B b = page_hash B enc \<longrightarrow> b = enc)"

lemma servesD: "serves fetch S \<Longrightarrow> path \<noteq> [] \<Longrightarrow> S (last path) = Some enc \<Longrightarrow> \<exists>t'. fetch path t = (t', Ok enc)"
  unfolding serves_def by blast

lemma serves_no_second_preimage: "serves fetch S \<Longrightarrow> no_second_preimage B fetch S"
  unfolding serves_def no_second_preimage_def by (metis Pair_inject sum.inject(2))

section \<open>Invariant\<close>

definition reader_inv ::
    "'m page_codec \<Rightarrow> blake3 \<Rightarrow> (page_ref \<Rightarrow> byte list option) \<Rightarrow> byte list list \<Rightarrow> reader \<Rightarrow> bool" where
  "reader_inv C B S ls self \<longleftrightarrow>
     (\<exists>lss. map (tree_leaves C B (cr_scope self) (cr_section self) S) (rev (cr_pending self)) = map Some lss
        \<and> ls = concat lss)
   \<and> cr_visited self + sum_list (map pr_page_occurrences (cr_pending self)) = pr_page_occurrences (cr_root self)
   \<and> cr_byte_len self + sum_list (map pr_byte_len (cr_pending self)) = pr_byte_len (cr_root self)
   \<and> pr_page_occurrences (cr_root self) \<le> 1000000 \<and> pr_byte_len (cr_root self) \<le> 17179869184
   \<and> sorted_wrt (\<lambda>a b. pr_height b \<le> pr_height a) (cr_pending self)
   \<and> (\<forall>r \<in> set (cr_pending self). pr_height r \<le> pr_height (cr_root self)
        \<and> pr_height (cr_root self) - pr_height r \<le> length (cr_path self))"

lemma reader_inv_new:
  assumes "reader_new scope sec root = (Ok self :: ('m catalog_error, _) result)"
    "tree_leaves C B scope sec S root = Some ls"
  shows "reader_inv C B S ls self \<and> \<not> cr_failed self"
  using assms by (auto simp: reader_inv_def reader_new_def result_simps ref_validate_iff intro: exI [of _ "[ls]"])

lemma reader_inv_failed [simp]: "reader_inv C B S ls (self\<lparr>cr_failed := b\<rparr>) = reader_inv C B S ls self"
  by (simp add: reader_inv_def)

definition visit :: "page_ref list \<Rightarrow> page_ref \<Rightarrow> reader \<Rightarrow> reader" where
  "visit P r self = self\<lparr>cr_pending := P, cr_visited := Suc (cr_visited self),
     cr_path := take (pr_height (cr_root self) - pr_height r) (cr_path self) @ [r]\<rparr>"

lemma visit_simps [simp]:
  "cr_pending (visit P r self) = P" "cr_visited (visit P r self) = Suc (cr_visited self)"
  "cr_root (visit P r self) = cr_root self" "cr_scope (visit P r self) = cr_scope self"
  "cr_section (visit P r self) = cr_section self" "cr_byte_len (visit P r self) = cr_byte_len self"
  "cr_path (visit P r self) = take (pr_height (cr_root self) - pr_height r) (cr_path self) @ [r]"
  by (simp_all add: visit_def)

text \<open>One iteration, when the accounting and the path allow the visit.\<close>

lemma reader_iteration:
  assumes "cr_pending self = P @ [r]" "Suc (cr_visited self) \<le> pr_page_occurrences (cr_root self)"
    "Suc (cr_visited self) < 2 ^ 64" "pr_height r \<le> pr_height (cr_root self)"
    "pr_height (cr_root self) - pr_height r \<le> length (cr_path self)"
  shows "reader_next_inner C B fetch (self, t) =
    (let self4 = visit P r self in
     case fetch (cr_path self4) t of
       (t', Inl e) \<Rightarrow> ((self4, t'), Inl (map_stop Storage e))
     | (t', Inr bytes) \<Rightarrow>
    (case verify_page C B r (cr_scope self) (cr_section self) bytes of
       Inl e \<Rightarrow> ((self4, t'), Inl (map_stop Catalog e))
     | Inr page \<Rightarrow>
    (case pg_body page of
       Index children \<Rightarrow> reader_next_inner C B fetch (self4\<lparr>cr_pending := P @ rev children\<rparr>, t')
     | Leaf leaf \<Rightarrow>
    (case uadd 64 (cr_byte_len self) (length leaf) of Inl e \<Rightarrow> ((self4, t'), Inl e) | Inr byte_len \<Rightarrow>
    (let self5 = self4\<lparr>cr_byte_len := byte_len\<rparr> in
     if pr_byte_len (cr_root self) < byte_len then ((self5, t'), Err (Catalog Bounds))
     else if P = []
          then ((self5, t'), and_then (map_err Catalog (reader_check_finished self5)) (\<lambda>_. Ok (Some leaf)))
          else ((self5, t'), Ok (Some leaf)))))))"
  using assms
  by (subst reader_next_inner.simps)
    (simp add: Let_def visit_def cong: prod.case_cong sum.case_cong page_body.case_cong if_cong)

lemma reader_inv_SnocE:
  assumes "reader_inv C B S ls self" "cr_pending self = P @ [r]"
  obtains l lss where "tree_leaves C B (cr_scope self) (cr_section self) S r = Some l"
    "map (tree_leaves C B (cr_scope self) (cr_section self) S) (rev P) = map Some lss" "ls = l @ concat lss"
    "Suc (cr_visited self) \<le> pr_page_occurrences (cr_root self)" "pr_page_occurrences (cr_root self) \<le> 1000000"
    "pr_height r \<le> pr_height (cr_root self)" "pr_height (cr_root self) - pr_height r \<le> length (cr_path self)"
    "\<forall>r' \<in> set P. pr_height r \<le> pr_height r'"
proof -
  obtain lss0 where lss: "map (tree_leaves C B (cr_scope self) (cr_section self) S) (rev (P @ [r])) = map Some lss0"
    "ls = concat lss0" using assms(1) unfolding reader_inv_def assms(2) by blast
  then obtain l lss where l: "lss0 = l # lss" "tree_leaves C B (cr_scope self) (cr_section self) S r = Some l"
    "map (tree_leaves C B (cr_scope self) (cr_section self) S) (rev P) = map Some lss" by (cases lss0) auto
  obtain enc p where v: "verify_page C B r (cr_scope self) (cr_section self) enc = Ok p"
    using l(2) by (cases rule: tree_leaves_SomeE) auto
  have "0 < pr_page_occurrences r" using verify_page_OkD(1) [OF v] by (simp add: ref_validate_iff)
  then show thesis using that [OF l(2,3)] lss(2) l(1) assms by (auto simp: reader_inv_def sorted_wrt_append)
qed

lemma reader_inv_leaf:
  assumes inv: "reader_inv C B S ls self" "cr_pending self = P @ [r]"
    and v: "verify_page C B r (cr_scope self) (cr_section self) enc = Ok p" "pg_body p = Leaf leaf" "S r = Some enc"
  shows "ls = leaf # tl ls"
    "reader_inv C B S (tl ls) (visit P r self\<lparr>cr_byte_len := cr_byte_len self + length leaf\<rparr>)"
    "cr_byte_len self + length leaf \<le> pr_byte_len (cr_root self)"
proof -
  obtain l lss where st: "tree_leaves C B (cr_scope self) (cr_section self) S r = Some l"
    "map (tree_leaves C B (cr_scope self) (cr_section self) S) (rev P) = map Some lss" "ls = l @ concat lss"
    using reader_inv_SnocE [OF inv] by metis
  have l: "l = [leaf]" using st(1) tree_leaves_leafI [of S r enc C B "cr_scope self" "cr_section self" p leaf] v by simp
  note geo = verified_leaf [OF v(1,2)]
  show "ls = leaf # tl ls" using st(3) l by simp
  show "reader_inv C B S (tl ls) (visit P r self\<lparr>cr_byte_len := cr_byte_len self + length leaf\<rparr>)"
    using inv geo st l unfolding reader_inv_def by (auto simp: sorted_wrt_append)
  show "cr_byte_len self + length leaf \<le> pr_byte_len (cr_root self)"
    using inv geo unfolding reader_inv_def by auto
qed

lemma reader_inv_index:
  assumes inv: "reader_inv C B S ls self" "cr_pending self = P @ [r]"
    and v: "verify_page C B r (cr_scope self) (cr_section self) enc = Ok p" "pg_body p = Index cs" "S r = Some enc"
  shows "reader_inv C B S ls (visit P r self\<lparr>cr_pending := P @ rev cs\<rparr>)"
proof -
  obtain l lss where st: "tree_leaves C B (cr_scope self) (cr_section self) S r = Some l"
    "map (tree_leaves C B (cr_scope self) (cr_section self) S) (rev P) = map Some lss" "ls = l @ concat lss"
    using reader_inv_SnocE [OF inv] by metis
  obtain kss where k: "map (tree_leaves C B (cr_scope self) (cr_section self) S) cs = map Some kss" "l = concat kss"
    using st(1) by (cases rule: tree_leaves_SomeE) (use v in auto)
  note geo = verified_index [OF v(1,2)]
  have hs: "\<forall>c \<in> set cs. Suc (pr_height c) = pr_height r" using geo by auto
  then have sorted: "sorted_wrt (\<lambda>a b. pr_height b \<le> pr_height a) (rev cs)"
    by (induction cs) (auto simp: sorted_wrt_append)
  have sums: "sum_list (map f (rev cs)) = sum_list (map f cs)" for f :: "page_ref \<Rightarrow> nat"
    by (induction cs) simp_all
  note I = inv(1) [unfolded reader_inv_def inv(2)]
  show ?thesis
    unfolding reader_inv_def
  proof (intro conjI)
    show "\<exists>lss. map (tree_leaves C B (cr_scope (visit P r self\<lparr>cr_pending := P @ rev cs\<rparr>))
        (cr_section (visit P r self\<lparr>cr_pending := P @ rev cs\<rparr>)) S)
        (rev (cr_pending (visit P r self\<lparr>cr_pending := P @ rev cs\<rparr>))) = map Some lss \<and> ls = concat lss"
      using k st by (intro exI [of _ "kss @ lss"]) simp
    show "sorted_wrt (\<lambda>a b. pr_height b \<le> pr_height a) (cr_pending (visit P r self\<lparr>cr_pending := P @ rev cs\<rparr>))"
      using sorted I hs by (fastforce simp: sorted_wrt_append)
    show "\<forall>r' \<in> set (cr_pending (visit P r self\<lparr>cr_pending := P @ rev cs\<rparr>)).
        pr_height r' \<le> pr_height (cr_root (visit P r self\<lparr>cr_pending := P @ rev cs\<rparr>))
        \<and> pr_height (cr_root (visit P r self\<lparr>cr_pending := P @ rev cs\<rparr>)) - pr_height r'
          \<le> length (cr_path (visit P r self\<lparr>cr_pending := P @ rev cs\<rparr>))"
      using I hs by (fastforce simp: sorted_wrt_append)
  qed (use I geo sums in simp_all)
qed

definition reader_outcome ::
    "'m page_codec \<Rightarrow> blake3 \<Rightarrow> ('t, 'e) path_fetch \<Rightarrow> (page_ref \<Rightarrow> byte list option) \<Rightarrow> byte list list
      \<Rightarrow> (reader \<times> 't) \<times> (('m, 'e) stream_error, byte list option) result \<Rightarrow> bool" where
  "reader_outcome C B fetch S ls res \<longleftrightarrow>
     is_err (snd res) \<and> \<not> serves fetch S
     \<or> snd res = Ok (if ls = [] then None else Some (hd ls)) \<and> reader_inv C B S (tl ls) (fst (fst res))"

lemma reader_next_inner_outcome:
  assumes "reader_inv C B S ls self" "no_second_preimage B fetch S"
  shows "reader_outcome C B fetch S ls (reader_next_inner C B fetch (self, t))"
  using assms(1)
proof (induction "pr_page_occurrences (cr_root self) - cr_visited self" arbitrary: self t rule: less_induct)
  case less
  note inv = less.prems
  show ?case
  proof (cases "cr_pending self" rule: rev_cases)
    case Nil
    then show ?thesis using inv by (subst reader_next_inner.simps)
      (auto simp: reader_outcome_def reader_inv_def reader_check_finished_def)
  next
    case (snoc P r)
    obtain l lss where st: "tree_leaves C B (cr_scope self) (cr_section self) S r = Some l"
      and acc: "Suc (cr_visited self) \<le> pr_page_occurrences (cr_root self)" "pr_page_occurrences (cr_root self) \<le> 1000000"
        "pr_height r \<le> pr_height (cr_root self)" "pr_height (cr_root self) - pr_height r \<le> length (cr_path self)"
      using reader_inv_SnocE [OF inv snoc] by metis
    have "Suc (cr_visited self) < 2 ^ 64" using acc(1,2) by simp
    note iter = reader_iteration [OF snoc acc(1) this acc(3,4), of C B fetch t]
    let ?path = "cr_path (visit P r self)"
    obtain enc p where enc: "S r = Some enc" "verify_page C B r (cr_scope self) (cr_section self) enc = Ok p"
      using st by (cases rule: tree_leaves_SomeE) auto
    show ?thesis
    proof (cases "fetch ?path t")
      case (Pair t' res)
      consider (fail) e where "res = Inl e" | (bad) b e where "res = Inr b" "verify_page C B r (cr_scope self) (cr_section self) b = Inl e"
        | (good) b q where "res = Inr b" "verify_page C B r (cr_scope self) (cr_section self) b = Ok q"
        by (metis sum.exhaust)
      then show ?thesis
      proof cases
        case fail
        then have "\<not> serves fetch S" using servesD [of fetch S ?path enc t] Pair enc(1) by auto
        then show ?thesis using fail Pair iter by (simp add: reader_outcome_def Let_def)
      next
        case bad
        then have "\<not> serves fetch S" using servesD [of fetch S ?path enc t] Pair enc by auto
        then show ?thesis using bad Pair iter by (simp add: reader_outcome_def Let_def)
      next
        case good
        have "page_hash B b = page_hash B enc" using verify_page_OkD(3) good(2) enc(2) by metis
        then have b: "b = enc"
          using assms(2) Pair good(1) enc(1) unfolding no_second_preimage_def by (metis last_snoc snoc_eq_iff_butlast visit_simps(7))
        show ?thesis
        proof (cases "pg_body q")
          case (Leaf leaf)
          note n = reader_inv_leaf [OF inv snoc good(2) Leaf enc(1) [folded b]]
          have "cr_byte_len self + length leaf < 2 ^ 64" using n(3) inv by (auto simp: reader_inv_def)
          then show ?thesis
            using iter good Pair Leaf n by (auto simp: reader_outcome_def Let_def reader_inv_def reader_check_finished_def)
        next
          case (Index cs)
          have "reader_outcome C B fetch S ls (reader_next_inner C B fetch (visit P r self\<lparr>cr_pending := P @ rev cs\<rparr>, t'))"
            using acc(1) by (intro less.hyps reader_inv_index [OF inv snoc good(2) Index enc(1) [folded b]]) auto
          then show ?thesis using iter good Pair Index by (simp add: Let_def)
        qed
      qed
    qed
  qed
qed

section \<open>Whole traversals\<close>

interpretation reader_stream: item_stream "reader_next_leaf_with_path C B fetch"
    "\<lambda>ls self. no_second_preimage B fetch S \<and> reader_inv C B S ls self \<and> \<not> cr_failed self" "serves fetch S"
  for C :: "'m page_codec" and B and fetch :: "('t, 'e) path_fetch" and S
proof
  fix ls and s :: "reader \<times> 't"
  assume i: "no_second_preimage B fetch S \<and> reader_inv C B S ls (fst s) \<and> \<not> cr_failed (fst s)"
  let ?res = "reader_next_leaf_with_path C B fetch s"
  obtain self' t' r where inner: "reader_next_inner C B fetch s = ((self', t'), r)" by (metis prod.exhaust)
  have "reader_outcome C B fetch S ls ((self', t'), r)"
    using reader_next_inner_outcome [of C B S ls "fst s" fetch "snd s"] i inner by simp
  moreover have "snd ?res = r" using i inner by (simp add: reader_next_leaf_with_path_def fenced_call_result)
  moreover have "?res = ((self'\<lparr>cr_failed := False\<rparr>, t'), Ok x)" if "r = Ok x" for x
    using i inner that by (simp add: reader_next_leaf_with_path_def fenced_call_Ok)
  ultimately show "is_err (snd ?res) \<and> \<not> serves fetch S
    \<or> snd ?res = Ok (if ls = [] then None else Some (hd ls))
      \<and> no_second_preimage B fetch S \<and> reader_inv C B S (tl ls) (fst (fst ?res)) \<and> \<not> cr_failed (fst (fst ?res))"
    using i by (auto simp: reader_outcome_def)
qed

lemma reader_run_honest:
  assumes "reader_inv C B S ls (fst s)" "\<not> cr_failed (fst s)" "serves fetch S"
  shows "snd (run_ops (\<lambda>_. reader_next_leaf_with_path C B fetch) (replicate n ()) s) = item_results ls n"
  using reader_stream.run_honest [of B fetch S C ls s n "()"] assms serves_no_second_preimage by blast

section \<open>Properties\<close>

text \<open>The reader is exact over an honest store. If a root denotes the leaf payloads \<open>ls\<close> in a page
  store and \<open>fetch\<close> returns the stored pages, then \<open>n\<close> calls of \<open>next_leaf_with_path\<close> on a fresh
  reader return these leaves in order and then \<open>None\<close> forever: no error, no panic, no page skipped
  or repeated, and the page, byte and path accounting never rejects a valid tree.\<close>

theorem reader_exact:
  assumes "tree_leaves C B scope sec S root = Some ls" "serves fetch S"
    "reader_new scope sec root = (Ok self :: ('m catalog_error, _) result)"
  shows "snd (run_ops (\<lambda>_. reader_next_leaf_with_path C B fetch) (replicate n ()) (self, t)) =
    map (\<lambda>l. Ok (Some l)) (take n ls) @ replicate (n - length ls) (Ok None)"
  using reader_inv_new [OF assms(3,1)] reader_run_honest [of C B S ls "(self, t)" fetch n] assms(2)
  by (simp add: item_results_def)

text \<open>C12: A reader over an untrusted callback never returns wrong data. Let a root denote the leaves
  \<open>ls\<close> in the store its author built. Whatever the callback does, as long as it finds no second
  preimage of a page hash, every result up to the first error is the one the author's store gives:
  in particular \<open>None\<close> (end of stream) is returned only after all of \<open>ls\<close>.\<close>

theorem reader_untrusted_fetch:
  assumes "tree_leaves C B scope sec S root = Some ls" "no_second_preimage B fetch S"
    "reader_new scope sec root = (Ok self :: ('m catalog_error, _) result)" "k < n"
    "\<forall>j \<le> k. \<not> is_err (snd (run_ops (\<lambda>_. reader_next_leaf_with_path C B fetch) (replicate n ()) (self, t)) ! j)"
  shows "snd (run_ops (\<lambda>_. reader_next_leaf_with_path C B fetch) (replicate n ()) (self, t)) ! k =
    Ok (if k < length ls then Some (ls ! k) else None)"
  using reader_stream.run_safe [of B fetch S C ls "(self, t)" k n "()"] reader_inv_new [OF assms(3,1)] assms(2,4,5) by simp

text \<open>After the first error the reader is poisoned: every later call is an error, whatever the
  callback would return.\<close>

theorem reader_failure_is_final:
  assumes "j < k" "k < n"
    "snd (run_ops (\<lambda>_. reader_next_leaf_with_path C B fetch) (replicate n ()) s) ! j = Err e"
  shows "\<exists>e'. snd (run_ops (\<lambda>_. reader_next_leaf_with_path C B fetch) (replicate n ()) s) ! k = Err e'"
  using catalog_reader.error_is_final [of j k "replicate n ()" C B fetch s e] assms
  by (simp add: reader_next_leaf_with_path_def)

end
