(* ===== verification/Catalog_Work.thy ===== *)
theory Catalog_Work
  imports Catalog_Reader
begin

text \<open>
  The work of a catalog reader: how often it calls the fetch callback, whatever the callback returns.
\<close>

definition counted :: "('t, 'e) path_fetch \<Rightarrow> ('t \<times> nat, 'e) path_fetch" where
  "counted fetch path = (\<lambda>(t, n). case fetch path t of (t', r) \<Rightarrow> ((t', Suc n), r))"

definition pages_left :: "reader \<Rightarrow> nat" where
  "pages_left self = pr_page_occurrences (cr_root self) - cr_visited self"

lemma counted_eq [simp]: "counted fetch path (t, n) = ((fst (fetch path t), Suc n), snd (fetch path t))"
  by (simp add: counted_def split: prod.splits)

lemma reader_refused:
  assumes "cr_pending self = P @ [r]"
    "\<not> (Suc (cr_visited self) \<le> pr_page_occurrences (cr_root self) \<and> Suc (cr_visited self) < 2 ^ 64
      \<and> pr_height r \<le> pr_height (cr_root self) \<and> pr_height (cr_root self) - pr_height r \<le> length (cr_path self))"
  shows "\<exists>self' e. reader_next_inner C B fetch (self, t) = ((self', t), Inl e) \<and> cr_root self' = cr_root self \<and> cr_visited self \<le> cr_visited self'"
proof (cases "Suc (cr_visited self) < 2 ^ 64")
  case True
  then show ?thesis using assms True by (subst reader_next_inner.simps) (auto simp: Let_def checked_sub_def min_def)
next
  case False
  then show ?thesis using assms(1) by (subst reader_next_inner.simps) (simp add: Let_def uadd_def checked_add_def expect_def)
qed

text \<open>Every fetch uses up one of the pages left, and so does every leaf returned. \<open>w\<close> measures the callback's state.\<close>

lemma reader_next_inner_work:
  fixes w :: "'t \<Rightarrow> nat"
  assumes "\<And>path t. w (fst (fetch path t)) \<le> Suc (w t)"
  shows "reader_next_inner C B fetch (self, t) = ((self', t'), r) \<Longrightarrow>
    cr_root self' = cr_root self \<and> w t' + pages_left self' \<le> w t + pages_left self \<and>
    (\<forall>l. r = Ok (Some l) \<longrightarrow> pages_left self' < pages_left self)"
proof (induction "pages_left self" arbitrary: self t rule: less_induct)
  case less
  show ?case
  proof (cases "cr_pending self" rule: rev_cases)
    case Nil
    then show ?thesis using less.prems by (subst (asm) reader_next_inner.simps) (auto simp: and_then_Ok_iff)
  next
    case (snoc P ref)
    show ?thesis
    proof (cases "Suc (cr_visited self) \<le> pr_page_occurrences (cr_root self) \<and> Suc (cr_visited self) < 2 ^ 64
        \<and> pr_height ref \<le> pr_height (cr_root self) \<and> pr_height (cr_root self) - pr_height ref \<le> length (cr_path self)")
      case False
      then show ?thesis using reader_refused [OF snoc False, of C B fetch t] less.prems by (auto simp: pages_left_def)
    next
      case True
      let ?self = "visit P ref self"
      have left: "pages_left ?self < pages_left self" using True by (auto simp: pages_left_def intro: diff_less_mono2)
      note iter = reader_iteration [OF snoc True [THEN conjunct1] True [THEN conjunct2, THEN conjunct1]
          True [THEN conjunct2, THEN conjunct2, THEN conjunct1] True [THEN conjunct2, THEN conjunct2, THEN conjunct2], of C B fetch t]
      obtain t1 res where f: "fetch (cr_path ?self) t = (t1, res)" by (rule prod.exhaust)
      have w: "w t1 \<le> Suc (w t)" using assms [of "cr_path ?self" t] f by simp
      show ?thesis
      proof (cases "\<exists>bytes page cs. res = Inr bytes \<and> verify_page C B ref (cr_scope self) (cr_section self) bytes = Ok page \<and> pg_body page = Index cs")
        case True
        then obtain cs where "reader_next_inner C B fetch (?self\<lparr>cr_pending := P @ rev cs\<rparr>, t1) = ((self', t'), r)"
          using less.prems iter f by (auto simp: Let_def)
        from less.hyps [OF _ this] left w show ?thesis by (force simp: pages_left_def)
      next
        case False
        then show ?thesis using less.prems iter f left w
          by (cases res) (auto simp: Let_def pages_left_def and_then_Ok_iff split: sum.splits page_body.splits if_splits)
      qed
    qed
  qed
qed

lemma reader_next_inner_progress:
  "reader_next_inner C B fetch (self, t) = ((self', t'), r) \<Longrightarrow>
    cr_root self' = cr_root self \<and> pages_left self' \<le> pages_left self \<and> (\<forall>l. r = Ok (Some l) \<longrightarrow> pages_left self' < pages_left self)"
  using reader_next_inner_work [of "\<lambda>_. 0" fetch C B self t self' t' r] by simp

lemma reader_next_leaf_work:
  assumes "reader_next_leaf_with_path C B (counted fetch) (self, (t, n)) = ((self', (t', n')), r)"
  shows "cr_root self' = cr_root self \<and> n' + pages_left self' \<le> n + pages_left self"
proof -
  obtain self1 t1 n1 r1 where inner: "reader_next_inner C B (counted fetch) (self, (t, n)) = ((self1, (t1, n1)), r1)" by (metis surj_pair)
  have "cr_root self1 = cr_root self \<and> n1 + pages_left self1 \<le> n + pages_left self"
    using reader_next_inner_work [of snd "counted fetch", OF _ inner] by (simp add: counted_def split: prod.splits)
  then show ?thesis using assms
    by (auto simp: reader_next_leaf_with_path_def fenced_call_def inner pages_left_def split: if_splits sum.splits stop.splits)
qed

lemma reader_run_work:
  assumes "run_ops (\<lambda>_. reader_next_leaf_with_path C B (counted fetch)) calls (self, (t, n)) = ((self', (t', n')), rs)"
  shows "n' + pages_left self' \<le> n + pages_left self"
  using assms
proof (induction calls arbitrary: self t n rs)
  case (Cons c calls)
  obtain self1 t1 n1 r1 where step: "reader_next_leaf_with_path C B (counted fetch) (self, (t, n)) = ((self1, (t1, n1)), r1)" by (metis surj_pair)
  have "fst (run_ops (\<lambda>_. reader_next_leaf_with_path C B (counted fetch)) calls (self1, (t1, n1))) = (self', (t', n'))"
    using Cons.prems step run_ops_Cons(1) [of "\<lambda>_. reader_next_leaf_with_path C B (counted fetch)" c calls "(self, (t, n))"] by simp
  then obtain rs1 where "run_ops (\<lambda>_. reader_next_leaf_with_path C B (counted fetch)) calls (self1, (t1, n1)) = ((self', (t', n')), rs1)"
    by (metis prod.collapse)
  then have "n' + pages_left self' \<le> n1 + pages_left self1" by (rule Cons.IH)
  then show ?case using reader_next_leaf_work [OF step] by linarith
qed simp

text \<open>C26: A traversal ends: however often a caller asks for the next leaf, and whatever an adversarial
  callback returns, the reader calls it at most once per page occurrence the root declares, and so at
  most as often as the format's limit on page occurrences.\<close>

theorem reader_bounded_work:
  assumes "reader_new scope sec root = (Ok self :: ('m catalog_error, _) result)"
    "run_ops (\<lambda>_. reader_next_leaf_with_path C B (counted fetch)) calls (self, (t, 0)) = ((self', (t', n)), rs)"
  shows "n \<le> pr_page_occurrences root \<and> pr_page_occurrences root \<le> CATALOG_MAX_PAGE_OCCURRENCES"
proof -
  have "cr_root self = root" "cr_visited self = 0" "ref_validate root = (Ok () :: ('m catalog_error, unit) result)"
    using assms(1) by (auto simp: reader_new_def and_then_Ok_iff)
  then show ?thesis using reader_run_work [OF assms(2)] by (auto simp: pages_left_def ref_validate_iff)
qed

end
