(* ===== verification/Catalog_Builder.thy ===== *)
theory Catalog_Builder
  imports Catalog_Page Fence
begin

text \<open>
  \<open>CatalogBuilder\<close> of \<open>src/crates/mb-core/src/catalog.rs\<close>: a byte stream is cut into full leaves, and
  each level of the page tree keeps fewer than \<open>CATALOG_FANOUT\<close> references. The \<open>sink\<close> callback that
  persists pages is an argument with its own state.

  \<open>builder_inv\<close> says that the references of the levels, highest level first, denote in the page
  store exactly the leaves pushed so far.
\<close>

section \<open>Operations\<close>

record builder =
  cb_scope :: catalog_scope
  cb_section :: catalog_section
  cb_leaf :: "byte list"
  cb_levels :: "page_ref list list"
  cb_byte_len :: nat
  cb_failed :: bool

type_synonym ('t, 'e) page_sink = "page_ref \<Rightarrow> byte list \<Rightarrow> ('t, 'e, unit) op"
type_synonym ('t, 'm, 'e, 'a) builder_op = "(builder \<times> 't, ('m, 'e) stream_error, 'a) op"

definition builder_new :: "catalog_scope \<Rightarrow> catalog_section \<Rightarrow> ('m catalog_error, builder) result" where
  "builder_new scope sec =
     and_then (scope_validate scope sec) (\<lambda>_.
     Ok \<lparr>cb_scope = scope, cb_section = sec, cb_leaf = [], cb_levels = replicate (CATALOG_MAX_HEIGHT + 1) [],
         cb_byte_len = 0, cb_failed = False\<rparr>)"

definition builder_store ::
    "'m page_codec \<Rightarrow> blake3 \<Rightarrow> ('t, 'e) page_sink \<Rightarrow> nat \<Rightarrow> page_body \<Rightarrow> ('t, 'm, 'e, page_ref) builder_op" where
  "builder_store C B sink height body = (\<lambda>(self, t).
     case page_encode C B \<lparr>pg_format_version = 1, pg_scope = cb_scope self, pg_section = cb_section self,
            pg_height = height, pg_body = body\<rparr> of
       Inl e \<Rightarrow> ((self, t), Inl (map_stop Catalog e))
     | Inr (reference, bytes) \<Rightarrow>
         (case sink reference bytes t of
            (t', Inl e) \<Rightarrow> ((self, t'), Inl (map_stop Storage e))
          | (t', Inr _) \<Rightarrow> ((self, t'), Ok reference)))"

lemma builder_store_Ok:
  assumes "builder_store C B sink h body (self, t) = (s', Inr r)"
  obtains bs t' where "s' = (self, t')" "sink r bs t = (t', Inr ())" "pr_height r = h"
    "page_encode C B \<lparr>pg_format_version = 1, pg_scope = cb_scope self, pg_section = cb_section self,
       pg_height = h, pg_body = body\<rparr> = Ok (r, bs)"
proof -
  let ?page = "\<lparr>pg_format_version = 1, pg_scope = cb_scope self, pg_section = cb_section self,
       pg_height = h, pg_body = body\<rparr>"
  obtain r' bs where e: "page_encode C B ?page = Ok (r', bs)"
    using assms by (cases "page_encode C B ?page") (auto simp: builder_store_def)
  obtain t' x where k: "sink r' bs t = (t', x)" by force
  with assms e have "x = Inr ()" "r' = r" "s' = (self, t')" by (auto simp: builder_store_def split: sum.splits)
  with e k that page_encode_OkD(5) [OF e] show thesis by auto
qed

lemma builder_store_height: "builder_store C B sink h body s = (s', Inr r) \<Longrightarrow> pr_height r = h"
  by (cases s) (auto elim: builder_store_Ok)

function builder_append ::
    "'m page_codec \<Rightarrow> blake3 \<Rightarrow> ('t, 'e) page_sink \<Rightarrow> page_ref \<Rightarrow> ('t, 'm, 'e, unit) builder_op" where
  "builder_append C B sink reference (self, t) =
     (let height = pr_height reference in
      case index (cb_levels self) height of Inl e \<Rightarrow> ((self, t), Inl e) | Inr level \<Rightarrow>
     (let self1 = self\<lparr>cb_levels := (cb_levels self)[height := level @ [reference]]\<rparr> in
      if length (level @ [reference]) < CATALOG_FANOUT then ((self1, t), Ok ())
      else if height = CATALOG_MAX_HEIGHT then ((self1, t), Err (Catalog Bounds))
      else
     (let self2 = self1\<lparr>cb_levels := (cb_levels self1)[height := []]\<rparr> in
      case uadd 8 height 1 of Inl e \<Rightarrow> ((self2, t), Inl e) | Inr height' \<Rightarrow>
     (case builder_store C B sink height' (Index (level @ [reference])) (self2, t) of
        (s', Inl e) \<Rightarrow> (s', Inl e)
      | (s', Inr reference') \<Rightarrow> builder_append C B sink reference' s'))))"
  by pat_completeness auto
termination
  by (relation "measure (\<lambda>(C, B, sink, r, s). 256 - pr_height r)") (auto dest!: builder_store_height [OF sym])

declare builder_append.simps [simp del]

definition builder_flush_leaf ::
    "'m page_codec \<Rightarrow> blake3 \<Rightarrow> ('t, 'e) page_sink \<Rightarrow> ('t, 'm, 'e, unit) builder_op" where
  "builder_flush_leaf C B sink = (\<lambda>(self, t).
     op_then (builder_store C B sink 0 (Leaf (cb_leaf self))) (builder_append C B sink) (self\<lparr>cb_leaf := []\<rparr>, t))"

text \<open>\<open>append\<close> only touches the levels, so the leaf is empty after \<open>flush_leaf\<close>.\<close>

lemma builder_append_frame:
  "builder_append C B sink r (self, t) = ((self', t'), x) \<Longrightarrow>
     cb_leaf self' = cb_leaf self \<and> cb_scope self' = cb_scope self \<and> cb_section self' = cb_section self
   \<and> cb_byte_len self' = cb_byte_len self \<and> cb_failed self' = cb_failed self"
proof (induction C B sink r "(self, t)" arbitrary: self t rule: builder_append.induct)
  case (1 C B sink r self t)
  show ?case
  proof (cases "pr_height r < length (cb_levels self) \<and> 128 \<le> Suc (length (cb_levels self ! pr_height r)) \<and> pr_height r \<noteq> 3
      \<and> pr_height r + 1 < 2 ^ 8")
    case False
    then show ?thesis using 1(2)
      by (subst (asm) builder_append.simps) (auto simp: Let_def index_def uadd_def checked_add_def split: if_splits)
  next
    case True
    let ?level = "cb_levels self ! pr_height r"
    let ?self2 = "self\<lparr>cb_levels := (cb_levels self)[pr_height r := []]\<rparr>"
    obtain s1 x1 where st: "builder_store C B sink (pr_height r + 1) (Index (?level @ [r])) (?self2, t) = (s1, x1)"
      by (rule prod.exhaust)
    have eq: "builder_append C B sink r (self, t) = (case x1 of Inl e \<Rightarrow> (s1, Inl e) | Inr r' \<Rightarrow> builder_append C B sink r' s1)"
      using True st by (subst builder_append.simps) (auto simp: Let_def index_def split: sum.splits)
    show ?thesis
    proof (cases x1)
      case (Inl e)
      then have "fst s1 = ?self2" using st by (auto simp: builder_store_def split: sum.splits prod.splits)
      then show ?thesis using eq Inl 1(2) by auto
    next
      case (Inr r')
      obtain bs t1 where s1: "s1 = (?self2, t1)" using st Inr by (metis builder_store_Ok)
      have "builder_append C B sink r' (?self2, t1) = ((self', t'), x)" using eq Inr s1 1(2) by simp
      then have "cb_leaf self' = cb_leaf ?self2 \<and> cb_scope self' = cb_scope ?self2 \<and> cb_section self' = cb_section ?self2
         \<and> cb_byte_len self' = cb_byte_len ?self2 \<and> cb_failed self' = cb_failed ?self2"
        using 1(1) True st Inr s1 by (auto simp: index_def)
      then show ?thesis by simp
    qed
  qed
qed

lemma builder_flush_leaf_frame:
  assumes "builder_flush_leaf C B sink (self, t) = ((self', t'), x)"
  shows "cb_leaf self' = [] \<and> cb_scope self' = cb_scope self \<and> cb_section self' = cb_section self
   \<and> cb_byte_len self' = cb_byte_len self \<and> cb_failed self' = cb_failed self"
proof -
  obtain s1 x1 where st: "builder_store C B sink 0 (Leaf (cb_leaf self)) (self\<lparr>cb_leaf := []\<rparr>, t) = (s1, x1)" by (rule prod.exhaust)
  then have s1: "fst s1 = self\<lparr>cb_leaf := []\<rparr>" by (auto simp: builder_store_def split: sum.splits prod.splits)
  show ?thesis
  proof (cases x1)
    case (Inl e)
    then show ?thesis using assms st s1 by (auto simp: builder_flush_leaf_def op_then_def)
  next
    case (Inr r)
    then have "builder_append C B sink r (self\<lparr>cb_leaf := []\<rparr>, snd s1) = ((self', t'), x)"
      using assms st s1 by (cases s1) (auto simp: builder_flush_leaf_def op_then_def)
    from builder_append_frame [OF this] show ?thesis by simp
  qed
qed

text \<open>The loop of \<open>push_inner\<close>.\<close>

function builder_push_loop ::
    "'m page_codec \<Rightarrow> blake3 \<Rightarrow> ('t, 'e) page_sink \<Rightarrow> byte list \<Rightarrow> ('t, 'm, 'e, unit) builder_op" where
  "builder_push_loop C B sink bytes (self, t) =
     (if bytes = [] then ((self, t), Ok ())
      else case usub CATALOG_LEAF_BYTES (length (cb_leaf self)) of Inl e \<Rightarrow> ((self, t), Inl e) | Inr room \<Rightarrow>
       (let n = min (length bytes) room; self1 = self\<lparr>cb_leaf := cb_leaf self @ take n bytes\<rparr> in
        if length (cb_leaf self1) = CATALOG_LEAF_BYTES
        then (case builder_flush_leaf C B sink (self1, t) of
                (s', Inl e) \<Rightarrow> (s', Inl e)
              | (s', Inr _) \<Rightarrow> builder_push_loop C B sink (drop n bytes) s')
        else builder_push_loop C B sink (drop n bytes) (self1, t)))"
  by pat_completeness auto
termination
proof (relation "measure (\<lambda>(C, B, sink, bytes, s). 2 * length bytes + (if length (cb_leaf (fst s)) = 61440 then 1 else 0))", goal_cases)
  case (2 C B sink bytes self t room n self1 s' x y)
  have "cb_leaf (fst s') = []"
    using 2(6,7) builder_flush_leaf_frame [of C B sink self1 t "fst s'" "snd s'"] by (auto simp: prod_eq_iff)
  moreover have "n \<noteq> 0 \<or> length (cb_leaf self) = 61440" using 2 by (auto simp: min_def)
  ultimately show ?case using 2(1) by (cases bytes) (auto simp: min_def)
next
  case (3 C B sink bytes self t room n self1)
  then have "n = length bytes" by (auto simp: min_def split: if_splits)
  then show ?case using 3 by simp
qed simp

declare builder_push_loop.simps [simp del]

lemma builder_push_loop_short:
  assumes "length (cb_leaf self) + length bytes < 61440"
  shows "builder_push_loop C B sink bytes (self, t) = ((self\<lparr>cb_leaf := cb_leaf self @ bytes\<rparr>, t), Ok ())"
proof (cases "bytes = []")
  case False
  then have "builder_push_loop C B sink bytes (self, t) = builder_push_loop C B sink [] (self\<lparr>cb_leaf := cb_leaf self @ bytes\<rparr>, t)"
    using assms by (subst builder_push_loop.simps) (simp add: Let_def min_absorb1)
  then show ?thesis by (simp add: builder_push_loop.simps [of C B sink "[]"])
qed (simp add: builder_push_loop.simps [of C B sink "[]"])

definition builder_push_inner ::
    "'m page_codec \<Rightarrow> blake3 \<Rightarrow> ('t, 'e) page_sink \<Rightarrow> byte list \<Rightarrow> ('t, 'm, 'e, unit) builder_op" where
  "builder_push_inner C B sink bytes = (\<lambda>(self, t).
     case checked_add 64 (cb_byte_len self) (length bytes) of
       None \<Rightarrow> ((self, t), Err (Catalog Bounds))
     | Some byte_len \<Rightarrow>
         (let self1 = self\<lparr>cb_byte_len := byte_len\<rparr> in
          if CATALOG_MAX_STREAM_BYTES < byte_len then ((self1, t), Err (Catalog Bounds))
          else builder_push_loop C B sink bytes (self1, t)))"

definition builder_push ::
    "'m page_codec \<Rightarrow> blake3 \<Rightarrow> ('t, 'e) page_sink \<Rightarrow> byte list \<Rightarrow> ('t, 'm, 'e, unit) builder_op" where
  "builder_push C B sink bytes =
     fenced_call cb_failed (\<lambda>b. cb_failed_update (\<lambda>_. b)) (Catalog Failed) (builder_push_inner C B sink bytes)"

interpretation catalog_builder: guarded cb_failed "\<lambda>b. cb_failed_update (\<lambda>_. b)" "Catalog Failed"
    "builder_push_inner C B sink" for C B sink
  by unfold_locales simp

text \<open>The loop of \<open>finish\<close> over the heights. A reference is returned only when it is alone.\<close>

fun builder_finish_loop ::
    "'m page_codec \<Rightarrow> blake3 \<Rightarrow> ('t, 'e) page_sink \<Rightarrow> nat list \<Rightarrow> ('t, 'm, 'e, page_ref) builder_op" where
  "builder_finish_loop C B sink [] s = (s, Err (Catalog InvalidPage))"
| "builder_finish_loop C B sink (height # heights) (self, t) =
     (case index (cb_levels self) height of Inl e \<Rightarrow> ((self, t), Inl e) | Inr level \<Rightarrow>
      if level = [] then builder_finish_loop C B sink heights (self, t)
      else if length level = 1 \<and> (\<forall>l \<in> set (drop (height + 1) (cb_levels self)). l = []) then ((self, t), Ok (hd level))
      else if height = CATALOG_MAX_HEIGHT then ((self, t), Err (Catalog Bounds))
      else op_then
             (op_then
               (op_then (op_update (\<lambda>(self, t). (self\<lparr>cb_levels := (cb_levels self)[height := []]\<rparr>, t)))
                  (\<lambda>_. builder_store C B sink (height + 1) (Index level)))
               (builder_append C B sink))
             (\<lambda>_. builder_finish_loop C B sink heights) (self, t))"

definition builder_finish ::
    "'m page_codec \<Rightarrow> blake3 \<Rightarrow> ('t, 'e) page_sink \<Rightarrow> ('t, 'm, 'e, page_ref) builder_op" where
  "builder_finish C B sink = (\<lambda>(self, t).
     if cb_failed self then ((self, t), Err (Catalog Failed))
     else op_then (if cb_leaf self \<noteq> [] \<or> cb_byte_len self = 0 then builder_flush_leaf C B sink else op_result (Ok ()))
            (\<lambda>_. builder_finish_loop C B sink [0..<CATALOG_MAX_HEIGHT + 1]) (self, t))"

section \<open>Stores\<close>

text \<open>What a caller's page store promises: an accepted page is found under its reference, and
  accepting a page never changes the pages found before.\<close>

definition lawful_sink :: "('t, 'e) page_sink \<Rightarrow> ('t \<Rightarrow> page_ref \<Rightarrow> byte list option) \<Rightarrow> bool" where
  "lawful_sink sink lookup \<longleftrightarrow> (\<forall>r bs t t'. sink r bs t = (t', Ok ()) \<longrightarrow>
     lookup t' r = Some bs \<and> lookup t \<subseteq>\<^sub>m lookup t')"

lemma lawful_sinkD:
  "lawful_sink sink lookup \<Longrightarrow> sink r bs t = (t', Ok ()) \<Longrightarrow> lookup t' r = Some bs \<and> lookup t \<subseteq>\<^sub>m lookup t'"
  by (auto simp: lawful_sink_def)

section \<open>Invariant\<close>

text \<open>Every reference of level \<open>h\<close> has height \<open>h\<close>.\<close>

definition level_heights :: "page_ref list list \<Rightarrow> bool" where
  "level_heights levels \<longleftrightarrow> (\<forall>h < length levels. \<forall>r \<in> set (levels ! h). pr_height r = h)"

lemma level_heights_update:
  assumes "level_heights levels" "\<And>r. r \<in> set l \<Longrightarrow> pr_height r = h"
  shows "level_heights (levels[h := l])"
  unfolding level_heights_def
proof (intro allI impI ballI)
  fix k r
  assume "k < length (levels[h := l])" "r \<in> set (levels[h := l] ! k)"
  then show "pr_height r = k"
    using assms(2) [of r] assms(1) [unfolded level_heights_def, rule_format, of k r] by (cases "k = h") auto
qed

lemma level_heightsD: "level_heights levels \<Longrightarrow> h < length levels \<Longrightarrow> r \<in> set (levels ! h) \<Longrightarrow> pr_height r = h"
  unfolding level_heights_def by blast

text \<open>\<open>forest_ok\<close>: the references of the levels, highest level first, denote the leaves \<open>ls\<close>.\<close>

definition forest_ok ::
    "'m page_codec \<Rightarrow> blake3 \<Rightarrow> (page_ref \<Rightarrow> byte list option) \<Rightarrow> builder \<Rightarrow> byte list list \<Rightarrow> bool" where
  "forest_ok C B S self ls \<longleftrightarrow>
     length (cb_levels self) = 4
   \<and> level_heights (cb_levels self)
   \<and> denotes (tree_leaves C B (cb_scope self) (cb_section self) S) (concat (rev (cb_levels self))) ls"

lemma forest_ok_mono: "forest_ok C B S self ls \<Longrightarrow> S \<subseteq>\<^sub>m S' \<Longrightarrow> forest_ok C B S' self ls"
  unfolding forest_ok_def by (blast intro: denotes_tree_mono)

lemma levels_split:
  assumes "length levels = 4" "h < 4" "\<forall>i < h. levels ! i = []"
  shows "concat (rev levels) = concat (rev (drop (Suc h) levels)) @ levels ! h"
proof -
  have "levels = take h levels @ levels ! h # drop (Suc h) levels" using assms by (simp add: id_take_nth_drop)
  moreover have "concat (rev (take h levels)) = []"
    using assms by (auto simp: in_set_conv_nth)
  ultimately show ?thesis by (metis append_Nil2 concat.simps concat_append rev.simps(2) rev_append append_assoc)
qed

lemma builder_store_denotes:
  assumes C: "codec_roundtrip C" and sink: "lawful_sink sink lookup"
    and st: "builder_store C B sink h body (self, t) = (s', Inr r)"
  obtains t' bs p where "s' = (self, t')" "lookup t \<subseteq>\<^sub>m lookup t'" "pr_height r = h" "lookup t' r = Some bs"
    "verify_page C B r (cb_scope self) (cb_section self) bs = Ok p" "pg_body p = body"
proof -
  obtain bs t' where s: "s' = (self, t')" "sink r bs t = (t', Inr ())" "pr_height r = h"
    "page_encode C B \<lparr>pg_format_version = 1, pg_scope = cb_scope self, pg_section = cb_section self,
       pg_height = h, pg_body = body\<rparr> = Ok (r, bs)"
    using st by (rule builder_store_Ok)
  from that [OF s(1) _ s(3)] lawful_sinkD [OF sink s(2)] verify_page_encoded [OF C s(4)] show thesis by simp
qed

lemma builder_append_OkE:
  assumes "builder_append C B sink r (self, t) = (s', Ok ())"
  obtains (room) "pr_height r < length (cb_levels self)"
      "s' = (self\<lparr>cb_levels := (cb_levels self)[pr_height r := cb_levels self ! pr_height r @ [r]]\<rparr>, t)"
  | (full) s1 r' where "pr_height r < length (cb_levels self)" "pr_height r \<noteq> 3"
      "builder_store C B sink (Suc (pr_height r)) (Index (cb_levels self ! pr_height r @ [r]))
         (self\<lparr>cb_levels := (cb_levels self)[pr_height r := []]\<rparr>, t) = (s1, Inr r')"
      "builder_append C B sink r' s1 = (s', Ok ())"
proof -
  let ?h = "pr_height r"
  have h: "?h < length (cb_levels self)" "\<not> Suc (length (cb_levels self ! ?h)) < 128 \<longrightarrow> ?h \<noteq> 3 \<and> ?h + 1 < 2 ^ 8"
    using assms by (subst (asm) builder_append.simps; auto simp: Let_def index_def uadd_def checked_add_def split: if_splits)+
  show thesis
  proof (cases "Suc (length (cb_levels self ! ?h)) < 128")
    case True
    then show ?thesis using room assms h(1) by (subst (asm) builder_append.simps) (simp add: Let_def index_def)
  next
    case False
    then have h3: "?h \<noteq> 3" "?h + 1 < 2 ^ 8" using h(2) by auto
    obtain s1 x1 where st: "builder_store C B sink (Suc ?h) (Index (cb_levels self ! ?h @ [r]))
         (self\<lparr>cb_levels := (cb_levels self)[?h := []]\<rparr>, t) = (s1, x1)" by (rule prod.exhaust)
    then have "(case x1 of Inl e \<Rightarrow> (s1, Inl e) | Inr r' \<Rightarrow> builder_append C B sink r' s1) = (s', Ok ())"
      using assms h(1) h3 False by (subst (asm) builder_append.simps) (simp add: Let_def index_def)
    then show ?thesis using full [OF h(1) h3(1)] st by (cases x1) auto
  qed
qed

lemma tree_leaves_stored_index:
  assumes "lookup r = Some bs" "verify_page C B r scope sec bs = Ok p" "pg_body p = Index cs"
    "denotes (tree_leaves C B scope sec lookup) cs ls"
  shows "tree_leaves C B scope sec lookup r = Some ls"
  using assms tree_leaves_indexI unfolding denotes_def by blast

text \<open>Turning level \<open>h\<close>, extended by further references, into one page of height \<open>h + 1\<close>.\<close>

lemma builder_collapse:
  assumes C: "codec_roundtrip C" and sink: "lawful_sink sink lookup"
    and st: "builder_store C B sink (Suc h) (Index (cb_levels self ! h @ extra))
      (self\<lparr>cb_levels := (cb_levels self)[h := []]\<rparr>, t) = (s1, Inr q)"
    and forest: "forest_ok C B (lookup t) self ls" and low: "\<forall>i < h. cb_levels self ! i = []" and h: "h < 4"
    and extra: "denotes (tree_leaves C B (cb_scope self) (cb_section self) (lookup t)) extra l"
  obtains t1 a b where "s1 = (self\<lparr>cb_levels := (cb_levels self)[h := []]\<rparr>, t1)" "lookup t \<subseteq>\<^sub>m lookup t1"
    "pr_height q = Suc h" "forest_ok C B (lookup t1) (self\<lparr>cb_levels := (cb_levels self)[h := []]\<rparr>) a"
    "tree_leaves C B (cb_scope self) (cb_section self) (lookup t1) q = Some (b @ l)" "ls = a @ b"
    "\<forall>i < Suc h. cb_levels (self\<lparr>cb_levels := (cb_levels self)[h := []]\<rparr>) ! i = []"
proof -
  let ?self1 = "self\<lparr>cb_levels := (cb_levels self)[h := []]\<rparr>"
  let ?L = "\<lambda>t. tree_leaves C B (cb_scope self) (cb_section self) (lookup t)"
  have f: "length (cb_levels self) = 4" "level_heights (cb_levels self)" "denotes (?L t) (concat (rev (cb_levels self))) ls"
    using forest by (auto simp: forest_ok_def)
  obtain t1 bs p where s1: "s1 = (?self1, t1)" "lookup t \<subseteq>\<^sub>m lookup t1" "pr_height q = Suc h" "lookup t1 q = Some bs"
    "verify_page C B q (cb_scope ?self1) (cb_section ?self1) bs = Ok p" "pg_body p = Index (cb_levels self ! h @ extra)"
    by (rule builder_store_denotes [OF C sink st])
  obtain a b where ab: "denotes (?L t) (concat (rev (drop (Suc h) (cb_levels self)))) a"
    "denotes (?L t) (cb_levels self ! h) b" "ls = a @ b"
    using f(3) levels_split [OF f(1) h low] by (auto simp: denotes_append)
  have low1: "\<forall>i < Suc h. cb_levels ?self1 ! i = []" using low f(1) h by (auto simp: less_Suc_eq nth_list_update)
  have "concat (rev (cb_levels ?self1)) = concat (rev (drop (Suc h) (cb_levels self)))"
    using levels_split [of "cb_levels ?self1" h] f(1) h low by simp
  then have "forest_ok C B (lookup t1) ?self1 a"
    using f(1) denotes_tree_mono [OF ab(1) s1(2)] level_heights_update [OF f(2), of "[]" h]
    by (simp add: forest_ok_def)
  moreover have "denotes (?L t1) (cb_levels self ! h @ extra) (b @ l)"
    using denotes_tree_mono [OF ab(2) s1(2)] denotes_tree_mono [OF extra s1(2)]
    by (auto simp: denotes_append)
  then have "?L t1 q = Some (b @ l)"
    using tree_leaves_stored_index [where lookup = "lookup t1", OF s1(4-6)] by simp
  ultimately show thesis using that [OF s1(1-3)] ab(3) low1 by blast
qed

lemma builder_append_denotes:
  assumes C: "codec_roundtrip C" and sink: "lawful_sink sink lookup"
    and run: "builder_append C B sink r (self, t) = ((self', t'), Ok ())"
    and forest: "forest_ok C B (lookup t) self ls"
    and ref: "tree_leaves C B (cb_scope self) (cb_section self) (lookup t) r = Some l"
    and low: "\<forall>i < pr_height r. cb_levels self ! i = []"
  shows "forest_ok C B (lookup t') self' (ls @ l) \<and> lookup t \<subseteq>\<^sub>m lookup t'
    \<and> (\<forall>i < pr_height r. cb_levels self' ! i = [])"
  using run forest ref low
proof (induction "4 - pr_height r" arbitrary: r self t ls l rule: less_induct)
  case less
  let ?h = "pr_height r" and ?L = "\<lambda>S. tree_leaves C B (cb_scope self) (cb_section self) S"
  from less.prems(2) have f: "length (cb_levels self) = 4" "level_heights (cb_levels self)"
    "denotes (?L (lookup t)) (concat (rev (cb_levels self))) ls" by (auto simp: forest_ok_def)
  from less.prems(1) show ?case
  proof (cases rule: builder_append_OkE)
    case room
    then have h: "?h < 4" using f(1) by simp
    let ?levels = "(cb_levels self)[?h := cb_levels self ! ?h @ [r]]"
    have "concat (rev ?levels) = concat (rev (cb_levels self)) @ [r]"
      using levels_split [of ?levels ?h] levels_split [of "cb_levels self" ?h] f(1) h less.prems(4) by simp
    then have "denotes (?L (lookup t)) (concat (rev ?levels)) (ls @ l)"
      using f(3) less.prems(3) by (auto simp: denotes_append)
    moreover have "level_heights ?levels"
      using f(1,2) h level_heightsD [OF f(2), of ?h] by (intro level_heights_update) auto
    ultimately show ?thesis using room f(1) less.prems(4) by (simp add: forest_ok_def)
  next
    case (full s1 r')
    then have h: "?h < 3" using f(1) by simp
    let ?self2 = "self\<lparr>cb_levels := (cb_levels self)[?h := []]\<rparr>"
    obtain t1 a b where c: "s1 = (?self2, t1)" "lookup t \<subseteq>\<^sub>m lookup t1" "pr_height r' = Suc ?h"
      "forest_ok C B (lookup t1) ?self2 a" "?L (lookup t1) r' = Some (b @ l)" "ls = a @ b"
      "\<forall>i < Suc ?h. cb_levels ?self2 ! i = []"
      using builder_collapse [OF C sink full(3) less.prems(2,4), of l] h less.prems(3) by auto
    have "forest_ok C B (lookup t') self' (a @ b @ l) \<and> lookup t1 \<subseteq>\<^sub>m lookup t'
        \<and> (\<forall>i < pr_height r'. cb_levels self' ! i = [])"
      using less.hyps [of r' ?self2 t1 a "b @ l"] full(4) c h by simp
    then show ?thesis using c(2,3,6) by (auto intro: map_le_trans)
  qed
qed

lemma builder_flush_leaf_denotes:
  assumes C: "codec_roundtrip C" and sink: "lawful_sink sink lookup"
    and run: "builder_flush_leaf C B sink (self, t) = ((self', t'), Ok ())"
    and forest: "forest_ok C B (lookup t) self ls"
  shows "forest_ok C B (lookup t') self' (ls @ [cb_leaf self]) \<and> lookup t \<subseteq>\<^sub>m lookup t'"
proof -
  let ?self1 = "self\<lparr>cb_leaf := []\<rparr>"
  obtain s1 r where st: "builder_store C B sink 0 (Leaf (cb_leaf self)) (?self1, t) = (s1, Inr r)"
    and ap: "builder_append C B sink r s1 = ((self', t'), Ok ())"
    using run by (auto simp: builder_flush_leaf_def op_then_Inr)
  obtain t1 bs p where s1: "s1 = (?self1, t1)" "lookup t \<subseteq>\<^sub>m lookup t1" "pr_height r = 0" "lookup t1 r = Some bs"
    "verify_page C B r (cb_scope ?self1) (cb_section ?self1) bs = Ok p" "pg_body p = Leaf (cb_leaf self)"
    by (rule builder_store_denotes [OF C sink st])
  have "forest_ok C B (lookup t1) ?self1 ls"
    using forest_ok_mono [OF forest s1(2)] by (simp add: forest_ok_def)
  from builder_append_denotes [OF C sink ap [unfolded s1(1)] this tree_leaves_leafI [where S = "lookup t1", OF s1(4-6)]] s1(2,3)
  show ?thesis by (auto intro: map_le_trans)
qed

text \<open>The bytes accepted so far: full leaves in the store, then the partial leaf.\<close>

definition builder_data ::
    "'m page_codec \<Rightarrow> blake3 \<Rightarrow> (page_ref \<Rightarrow> byte list option) \<Rightarrow> builder \<Rightarrow> byte list \<Rightarrow> bool" where
  "builder_data C B S self data \<longleftrightarrow> (\<exists>ls. forest_ok C B S self ls \<and> (\<forall>l \<in> set ls. length l = 61440)
     \<and> data = concat ls @ cb_leaf self) \<and> length (cb_leaf self) < 61440"

lemma builder_data_frame:
  "builder_data C B S (self\<lparr>cb_byte_len := n, cb_failed := b\<rparr>) data = builder_data C B S self data"
  "builder_data C B S (self\<lparr>cb_byte_len := n\<rparr>) data = builder_data C B S self data"
  "builder_data C B S (self\<lparr>cb_failed := b\<rparr>) data = builder_data C B S self data"
  by (simp_all add: builder_data_def forest_ok_def)

lemma builder_push_loop_data:
  assumes C: "codec_roundtrip C" and sink: "lawful_sink sink lookup"
    and run: "builder_push_loop C B sink bytes (self, t) = ((self', t'), Ok ())"
    and data: "builder_data C B (lookup t) self data"
  shows "builder_data C B (lookup t') self' (data @ bytes) \<and> lookup t \<subseteq>\<^sub>m lookup t'
    \<and> cb_scope self' = cb_scope self \<and> cb_section self' = cb_section self
    \<and> cb_byte_len self' = cb_byte_len self \<and> cb_failed self' = cb_failed self"
  using run data
proof (induction "length bytes" arbitrary: bytes self t data rule: less_induct)
  case less
  obtain ls where ls: "forest_ok C B (lookup t) self ls" "\<forall>l \<in> set ls. length l = 61440" "data = concat ls @ cb_leaf self"
    and room: "length (cb_leaf self) < 61440" using less.prems(2) by (auto simp: builder_data_def)
  show ?case
  proof (cases "bytes = []")
    case True
    then show ?thesis using less.prems by (simp add: builder_push_loop.simps [of C B sink "[]"])
  next
    case False
    let ?n = "min (length bytes) (61440 - length (cb_leaf self))"
    let ?self1 = "self\<lparr>cb_leaf := cb_leaf self @ take ?n bytes\<rparr>"
    have shorter: "length (drop ?n bytes) < length bytes" using False room by (cases bytes) auto
    have forest1: "forest_ok C B (lookup t) ?self1 ls" using ls(1) by (simp add: forest_ok_def)
    show ?thesis
    proof (cases "length (cb_leaf ?self1) = 61440")
      case True
      obtain self2 t2 x2 where fl: "builder_flush_leaf C B sink (?self1, t) = ((self2, t2), x2)" by (metis surj_pair)
      have "61440 - length (cb_leaf self) \<le> length bytes" using True room by (simp add: min_def split: if_splits)
      then have "(case x2 of Inl e \<Rightarrow> ((self2, t2), Inl e) | Inr _ \<Rightarrow> builder_push_loop C B sink (drop ?n bytes) (self2, t2))
        = ((self', t'), Ok ())"
        using less.prems(1) False True room fl
        by (subst (asm) builder_push_loop.simps) (simp add: Let_def min_absorb2 cong: sum.case_cong)
      then have ok: "x2 = Ok ()" and rest: "builder_push_loop C B sink (drop ?n bytes) (self2, t2) = ((self', t'), Ok ())"
        by (auto split: sum.splits)
      note d = builder_flush_leaf_denotes [OF C sink fl [unfolded ok] forest1] and f = builder_flush_leaf_frame [OF fl]
      have "builder_data C B (lookup t2) self2 (data @ take ?n bytes)"
        unfolding builder_data_def using d f ls True
        by (intro conjI exI [of _ "ls @ [cb_leaf ?self1]"]) auto
      from less.hyps [OF shorter rest this] d f show ?thesis by (auto intro: map_le_trans)
    next
      case False
      then have "length bytes \<le> 61440 - length (cb_leaf self)" "length (cb_leaf self) + length bytes \<noteq> 61440"
        using room by (auto simp: min_def split: if_splits)
      then have "builder_push_loop C B sink (drop ?n bytes) (?self1, t) = ((self', t'), Ok ())"
        using less.prems(1) \<open>bytes \<noteq> []\<close> room
        by (subst (asm) builder_push_loop.simps) (simp add: Let_def min_absorb1)
      moreover have "builder_data C B (lookup t) ?self1 (data @ take ?n bytes)"
        unfolding builder_data_def using forest1 ls room False by (intro conjI exI [of _ ls]) auto
      ultimately show ?thesis using less.hyps [OF shorter] by fastforce
    qed
  qed
qed

lemma builder_push_Ok:
  assumes C: "codec_roundtrip C" and sink: "lawful_sink sink lookup"
    and run: "builder_push C B sink bytes (self, t) = ((self', t'), Ok ())"
    and data: "builder_data C B (lookup t) self data" "cb_byte_len self = length data"
  shows "builder_data C B (lookup t') self' (data @ bytes) \<and> cb_byte_len self' = length (data @ bytes)
    \<and> lookup t \<subseteq>\<^sub>m lookup t' \<and> \<not> cb_failed self'
    \<and> cb_scope self' = cb_scope self \<and> cb_section self' = cb_section self"
proof -
  let ?self1 = "self\<lparr>cb_byte_len := cb_byte_len self + length bytes\<rparr>"
  have nf: "\<not> cb_failed self" using run by (auto simp: builder_push_def fenced_call_def split: if_splits)
  obtain self2 t2 where inner: "builder_push_inner C B sink bytes (self, t) = ((self2, t2), Ok ())"
    "self' = self2\<lparr>cb_failed := False\<rparr>" "t' = t2"
    using run nf by (auto simp: builder_push_def fenced_call_def split: prod.splits sum.splits stop.splits)
  have "builder_push_loop C B sink bytes (?self1, t) = ((self2, t2), Ok ())"
    using inner(1) by (auto simp: builder_push_inner_def Let_def split: option.splits if_splits)
  from builder_push_loop_data [OF C sink this, of data] data inner(2,3) show ?thesis
    by (auto simp: builder_data_frame)
qed

lemma builder_pushes_Ok:
  assumes C: "codec_roundtrip C" and sink: "lawful_sink sink lookup"
    and run: "run_ops (builder_push C B sink) parts (self, t) = ((self', t'), rs)" "\<forall>r \<in> set rs. r = Ok ()"
    and data: "builder_data C B (lookup t) self data" "cb_byte_len self = length data" "\<not> cb_failed self"
  shows "builder_data C B (lookup t') self' (data @ concat parts) \<and> cb_byte_len self' = length (data @ concat parts)
    \<and> \<not> cb_failed self' \<and> cb_scope self' = cb_scope self \<and> cb_section self' = cb_section self"
  using run data
proof (induction parts arbitrary: self t data rs)
  case (Cons c parts)
  obtain self1 t1 x where p: "builder_push C B sink c (self, t) = ((self1, t1), x)" by (metis surj_pair)
  obtain rs' where rest: "run_ops (builder_push C B sink) parts (self1, t1) = ((self', t'), rs')" "rs = x # rs'"
    using Cons.prems(1) p by (auto simp: run_ops.simps split: prod.splits)
  have "x = Ok ()" using Cons.prems(2) rest(2) by simp
  note d = builder_push_Ok [OF C sink p [unfolded this] Cons.prems(3,4)]
  have "\<forall>r \<in> set rs'. r = Ok ()" using Cons.prems(2) rest(2) by simp
  with Cons.IH [OF rest(1) this, of "data @ c"] d show ?case by simp
qed simp

lemma builder_finish_loop_denotes:
  assumes C: "codec_roundtrip C" and sink: "lawful_sink sink lookup"
    and run: "builder_finish_loop C B sink [h..<4] (self, t) = ((self', t'), Ok r)"
    and forest: "forest_ok C B (lookup t) self ls" and low: "\<forall>i < h. i < 4 \<longrightarrow> cb_levels self ! i = []"
  shows "tree_leaves C B (cb_scope self) (cb_section self) (lookup t') r = Some ls"
  using run forest low
proof (induction "4 - h" arbitrary: h self t)
  case 0
  then show ?case by simp
next
  case (Suc n)
  let ?level = "cb_levels self ! h"
  have h: "h < 4" "[h..<4] = h # [Suc h..<4]" using Suc.hyps(2) by (auto simp: upt_conv_Cons)
  have len: "length (cb_levels self) = 4" "level_heights (cb_levels self)"
    "denotes (tree_leaves C B (cb_scope self) (cb_section self) (lookup t)) (concat (rev (cb_levels self))) ls"
    using Suc.prems(2) by (auto simp: forest_ok_def)
  have low: "\<forall>i < h. cb_levels self ! i = []" using Suc.prems(3) h(1) by auto
  note split = levels_split [OF len(1) h(1) low]
  show ?case
  proof (cases "?level = []")
    case True
    then have "builder_finish_loop C B sink [Suc h..<4] (self, t) = ((self', t'), Ok r)"
      using Suc.prems(1) h len(1) by (simp add: index_def)
    then show ?thesis using Suc.hyps(1) [of "Suc h" self t] Suc.hyps(2) Suc.prems(2) low True
      by (auto simp: less_Suc_eq)
  next
    case False
    note nonempty = this
    show ?thesis
    proof (cases "length ?level = 1 \<and> (\<forall>l \<in> set (drop (h + 1) (cb_levels self)). l = [])")
      case True
      then have "?level = [r]" "t' = t" using Suc.prems(1) h len(1) False
        by (auto simp: index_def length_Suc_conv)
      moreover have "concat (rev (drop (Suc h) (cb_levels self))) = []" using True by simp
      ultimately have "concat (rev (cb_levels self)) = [r]" using split by (simp only: append_Nil)
      then show ?thesis using len(3) \<open>t' = t\<close> by simp
    next
      case False
      let ?self1 = "self\<lparr>cb_levels := (cb_levels self)[h := []]\<rparr>"
      have go: "op_then (op_then (op_then (op_update (\<lambda>(self, t). (self\<lparr>cb_levels := (cb_levels self)[h := []]\<rparr>, t)))
                  (\<lambda>_. builder_store C B sink (h + 1) (Index ?level))) (builder_append C B sink))
             (\<lambda>_. builder_finish_loop C B sink [Suc h..<4]) (self, t) = ((self', t'), Ok r)" and h3: "h \<noteq> 3"
        using Suc.prems(1) h len(1) False nonempty by (auto simp: index_def split: if_splits)
      then obtain s1 q s2 where st: "builder_store C B sink (Suc h) (Index ?level) (?self1, t) = (s1, Inr q)"
        "builder_append C B sink q s1 = (s2, Ok ())" "builder_finish_loop C B sink [Suc h..<4] s2 = ((self', t'), Ok r)"
        by (auto simp: op_then_Inr op_update_def)
      have st1: "builder_store C B sink (Suc h) (Index (?level @ [])) (?self1, t) = (s1, Inr q)"
        "denotes (tree_leaves C B (cb_scope self) (cb_section self) (lookup t)) [] []" using st(1) by simp_all
      obtain t1 a b where c: "s1 = (?self1, t1)" "lookup t \<subseteq>\<^sub>m lookup t1" "pr_height q = Suc h"
        "forest_ok C B (lookup t1) ?self1 a" "tree_leaves C B (cb_scope self) (cb_section self) (lookup t1) q = Some (b @ [])"
        "ls = a @ b" "\<forall>i < Suc h. cb_levels ?self1 ! i = []"
        by (rule builder_collapse [OF C sink st1(1) Suc.prems(2) low h(1) st1(2)])
      obtain self2 t2 where s2: "s2 = (self2, t2)" by (rule prod.exhaust)
      have ap: "forest_ok C B (lookup t2) self2 (a @ b)" "\<forall>i < Suc h. cb_levels self2 ! i = []"
        using builder_append_denotes [OF C sink st(2) [unfolded c(1) s2] c(4), of b] c by auto
      have "cb_scope self2 = cb_scope self" "cb_section self2 = cb_section self"
        using builder_append_frame [OF st(2) [unfolded c(1) s2]] by auto
      then show ?thesis
        using Suc.hyps(1) [of "Suc h" self2 t2] Suc.hyps(2) st(3) s2 ap c(6) by simp
    qed
  qed
qed

section \<open>Whole runs\<close>

lemma builder_new_data:
  assumes "builder_new scope sec = (Ok self :: ('m catalog_error, _) result)"
  shows "builder_data C B S self [] \<and> cb_byte_len self = 0 \<and> \<not> cb_failed self
    \<and> cb_scope self = scope \<and> cb_section self = sec"
  using assms
  by (auto simp: builder_new_def result_simps builder_data_def forest_ok_def level_heights_def intro!: exI [of _ "[]"])

text \<open>What the builder writes is the stream it was given, whatever the sizes of the individual pushes.\<close>

lemma builder_denotes:
  assumes C: "codec_roundtrip C" and sink: "lawful_sink sink lookup"
    and new: "builder_new scope sec = (Ok self0 :: ('m catalog_error, _) result)"
    and pushes: "run_ops (builder_push C B sink) parts (self0, t0) = (s1, rs)" "\<forall>r \<in> set rs. r = Ok ()"
    and fin: "builder_finish C B sink s1 = ((self', t'), Ok root)"
  shows "tree_leaves C B scope sec (lookup t') root =
    Some (if concat parts = [] then [[]] else chunks 61440 (concat parts))"
proof -
  obtain self1 t1 where s1: "s1 = (self1, t1)" by (rule prod.exhaust)
  have d: "builder_data C B (lookup t1) self1 (concat parts)" "cb_byte_len self1 = length (concat parts)"
    "\<not> cb_failed self1" "cb_scope self1 = scope" "cb_section self1 = sec"
    using builder_pushes_Ok [OF C sink pushes(1) [unfolded s1] pushes(2), of "[]"] builder_new_data [OF new, of C B "lookup t0"]
    by auto
  obtain ls where ls: "forest_ok C B (lookup t1) self1 ls" "\<forall>l \<in> set ls. length l = 61440"
    "concat parts = concat ls @ cb_leaf self1" "length (cb_leaf self1) < 61440"
    using d(1) by (auto simp: builder_data_def)
  have ch: "chunks 61440 (concat parts) = ls @ (if cb_leaf self1 = [] then [] else [cb_leaf self1])"
    unfolding ls(3) using ls(2,4) by (rule chunks_concat_exact)
  show ?thesis
  proof (cases "cb_leaf self1 \<noteq> [] \<or> cb_byte_len self1 = 0")
    case True
    obtain self2 t2 where fl: "builder_flush_leaf C B sink (self1, t1) = ((self2, t2), Ok ())"
      and lp: "builder_finish_loop C B sink [0..<4] (self2, t2) = ((self', t'), Ok root)"
      using fin s1 d(3) True by (auto simp: builder_finish_def op_then_Inr)
    have "forest_ok C B (lookup t2) self2 (ls @ [cb_leaf self1])"
      using builder_flush_leaf_denotes [OF C sink fl ls(1)] by simp
    from builder_finish_loop_denotes [OF C sink lp this] builder_flush_leaf_frame [OF fl] d(4,5)
    have root: "tree_leaves C B scope sec (lookup t') root = Some (ls @ [cb_leaf self1])" by simp
    show ?thesis
    proof (cases "concat parts = []")
      case True
      then have "ls = []" "cb_leaf self1 = []" using ls(2,3) by (cases ls; auto)+
      then show ?thesis using root True by simp
    next
      case False
      then have "cb_leaf self1 \<noteq> []" using \<open>cb_leaf self1 \<noteq> [] \<or> cb_byte_len self1 = 0\<close> d(2) by auto
      then show ?thesis using root ch False by simp
    qed
  next
    case False
    then have lp: "builder_finish_loop C B sink [0..<4] (self1, t1) = ((self', t'), Ok root)"
      using fin s1 d(3) by (auto simp: builder_finish_def)
    from builder_finish_loop_denotes [OF C sink lp ls(1)] d False ch show ?thesis by auto
  qed
qed

end
