(* ===== verification/Catalog_Bounds.thy ===== *)
theory Catalog_Bounds
  imports Catalog_Builder
begin

text \<open>
  The format-one bounds of \<open>src/crates/mb-core/src/catalog.rs\<close> are wide enough: a stream of up to
  \<open>CATALOG_MAX_STREAM_BYTES\<close> never makes the builder fail by itself. Height three, fanout 128 and
  one million page occurrences suffice because all pages but the last of a level are full; a page
  of height \<open>h\<close> then covers \<open>61440 * 128 ^ h\<close> bytes.
\<close>

section \<open>Full and partial references\<close>

definition full_bytes :: "nat \<Rightarrow> nat" where
  "full_bytes h = 61440 * 128 ^ h"

definition max_pages :: "nat \<Rightarrow> nat" where
  "max_pages h = (if h = 0 then 1 else if h = 1 then 129 else if h = 2 then 16513 else 1000000)"

definition part_ref :: "nat \<Rightarrow> page_ref \<Rightarrow> bool" where
  "part_ref h r \<longleftrightarrow> ref_validate r = (Ok () :: (unit catalog_error, unit) result) \<and> pr_height r = h
     \<and> 0 < pr_byte_len r \<and> pr_byte_len r \<le> full_bytes h \<and> pr_page_occurrences r \<le> max_pages h"

definition full_ref :: "nat \<Rightarrow> page_ref \<Rightarrow> bool" where
  "full_ref h r \<longleftrightarrow> part_ref h r \<and> pr_byte_len r = full_bytes h"

definition total_bytes :: "page_ref list list \<Rightarrow> nat" where
  "total_bytes levels = sum_list (map pr_byte_len (concat levels))"

lemma ref_validate_transfer:
  "(ref_validate r = (Ok () :: ('m catalog_error, unit) result)) = (ref_validate r = (Ok () :: ('n catalog_error, unit) result))"
  by (simp add: ref_validate_iff)

lemma full_refs_bytes: "\<forall>r \<in> set rs. full_ref h r \<Longrightarrow> sum_list (map pr_byte_len rs) = length rs * full_bytes h"
  by (induction rs) (auto simp: full_ref_def)

lemma part_refs_bytes: "\<forall>r \<in> set rs. part_ref h r \<Longrightarrow> sum_list (map pr_byte_len rs) \<le> length rs * full_bytes h"
  by (induction rs) (auto simp: part_ref_def)

lemma part_refs_pages: "\<forall>r \<in> set rs. part_ref h r \<Longrightarrow> sum_list (map pr_page_occurrences rs) \<le> length rs * max_pages h"
  by (induction rs) (auto simp: part_ref_def)

lemma total_bytes_level: "h < length levels \<Longrightarrow> sum_list (map pr_byte_len (levels ! h)) \<le> total_bytes levels"
  unfolding total_bytes_def
proof (induction levels arbitrary: h)
  case (Cons l ls)
  then show ?case by (cases h) (auto simp: trans_le_add2)
qed simp

lemma total_bytes_update:
  "h < length levels \<Longrightarrow> total_bytes (levels[h := l]) + sum_list (map pr_byte_len (levels ! h))
     = total_bytes levels + sum_list (map pr_byte_len l)"
  unfolding total_bytes_def
proof (induction levels arbitrary: h)
  case (Cons x xs)
  then show ?case by (cases h) auto
qed simp

text \<open>A level: fewer than 128 references, all but the last full.\<close>

definition level_ok :: "nat \<Rightarrow> page_ref list \<Rightarrow> bool" where
  "level_ok h rs \<longleftrightarrow> length rs \<le> 128 \<and> (\<forall>r \<in> set rs. part_ref h r) \<and> (\<forall>r \<in> set (butlast rs). full_ref h r)"

lemma level_ok_length:
  assumes "level_ok h rs" "sum_list (map pr_byte_len rs) \<le> 17179869184"
  shows "length rs * full_bytes h \<le> 17179869184 + full_bytes h"
proof (cases rs rule: rev_cases)
  case (snoc xs x)
  then have "sum_list (map pr_byte_len xs) = length xs * full_bytes h"
    using assms(1) by (intro full_refs_bytes) (auto simp: level_ok_def)
  then show ?thesis using assms(2) snoc by simp
qed simp

lemma level_ok_bounds:
  assumes "level_ok h rs" "sum_list (map pr_byte_len rs) \<le> 17179869184"
  shows "h = 2 \<Longrightarrow> length rs \<le> 18" "h = 3 \<Longrightarrow> length rs \<le> 1"
  using level_ok_length [OF assms] by (auto simp: full_bytes_def)

section \<open>Stores that accept every page\<close>

definition total_sink :: "('t, 'e) page_sink \<Rightarrow> bool" where
  "total_sink sink \<longleftrightarrow> (\<forall>r bs t. \<exists>t'. sink r bs t = (t', Ok ()))"

lemma builder_store_live:
  fixes C :: "'m page_codec"
  assumes "codec_fits C" "total_sink sink"
    and "page_counts \<lparr>pg_format_version = 1, pg_scope = cb_scope self, pg_section = cb_section self,
       pg_height = h, pg_body = body\<rparr> = (Ok (len, n) :: ('m catalog_error, _) result)" (is "page_counts ?p = _")
  shows "\<exists>t' q. builder_store C B sink h body (self, t) = ((self, t'), Ok q) \<and> pr_height q = h
    \<and> pr_byte_len q = len \<and> pr_page_occurrences q = n \<and> ref_validate q = (Ok () :: ('m catalog_error, unit) result)"
proof -
  obtain bs where bs: "pc_encode C ?p = Inr bs" "0 < length bs" "length bs \<le> 65536"
    using assms(1,3) by (auto simp: codec_fits_def)
  define q where "q = \<lparr>pr_hash = page_hash B bs, pr_encoded_len = length bs, pr_height = h,
                   pr_byte_len = len, pr_page_occurrences = n\<rparr>"
  have e: "page_encode C B ?p = Ok (q, bs)" using assms(3) bs by (simp add: page_encode_def q_def)
  obtain t' where "sink q bs t = (t', Ok ())" using assms(2) unfolding total_sink_def by blast
  then have "builder_store C B sink h body (self, t) = ((self, t'), Ok q)" using e by (simp add: builder_store_def)
  moreover have "ref_validate q = (Ok () :: ('m catalog_error, unit) result)"
    using page_encode_valid [OF e] bs(2) by auto
  ultimately show ?thesis by (auto simp: q_def)
qed

lemma builder_store_index_live:
  fixes C :: "'m page_codec"
  assumes "codec_fits C" "total_sink sink"
    and scope: "scope_validate (cb_scope self) (cb_section self) = (Ok () :: ('m catalog_error, unit) result)"
    and lv: "level_ok h rs" "rs \<noteq> []" "sum_list (map pr_byte_len rs) \<le> 17179869184" "h < 3"
  shows "\<exists>t' q. builder_store C B sink (Suc h) (Index rs) (self, t) = ((self, t'), Ok q)
    \<and> part_ref (Suc h) q \<and> pr_byte_len q = sum_list (map pr_byte_len rs)"
proof -
  have part: "\<forall>r \<in> set rs. part_ref h r" "length rs \<le> 128" using lv(1) by (auto simp: level_ok_def)
  let ?len = "sum_list (map pr_byte_len rs)" and ?n = "1 + sum_list (map pr_page_occurrences rs)"
  have "length rs * max_pages h \<le> (if h = 2 then 18 else 128) * max_pages h"
    using part(2) level_ok_bounds(1) [OF lv(1,3)] by auto
  then have pages: "?n \<le> max_pages (Suc h)" "?n \<le> 1000000"
    using part_refs_pages [OF part(1)] lv(4) by (auto simp: max_pages_def split: if_splits)
  have "length rs * full_bytes h \<le> 128 * full_bytes h" using part(2) by (rule mult_le_mono1)
  moreover have "full_bytes (Suc h) = 128 * full_bytes h" by (simp add: full_bytes_def)
  ultimately have bytes: "?len \<le> full_bytes (Suc h)" using part_refs_bytes [OF part(1)] by linarith
  obtain r0 rs' where rs: "rs = r0 # rs'" using lv(2) by (cases rs) auto
  then have pos: "0 < ?len" using part(1) by (auto simp: part_ref_def)
  have "page_counts \<lparr>pg_format_version = 1, pg_scope = cb_scope self, pg_section = cb_section self,
       pg_height = Suc h, pg_body = Index rs\<rparr> = (Ok (?len, ?n) :: ('m catalog_error, _) result)"
    using scope part lv pages(2) ref_validate_transfer [where ?'m = unit and ?'n = 'm]
    by (subst page_counts_index) (auto simp: part_ref_def)
  from builder_store_live [OF assms(1,2) this] show ?thesis
    using bytes pages(1) pos ref_validate_transfer [where ?'m = unit and ?'n = 'm]
    by (fastforce simp: part_ref_def)
qed

section \<open>The levels during a run\<close>

text \<open>\<open>all_full\<close>: every level holds fewer than 128 references, all full. \<open>partial_at k\<close>: the levels below
  \<open>k\<close> are empty, level \<open>k\<close> may end in a partial reference, and the levels above are full.\<close>

definition all_full_from :: "nat \<Rightarrow> page_ref list list \<Rightarrow> bool" where
  "all_full_from k levels \<longleftrightarrow> length levels = 4
     \<and> (\<forall>i. k \<le> i \<longrightarrow> i < 4 \<longrightarrow> length (levels ! i) < 128 \<and> (\<forall>r \<in> set (levels ! i). full_ref i r))"

definition partial_at :: "nat \<Rightarrow> page_ref list list \<Rightarrow> bool" where
  "partial_at k levels \<longleftrightarrow> k < 4 \<and> all_full_from (Suc k) levels \<and> (\<forall>i < k. levels ! i = [])
     \<and> levels ! k \<noteq> [] \<and> length (levels ! k) < 128 \<and> level_ok k (levels ! k)"

lemma all_full_update:
  "all_full_from k levels \<Longrightarrow> h < k \<Longrightarrow> all_full_from k (levels[h := l])"
  by (auto simp: all_full_from_def)

lemma all_full_below:
  assumes "all_full_from h levels" "\<forall>i < h. levels ! i = []"
  shows "all_full_from 0 levels"
proof -
  have "length (levels ! i) < 128 \<and> (\<forall>r \<in> set (levels ! i). full_ref i r)" if "i < 4" for i
    using assms that by (cases "i < h") (auto simp: all_full_from_def)
  then show ?thesis using assms(1) by (simp add: all_full_from_def)
qed

lemma full_ref_collapse:
  assumes "part_ref (Suc h) q" "pr_byte_len q = sum_list (map pr_byte_len rs)" "length rs = 128" "\<forall>r \<in> set rs. full_ref h r"
  shows "full_ref (Suc h) q"
  using assms full_refs_bytes [OF assms(4)] by (simp add: full_ref_def full_bytes_def)

lemma builder_append_live:
  fixes C :: "'m page_codec"
  assumes fits: "codec_fits C" and sink: "total_sink sink"
    and scope: "scope_validate (cb_scope self) (cb_section self) = (Ok () :: ('m catalog_error, unit) result)"
    and lv: "all_full_from (pr_height r) (cb_levels self)" "\<forall>i < pr_height r. cb_levels self ! i = []"
    and r: "part_ref (pr_height r) r" "pr_height r < 4" "total_bytes (cb_levels self) + pr_byte_len r \<le> 17179869184"
  shows "\<exists>self' t' k. builder_append C B sink r (self, t) = ((self', t'), Ok ()) \<and> pr_height r \<le> k
    \<and> partial_at k (cb_levels self') \<and> total_bytes (cb_levels self') = total_bytes (cb_levels self) + pr_byte_len r
    \<and> (full_ref (pr_height r) r \<longrightarrow> all_full_from 0 (cb_levels self'))"
  using scope lv r
proof (induction "4 - pr_height r" arbitrary: r self t rule: less_induct)
  case less
  let ?h = "pr_height r" and ?levels = "cb_levels self"
  let ?rs = "?levels ! ?h @ [r]"
  have len: "length ?levels = 4" "length (?levels ! ?h) < 128" "\<forall>r \<in> set (?levels ! ?h). full_ref ?h r"
    using less.prems by (auto simp: all_full_from_def)
  have ok: "level_ok ?h ?rs" using len less.prems(4) by (auto simp: level_ok_def full_ref_def)
  have bytes: "sum_list (map pr_byte_len ?rs) \<le> 17179869184"
    using total_bytes_level [of ?h ?levels] less.prems(5,6) len(1) by simp
  show ?case
  proof (cases "Suc (length (?levels ! ?h)) < 128")
    case True
    let ?new = "?levels[?h := ?rs]"
    have "builder_append C B sink r (self, t) = ((self\<lparr>cb_levels := ?new\<rparr>, t), Ok ())"
      using True len(1) less.prems(5) by (subst builder_append.simps) (simp add: index_def Let_def)
    moreover have "partial_at ?h ?new"
      using less.prems len ok True by (auto simp: partial_at_def all_full_from_def nth_list_update)
    moreover have "total_bytes ?new = total_bytes ?levels + pr_byte_len r"
      using total_bytes_update [of ?h ?levels ?rs] len(1) less.prems(5) by simp
    moreover have "all_full_from 0 ?new" if "full_ref ?h r"
      using that all_full_below [OF less.prems(2,3)] len True less.prems(5) by (auto simp: all_full_from_def nth_list_update)
    ultimately show ?thesis by fastforce
  next
    case False
    then have l128: "length ?rs = 128" using len(2) by simp
    have h3: "?h < 3" using level_ok_bounds(2) [OF ok bytes] l128 less.prems(5) by (cases "?h = 3") auto
    let ?self1 = "self\<lparr>cb_levels := ?levels[?h := []]\<rparr>"
    obtain t1 q where st: "builder_store C B sink (Suc ?h) (Index ?rs) (?self1, t) = ((?self1, t1), Ok q)"
      "part_ref (Suc ?h) q" "pr_byte_len q = sum_list (map pr_byte_len ?rs)"
      using builder_store_index_live [OF fits sink, of ?self1 ?h ?rs B t] less.prems(1) ok bytes h3 by auto
    have q: "pr_height q = Suc ?h" using st(2) by (simp add: part_ref_def)
    have tb: "total_bytes (?levels[?h := []]) + pr_byte_len q = total_bytes ?levels + pr_byte_len r"
      using total_bytes_update [of ?h ?levels "[]"] len(1) less.prems(5) st(3) by simp
    have "all_full_from (Suc ?h) (?levels[?h := []])"
      using less.prems(2) by (intro all_full_update) (auto simp: all_full_from_def)
    moreover have "\<forall>i < Suc ?h. (?levels[?h := []]) ! i = []"
      using less.prems(3,5) len(1) by (auto simp: less_Suc_eq nth_list_update)
    moreover have "4 - pr_height q < 4 - ?h" using q h3 by linarith
    ultimately obtain self' t' k where rest: "builder_append C B sink q (?self1, t1) = ((self', t'), Ok ())" "Suc ?h \<le> k"
      "partial_at k (cb_levels self')" "total_bytes (cb_levels self') = total_bytes ?levels + pr_byte_len r"
      "full_ref (Suc ?h) q \<longrightarrow> all_full_from 0 (cb_levels self')"
      using less.hyps [of q ?self1 t1] q st(2) h3 less.prems(1,6) tb by (auto simp del: diff_less)
    have "builder_append C B sink r (self, t) = ((self', t'), Ok ())"
      using rest(1) st(1) False h3 len(1) by (subst builder_append.simps) (simp add: index_def Let_def)
    moreover have "all_full_from 0 (cb_levels self')" if "full_ref ?h r"
      using rest(5) full_ref_collapse [OF st(2,3) l128] len(3) that by auto
    ultimately show ?thesis using rest(2-4) by (meson Suc_leD)
  qed
qed

lemma builder_finish_loop_live:
  fixes C :: "'m page_codec"
  assumes fits: "codec_fits C" and sink: "total_sink sink"
    and scope: "scope_validate (cb_scope self) (cb_section self) = (Ok () :: ('m catalog_error, unit) result)"
    and lv: "partial_at k (cb_levels self)" "h \<le> k" "total_bytes (cb_levels self) \<le> 17179869184"
  shows "\<exists>s' root. builder_finish_loop C B sink [h..<4] (self, t) = (s', Ok root)"
  using scope lv
proof (induction "4 - h" arbitrary: h k self t)
  case 0
  then show ?case by (simp add: partial_at_def)
next
  case (Suc n)
  let ?levels = "cb_levels self" and ?level = "cb_levels self ! h"
  have h: "h < 4" "[h..<4] = h # [Suc h..<4]" using Suc.hyps(2) by (auto simp: upt_conv_Cons)
  have n: "n = 4 - Suc h" using Suc.hyps(2) by linarith
  have len: "length ?levels = 4" using Suc.prems(2) by (simp add: partial_at_def all_full_from_def)
  show ?case
  proof (cases "h = k")
    case False
    then have "?level = []" "Suc h \<le> k" using Suc.prems(2,3) by (auto simp: partial_at_def)
    then show ?thesis using Suc.hyps(1) [of "Suc h" self k t] Suc.hyps(2) Suc.prems h len by (simp add: index_def)
  next
    case True
    have lv: "?level \<noteq> []" "level_ok h ?level" "length ?level < 128" "\<forall>i < h. ?levels ! i = []" "all_full_from (Suc h) ?levels"
      using Suc.prems(2) True by (auto simp: partial_at_def)
    have bytes: "sum_list (map pr_byte_len ?level) \<le> 17179869184"
      using total_bytes_level [of h ?levels] h(1) len Suc.prems(4) by simp
    show ?thesis
    proof (cases "length ?level = 1 \<and> (\<forall>l \<in> set (drop (h + 1) ?levels). l = [])")
      case True
      then show ?thesis using h len lv(1) by (simp add: index_def)
    next
      case alone: False
      have h3: "h < 3"
      proof (rule ccontr)
        assume "\<not> h < 3"
        then have "h = 3" using h(1) by simp
        then have "length ?level = 1" using level_ok_bounds(2) [OF lv(2) bytes] lv(1) by (cases ?level) auto
        then show False using alone len \<open>h = 3\<close> by simp
      qed
      let ?self1 = "self\<lparr>cb_levels := ?levels[h := []]\<rparr>"
      obtain t1 q where st: "builder_store C B sink (Suc h) (Index ?level) (?self1, t) = ((?self1, t1), Ok q)"
        "part_ref (Suc h) q" "pr_byte_len q = sum_list (map pr_byte_len ?level)"
        using builder_store_index_live [OF fits sink, of ?self1 h ?level B t] Suc.prems(1) lv bytes h3 by auto
      have q: "pr_height q = Suc h" using st(2) by (simp add: part_ref_def)
      have tb: "total_bytes (?levels[h := []]) + pr_byte_len q = total_bytes ?levels"
        using total_bytes_update [of h ?levels "[]"] len h(1) st(3) by simp
      have "\<forall>i < Suc h. (?levels[h := []]) ! i = []" using lv(4) len h(1) by (auto simp: less_Suc_eq nth_list_update)
      then obtain self2 t2 k2 where ap: "builder_append C B sink q (?self1, t1) = ((self2, t2), Ok ())" "Suc h \<le> k2"
        "partial_at k2 (cb_levels self2)" "total_bytes (cb_levels self2) = total_bytes ?levels"
        using builder_append_live [OF fits sink, of ?self1 q B t1] all_full_update [OF lv(5), of h "[]"]
          q st(2) h3 Suc.prems(1,4) tb by auto
      have "cb_scope self2 = cb_scope self" "cb_section self2 = cb_section self"
        using builder_append_frame [OF ap(1)] by auto
      then obtain s' root where "builder_finish_loop C B sink [Suc h..<4] (self2, t2) = (s', Ok root)"
        using Suc.hyps(1) [of "Suc h" self2 k2 t2] n Suc.prems(1,4) ap(2-4) by auto
      then have "builder_finish_loop C B sink [h..<4] (self, t) = (s', Ok root)"
        using h len lv(1) alone h3 st(1) ap(1) by (auto simp: index_def op_then_def op_update_def)
      then show ?thesis by blast
    qed
  qed
qed

section \<open>Runs that stay below the stream limit\<close>

definition builder_live :: "builder \<Rightarrow> bool" where
  "builder_live self \<longleftrightarrow> scope_validate (cb_scope self) (cb_section self) = (Ok () :: (unit catalog_error, unit) result)
     \<and> all_full_from 0 (cb_levels self) \<and> length (cb_leaf self) < 61440
     \<and> total_bytes (cb_levels self) + length (cb_leaf self) = cb_byte_len self"

lemma scope_validate_transfer:
  "(scope_validate s x = (Ok () :: ('m catalog_error, unit) result)) = (scope_validate s x = (Ok () :: ('n catalog_error, unit) result))"
  by (auto simp: scope_validate_def split: catalog_scope.splits)

text \<open>Flushing a non-empty leaf succeeds; a full leaf leaves only full references.\<close>

lemma builder_flush_leaf_live:
  fixes C :: "'m page_codec"
  assumes fits: "codec_fits C" and sink: "total_sink sink"
    and scope: "scope_validate (cb_scope self) (cb_section self) = (Ok () :: ('m catalog_error, unit) result)"
    and lv: "all_full_from 0 (cb_levels self)" "cb_leaf self \<noteq> []" "length (cb_leaf self) \<le> 61440"
      "total_bytes (cb_levels self) + length (cb_leaf self) \<le> 17179869184"
  shows "\<exists>self' t' k. builder_flush_leaf C B sink (self, t) = ((self', t'), Ok ()) \<and> partial_at k (cb_levels self')
    \<and> total_bytes (cb_levels self') = total_bytes (cb_levels self) + length (cb_leaf self)
    \<and> (length (cb_leaf self) = 61440 \<longrightarrow> all_full_from 0 (cb_levels self'))"
proof -
  let ?self1 = "self\<lparr>cb_leaf := []\<rparr>"
  have "page_counts \<lparr>pg_format_version = 1, pg_scope = cb_scope ?self1, pg_section = cb_section ?self1,
       pg_height = 0, pg_body = Leaf (cb_leaf self)\<rparr> = (Ok (length (cb_leaf self), 1) :: ('m catalog_error, _) result)"
    using scope lv(3) by (subst page_counts_leaf) auto
  from builder_store_live [OF fits sink this] obtain t1 q where
    st: "builder_store C B sink 0 (Leaf (cb_leaf self)) (?self1, t) = ((?self1, t1), Ok q)" "pr_height q = 0"
      "pr_byte_len q = length (cb_leaf self)" "pr_page_occurrences q = 1"
      "ref_validate q = (Ok () :: ('m catalog_error, unit) result)" by blast
  have q: "part_ref 0 q" using st lv(2,3) ref_validate_transfer [of q, where ?'m = unit and ?'n = 'm]
    by (simp add: part_ref_def full_bytes_def max_pages_def)
  obtain self' t' k where ap: "builder_append C B sink q (?self1, t1) = ((self', t'), Ok ())" "partial_at k (cb_levels self')"
    "total_bytes (cb_levels self') = total_bytes (cb_levels self) + pr_byte_len q"
    "full_ref 0 q \<longrightarrow> all_full_from 0 (cb_levels self')"
    using builder_append_live [OF fits sink, of ?self1 q B t1] scope lv st(2,3) q by auto
  moreover have "full_ref 0 q" if "length (cb_leaf self) = 61440"
    using q that st(3) by (simp add: full_ref_def full_bytes_def)
  ultimately show ?thesis using st(1,3) by (auto simp: builder_flush_leaf_def op_then_def)
qed

lemma builder_push_loop_live:
  fixes C :: "'m page_codec"
  assumes fits: "codec_fits C" and sink: "total_sink sink"
    and scope: "scope_validate (cb_scope self) (cb_section self) = (Ok () :: ('m catalog_error, unit) result)"
    and lv: "all_full_from 0 (cb_levels self)" "length (cb_leaf self) < 61440"
      "total_bytes (cb_levels self) + length (cb_leaf self) + length bytes \<le> 17179869184"
  shows "\<exists>self' t'. builder_push_loop C B sink bytes (self, t) = ((self', t'), Ok ())
    \<and> all_full_from 0 (cb_levels self') \<and> length (cb_leaf self') < 61440
    \<and> total_bytes (cb_levels self') + length (cb_leaf self')
      = total_bytes (cb_levels self) + length (cb_leaf self) + length bytes
    \<and> cb_scope self' = cb_scope self \<and> cb_section self' = cb_section self \<and> cb_byte_len self' = cb_byte_len self"
  using scope lv
proof (induction "length bytes" arbitrary: bytes self t rule: less_induct)
  case less
  show ?case
  proof (cases "bytes = []")
    case True
    then show ?thesis using less.prems by (simp add: builder_push_loop.simps [of C B sink "[]"])
  next
    case False
    let ?room = "61440 - length (cb_leaf self)"
    show ?thesis
    proof (cases "?room \<le> length bytes")
      case True
      let ?self1 = "self\<lparr>cb_leaf := cb_leaf self @ take ?room bytes\<rparr>"
      have full: "length (cb_leaf ?self1) = 61440" "cb_leaf ?self1 \<noteq> []"
        using True less.prems(3) False by (auto simp: min_absorb2)
      have "total_bytes (cb_levels self) + 61440 \<le> 17179869184" using less.prems(3,4) True by linarith
      then obtain self2 t2 k where fl: "builder_flush_leaf C B sink (?self1, t) = ((self2, t2), Ok ())"
        "total_bytes (cb_levels self2) = total_bytes (cb_levels self) + 61440" "all_full_from 0 (cb_levels self2)"
        using builder_flush_leaf_live [OF fits sink, of ?self1 B t] less.prems full True by (auto simp: min_absorb2)
      note fr = builder_flush_leaf_frame [OF fl(1)]
      have "length (drop ?room bytes) < length bytes" using less.prems(3) False by (cases bytes) auto
      then obtain self' t' where rest: "builder_push_loop C B sink (drop ?room bytes) (self2, t2) = ((self', t'), Ok ())"
        "all_full_from 0 (cb_levels self')" "length (cb_leaf self') < 61440"
        "total_bytes (cb_levels self') + length (cb_leaf self') = total_bytes (cb_levels self2) + length (cb_leaf self2) + length (drop ?room bytes)"
        "cb_scope self' = cb_scope self2" "cb_section self' = cb_section self2" "cb_byte_len self' = cb_byte_len self2"
        using less.hyps [of "drop ?room bytes" self2 t2] less.prems fl fr True by auto
      moreover have "builder_push_loop C B sink bytes (self, t) = ((self', t'), Ok ())"
        using rest(1) fl(1) False True less.prems(3) full(1)
        by (subst builder_push_loop.simps) (simp add: Let_def min_absorb2)
      ultimately show ?thesis using fr fl(2) True less.prems(3) by auto
    next
      case short: False
      then have "length (cb_leaf self) + length bytes < 61440" by linarith
      then show ?thesis using less.prems by (simp add: builder_push_loop_short)
    qed
  qed
qed

lemma builder_push_live:
  fixes C :: "'m page_codec"
  assumes "codec_fits C" "total_sink sink" "builder_live self" "\<not> cb_failed self"
    "cb_byte_len self + length bytes \<le> 17179869184"
  shows "\<exists>self' t'. builder_push C B sink bytes (self, t) = ((self', t'), Ok ()) \<and> builder_live self'
    \<and> \<not> cb_failed self' \<and> cb_byte_len self' = cb_byte_len self + length bytes"
proof -
  let ?self1 = "self\<lparr>cb_byte_len := cb_byte_len self + length bytes\<rparr>"
  have "scope_validate (cb_scope self) (cb_section self) = (Ok () :: ('m catalog_error, unit) result)"
    using assms(3) scope_validate_transfer [where ?'m = unit and ?'n = 'm] by (auto simp: builder_live_def)
  then obtain self' t' where lp: "builder_push_loop C B sink bytes (?self1, t) = ((self', t'), Ok ())"
    "all_full_from 0 (cb_levels self')" "length (cb_leaf self') < 61440"
    "total_bytes (cb_levels self') + length (cb_leaf self') = cb_byte_len self + length bytes"
    "cb_scope self' = cb_scope self" "cb_section self' = cb_section self" "cb_byte_len self' = cb_byte_len self + length bytes"
    using builder_push_loop_live [OF assms(1,2), of ?self1 bytes B t] assms(3,5) by (auto simp: builder_live_def)
  have "builder_push_inner C B sink bytes (self, t) = ((self', t'), Ok ())"
    using assms(5) lp(1) by (simp add: builder_push_inner_def)
  then have "builder_push C B sink bytes (self, t) = ((self'\<lparr>cb_failed := False\<rparr>, t'), Ok ())"
    using assms(4) by (simp add: builder_push_def fenced_call_Ok)
  then show ?thesis using lp assms(3) by (auto simp: builder_live_def)
qed

lemma builder_pushes_live:
  assumes "codec_fits C" "total_sink sink" "builder_live self" "\<not> cb_failed self"
    "cb_byte_len self + length (concat parts) \<le> 17179869184"
  shows "\<exists>self' t' rs. run_ops (builder_push C B sink) parts (self, t) = ((self', t'), rs) \<and> (\<forall>r \<in> set rs. r = Ok ())
    \<and> builder_live self' \<and> \<not> cb_failed self' \<and> cb_byte_len self' = cb_byte_len self + length (concat parts)"
  using assms(3-5)
proof (induction parts arbitrary: self t)
  case (Cons c parts)
  have "cb_byte_len self + length c \<le> 17179869184" using Cons.prems(3) by simp
  from builder_push_live [OF assms(1,2) Cons.prems(1,2) this] obtain self1 t1 where
    p: "builder_push C B sink c (self, t) = ((self1, t1), Ok ())" "builder_live self1" "\<not> cb_failed self1"
      "cb_byte_len self1 = cb_byte_len self + length c" by blast
  have "cb_byte_len self1 + length (concat parts) \<le> 17179869184" using Cons.prems(3) p(4) by simp
  from Cons.IH [OF p(2,3) this, of t1] obtain self' t' rs where
    "run_ops (builder_push C B sink) parts (self1, t1) = ((self', t'), rs)" "\<forall>r \<in> set rs. r = Ok ()"
    "builder_live self'" "\<not> cb_failed self'" "cb_byte_len self' = cb_byte_len self1 + length (concat parts)" by blast
  then show ?case using p(1,4) by (intro exI [of _ self'] exI [of _ t'] exI [of _ "Ok () # rs"]) (simp add: run_ops.simps)
qed simp

lemma all_full_partial:
  assumes "all_full_from 0 levels" "total_bytes levels \<noteq> 0"
  shows "\<exists>k. partial_at k levels"
proof -
  have "\<exists>i < 4. levels ! i \<noteq> []"
  proof (rule ccontr)
    assume "\<not> (\<exists>i < 4. levels ! i \<noteq> [])"
    then have "\<forall>l \<in> set levels. l = []" using assms(1) by (auto simp: all_full_from_def in_set_conv_nth)
    then have "concat levels = []" by simp
    then show False using assms(2) by (simp only: total_bytes_def) simp
  qed
  define k where "k = (LEAST i. i < 4 \<and> levels ! i \<noteq> [])"
  have k: "k < 4" "levels ! k \<noteq> []" using LeastI_ex [OF \<open>\<exists>i < 4. levels ! i \<noteq> []\<close>] by (auto simp: k_def)
  have "levels ! i = []" if "i < k" for i using not_less_Least [of i "\<lambda>i. i < 4 \<and> levels ! i \<noteq> []"] that k(1) by (auto simp: k_def)
  then have "partial_at k levels" using assms(1) k
    by (auto simp: partial_at_def all_full_from_def level_ok_def full_ref_def dest: in_set_butlastD)
  then show ?thesis by blast
qed

lemma no_bytes_no_refs:
  assumes "all_full_from 0 levels" "total_bytes levels = 0"
  shows "levels = [[], [], [], []]"
proof -
  have "levels ! i = []" if i: "i < 4" for i
  proof (rule ccontr)
    assume "levels ! i \<noteq> []"
    then obtain r rs where "levels ! i = r # rs" by (cases "levels ! i") auto
    then have "0 < sum_list (map pr_byte_len (levels ! i))"
      using assms(1) i by (auto simp: all_full_from_def full_ref_def part_ref_def)
    moreover have "length levels = 4" using assms(1) by (simp add: all_full_from_def)
    ultimately show False using total_bytes_level [of i levels] assms(2) i by linarith
  qed
  moreover have "length levels = 4" using assms(1) by (simp add: all_full_from_def)
  ultimately have "levels = replicate 4 []" by (intro nth_equalityI) auto
  then show ?thesis by (simp add: eval_nat_numeral)
qed

lemma builder_finish_live:
  fixes C :: "'m page_codec"
  assumes fits: "codec_fits C" and sink: "total_sink sink"
    and live: "builder_live self" "\<not> cb_failed self" "cb_byte_len self \<le> 17179869184"
  shows "\<exists>s' root. builder_finish C B sink (self, t) = (s', Ok root)"
proof -
  have scope: "scope_validate (cb_scope self) (cb_section self) = (Ok () :: ('m catalog_error, unit) result)"
    using live(1) scope_validate_transfer [where ?'m = unit and ?'n = 'm] by (auto simp: builder_live_def)
  have full: "all_full_from 0 (cb_levels self)" "total_bytes (cb_levels self) + length (cb_leaf self) = cb_byte_len self"
    "length (cb_leaf self) < 61440" using live(1) by (auto simp: builder_live_def)
  consider (leaf) "cb_leaf self \<noteq> []" | (whole) "cb_leaf self = []" "cb_byte_len self \<noteq> 0" | (empty) "cb_leaf self = []" "cb_byte_len self = 0"
    by blast
  then show ?thesis
  proof cases
    case leaf
    obtain self1 t1 k where fl: "builder_flush_leaf C B sink (self, t) = ((self1, t1), Ok ())" "partial_at k (cb_levels self1)"
      "total_bytes (cb_levels self1) = cb_byte_len self"
      using builder_flush_leaf_live [OF fits sink scope full(1) leaf, of B t] full live(3) by auto
    then obtain s' root where "builder_finish_loop C B sink [0..<4] (self1, t1) = (s', Ok root)"
      using builder_finish_loop_live [OF fits sink _ fl(2), of 0 B t1] scope builder_flush_leaf_frame [OF fl(1)] live(3) by auto
    then show ?thesis using fl(1) leaf live(2) by (auto simp: builder_finish_def op_then_def)
  next
    case whole
    then obtain k where "partial_at k (cb_levels self)" using all_full_partial [OF full(1)] full(2) by auto
    then obtain s' root where "builder_finish_loop C B sink [0..<4] (self, t) = (s', Ok root)"
      using builder_finish_loop_live [OF fits sink scope, of k 0 B t] full(2) live(3) whole by auto
    then show ?thesis using whole live(2) by (simp add: builder_finish_def)
  next
    case empty
    let ?self1 = "self\<lparr>cb_leaf := []\<rparr>"
    have lv: "cb_levels self = [[], [], [], []]" using no_bytes_no_refs [OF full(1)] full(2) empty by simp
    have "page_counts \<lparr>pg_format_version = 1, pg_scope = cb_scope ?self1, pg_section = cb_section ?self1,
        pg_height = 0, pg_body = Leaf []\<rparr> = (Ok (0, 1) :: ('m catalog_error, _) result)"
      using scope by (subst page_counts_leaf) auto
    from builder_store_live [OF fits sink this, of B t] obtain t1 q where
      st: "builder_store C B sink 0 (Leaf []) (?self1, t) = ((?self1, t1), Ok q)" "pr_height q = 0" by blast
    have "builder_append C B sink q (?self1, t1) = ((?self1\<lparr>cb_levels := [[q], [], [], []]\<rparr>, t1), Ok ())"
      using st(2) lv by (subst builder_append.simps) (simp add: index_def Let_def)
    then have "builder_flush_leaf C B sink (self, t) = ((?self1\<lparr>cb_levels := [[q], [], [], []]\<rparr>, t1), Ok ())"
      using st(1) empty(1) by (simp add: builder_flush_leaf_def op_then_def)
    moreover have "[0..<4] = [0, 1, 2, 3 :: nat]" by (simp add: upt_rec)
    ultimately show ?thesis using empty live(2) by (simp add: builder_finish_def op_then_def index_def)
  qed
qed

section \<open>Properties\<close>

text \<open>C25: The builder never fails by itself within the stream limit. If the encoding of every admissible
  page fits into a page and the store accepts every page, then for any sequence of pushes of
  together at most \<open>CATALOG_MAX_STREAM_BYTES\<close> (16 GiB) every \<open>push\<close> succeeds and \<open>finish\<close> returns a
  root: the height, fanout and page-occurrence limits are never hit, and nothing panics.\<close>

theorem builder_never_fails:
  assumes fits: "codec_fits C" and sink: "total_sink sink"
    and new: "builder_new scope sec = (Ok self0 :: ('m catalog_error, _) result)"
    and small: "length (concat parts) \<le> 17179869184"
  shows "(\<forall>r \<in> set (snd (run_ops (builder_push C B sink) parts (self0, t0))). r = Ok ()) \<and>
    (\<exists>s' root. builder_finish C B sink (fst (run_ops (builder_push C B sink) parts (self0, t0))) = (s', Ok root))"
proof -
  have "builder_live self0 \<and> \<not> cb_failed self0 \<and> cb_byte_len self0 = 0"
    using new scope_validate_transfer [of scope sec, where ?'m = unit and ?'n = 'm]
    by (auto simp: builder_new_def result_simps builder_live_def all_full_from_def total_bytes_def)
  then obtain self1 t1 rs where "run_ops (builder_push C B sink) parts (self0, t0) = ((self1, t1), rs)" "\<forall>r \<in> set rs. r = Ok ()"
    "builder_live self1" "\<not> cb_failed self1" "cb_byte_len self1 = length (concat parts)"
    using builder_pushes_live [OF fits sink, of self0 parts B t0] small by auto
  then show ?thesis using builder_finish_live [OF fits sink, of self1 B t1] small by auto
qed

end
