(* ===== verification/Catalog_Range.thy ===== *)
theory Catalog_Range
  imports Catalog_Reader
begin

text \<open>
  \<open>CatalogRangeReader\<close> of \<open>src/crates/mb-core/src/catalog/range.rs\<close>: reading one byte range of a
  catalog without visiting the subtrees outside it. Offsets are derived from the child lengths of
  verified index pages. \<open>range_parts\<close> is the specification: the parts of the leaves inside the range.
\<close>

section \<open>Operations\<close>

record range_reader =
  rr_scope :: catalog_scope
  rr_section :: catalog_section
  rr_start :: nat
  rr_end :: nat
  rr_pending :: "(page_ref \<times> nat) list"
  rr_remaining :: nat
  rr_failed :: bool

definition range_new ::
    "catalog_scope \<Rightarrow> catalog_section \<Rightarrow> page_ref \<Rightarrow> nat \<Rightarrow> nat \<Rightarrow> ('m catalog_error, range_reader) result" where
  "range_new scope sec root lo hi =
     and_then (scope_validate scope sec) (\<lambda>_.
     and_then (ref_validate root) (\<lambda>_.
     if hi < lo \<or> pr_byte_len root < hi then Err Bounds
     else Ok \<lparr>rr_scope = scope, rr_section = sec, rr_start = lo, rr_end = hi,
              rr_pending = (if hi - lo = 0 then [] else [(root, 0)]), rr_remaining = hi - lo, rr_failed = False\<rparr>))"

text \<open>The loop over the reversed children: the stack after it and the offset it ends
  at, \<open>None\<close> for the error \<open>Bounds\<close>.\<close>

fun push_children ::
    "nat \<Rightarrow> nat \<Rightarrow> page_ref list \<Rightarrow> nat \<Rightarrow> (page_ref \<times> nat) list \<Rightarrow> (page_ref \<times> nat) list \<times> nat option" where
  "push_children lo hi [] e pending = (pending, Some e)"
| "push_children lo hi (child # children) e pending =
     (case checked_sub e (pr_byte_len child) of
        None \<Rightarrow> (pending, None)
      | Some start \<Rightarrow>
          push_children lo hi children start
            (if start < hi \<and> lo < e then pending @ [(child, start)] else pending))"

text \<open>The weight of the stack bounds the traversal: children are lower and at most 128.\<close>

definition pending_weight :: "(page_ref \<times> nat) list \<Rightarrow> nat" where
  "pending_weight pending = sum_list (map (\<lambda>(r, _). 129 ^ Suc (pr_height r)) pending)"

lemma pending_weight_append [simp]: "pending_weight (p @ q) = pending_weight p + pending_weight q"
  by (simp add: pending_weight_def)

lemma push_children_weight:
  assumes "\<forall>c \<in> set cs. Suc (pr_height c) = h"
  shows "pending_weight (fst (push_children lo hi cs e P)) \<le> pending_weight P + length cs * 129 ^ h"
  using assms
proof (induction cs arbitrary: e P)
  case (Cons c cs)
  show ?case
  proof (cases "checked_sub e (pr_byte_len c)")
    case (Some start)
    let ?P = "if start < hi \<and> lo < e then P @ [(c, start)] else P"
    have "pending_weight ?P \<le> pending_weight P + 129 ^ h"
      using Cons.prems by (auto simp: pending_weight_def)
    moreover have "pending_weight (fst (push_children lo hi cs start ?P)) \<le> pending_weight ?P + length cs * 129 ^ h"
      using Cons.prems by (intro Cons.IH) simp
    moreover have "fst (push_children lo hi (c # cs) e P) = fst (push_children lo hi cs start ?P)" using Some by simp
    ultimately show ?thesis by simp
  qed simp
qed simp

function range_next_inner ::
    "'m page_codec \<Rightarrow> blake3 \<Rightarrow> ('t, 'e) page_fetch \<Rightarrow> (range_reader \<times> 't, ('m, 'e) stream_error, byte list option) op" where
  "range_next_inner C B fetch (self, t) =
     (if rr_pending self = []
      then ((self, t), if rr_remaining self \<noteq> 0 then Err (Catalog InvalidPage) else Ok None)
      else
       (let (reference, offset) = last (rr_pending self); self1 = self\<lparr>rr_pending := butlast (rr_pending self)\<rparr> in
        case fetch reference t of
          (t', Inl e) \<Rightarrow> ((self1, t'), Inl (map_stop Storage e))
        | (t', Inr encoded) \<Rightarrow>
       (case verify_page C B reference (rr_scope self1) (rr_section self1) encoded of
          Inl e \<Rightarrow> ((self1, t'), Inl (map_stop Catalog e))
        | Inr page \<Rightarrow>
       (case pg_body page of
          Index children \<Rightarrow>
            (case checked_add 64 offset (pr_byte_len reference) of
               None \<Rightarrow> ((self1, t'), Err (Catalog Bounds))
             | Some e0 \<Rightarrow>
            (let res = push_children (rr_start self1) (rr_end self1) (rev children) e0 (rr_pending self1);
                 self2 = self1\<lparr>rr_pending := fst res\<rparr> in
             case snd res of
               None \<Rightarrow> ((self2, t'), Err (Catalog Bounds))
             | Some e1 \<Rightarrow>
                 if e1 \<noteq> offset then ((self2, t'), Err (Catalog InvalidPage))
                 else range_next_inner C B fetch (self2, t')))
        | Leaf bytes \<Rightarrow>
            (let start = rr_start self1 - offset in
             case usub (rr_end self1) offset of Inl e \<Rightarrow> ((self1, t'), Inl e) | Inr d \<Rightarrow>
            (let stop = min d (pr_byte_len reference) in
             if stop \<le> start \<or> length bytes < stop then ((self1, t'), Err (Catalog InvalidPage))
             else
            (let count = stop - start in
             case checked_sub (rr_remaining self1) count of
               None \<Rightarrow> ((self1, t'), Err (Catalog Bounds))
             | Some remaining \<Rightarrow>
            (let self2 = self1\<lparr>rr_remaining := remaining\<rparr> in
             if rr_pending self2 = [] \<and> rr_remaining self2 \<noteq> 0 then ((self2, t'), Err (Catalog InvalidPage))
             else ((self2, t'), Ok (Some (sub bytes start count)))))))))))"
  by pat_completeness auto
termination
proof (relation "measure (\<lambda>(C, B, fetch, self, t). pending_weight (rr_pending self))", goal_cases)
  case (2 C B fetch self t x reference offset self1 y t' encoded page children e0 res self2 e1)
  have v: "verify_page C B reference (rr_scope self1) (rr_section self1) encoded = Ok page" "pg_body page = Index children"
    using 2 by auto
  note g = verified_index [OF v]
  have "pending_weight (rr_pending self) = pending_weight (butlast (rr_pending self)) + pending_weight [(reference, offset)]"
    using 2(1-3) append_butlast_last_id [of "rr_pending self"] by (metis pending_weight_append)
  then have w: "pending_weight (rr_pending self) = pending_weight (butlast (rr_pending self)) + 129 ^ Suc (pr_height reference)"
    by (simp add: pending_weight_def)
  have "pending_weight (fst (push_children (rr_start self1) (rr_end self1) (rev children) e0 (rr_pending self1)))
      \<le> pending_weight (butlast (rr_pending self)) + length children * 129 ^ pr_height reference"
    using push_children_weight [of "rev children" "pr_height reference"] g 2 by auto
  moreover have "length children * 129 ^ pr_height reference < 129 ^ Suc (pr_height reference)"
    using g by (simp add: le_imp_less_Suc)
  ultimately have "pending_weight (fst (push_children (rr_start self1) (rr_end self1) (rev children) e0 (rr_pending self1)))
      < pending_weight (rr_pending self)" using w by linarith
  then show ?case using 2 by simp
qed simp

declare range_next_inner.simps [simp del]

definition range_next_chunk ::
    "'m page_codec \<Rightarrow> blake3 \<Rightarrow> ('t, 'e) page_fetch \<Rightarrow> (range_reader \<times> 't, ('m, 'e) stream_error, byte list option) op" where
  "range_next_chunk C B fetch =
     fenced_call rr_failed (\<lambda>b. rr_failed_update (\<lambda>_. b)) (Catalog Failed) (range_next_inner C B fetch)"

interpretation catalog_range: guarded rr_failed "\<lambda>b. rr_failed_update (\<lambda>_. b)" "Catalog Failed"
    "\<lambda>_ :: unit. range_next_inner C B fetch" for C B fetch
  by unfold_locales simp

section \<open>Specification\<close>

text \<open>The parts inside \<open>lo..hi\<close> of consecutive leaves that start at \<open>off\<close>.\<close>

fun range_parts :: "nat \<Rightarrow> nat \<Rightarrow> nat \<Rightarrow> byte list list \<Rightarrow> byte list list" where
  "range_parts lo hi off [] = []"
| "range_parts lo hi off (l # ls) =
     (if off < hi \<and> lo < off + length l then [sub l (lo - off) (min (hi - off) (length l) - (lo - off))] else [])
     @ range_parts lo hi (off + length l) ls"

lemma range_parts_append:
  "range_parts lo hi off (a @ b) = range_parts lo hi off a @ range_parts lo hi (off + length (concat a)) b"
  by (induction a arbitrary: off) (auto simp: add.assoc)

lemma range_parts_disjoint: "\<not> (off < hi \<and> lo < off + length (concat ls)) \<Longrightarrow> range_parts lo hi off ls = []"
  by (induction ls arbitrary: off) auto

lemma concat_range_parts:
  "lo \<le> hi \<Longrightarrow> concat (range_parts lo hi off ls) = sub (concat ls) (lo - off) (hi - off - (lo - off))"
proof (induction ls arbitrary: off)
  case (Cons l ls)
  have "off + (lo - off + (length l - (lo - off))) = off + (length l + (lo - (off + length l)))" by arith
  then have eq: "sub (l @ concat ls) (lo - off) (hi - off - (lo - off)) =
      sub l (lo - off) (hi - off - (lo - off)) @ sub (concat ls) (lo - (off + length l)) (hi - (off + length l) - (lo - (off + length l)))"
    using Cons.prems by (simp add: sub_def algebra_simps min_def)
  have "sub l (lo - off) (min (hi - off) (length l) - (lo - off)) = sub l (lo - off) (hi - off - (lo - off))"
    by (simp add: sub_def min_def)
  moreover have "sub l (lo - off) (hi - off - (lo - off)) = []" if "\<not> (off < hi \<and> lo < off + length l)"
    using that Cons.prems by (auto simp: sub_def)
  ultimately have "concat (if off < hi \<and> lo < off + length l then [sub l (lo - off) (min (hi - off) (length l) - (lo - off))] else [])
      = sub l (lo - off) (hi - off - (lo - off))" by auto
  then show ?case using Cons.IH [of "off + length l"] Cons.prems by (simp only: range_parts.simps concat_append concat.simps eq)
qed (simp add: sub_def)

definition range_items :: "nat \<Rightarrow> nat \<Rightarrow> byte list list \<Rightarrow> byte list list" where
  "range_items lo hi ls = (if lo < hi then range_parts lo hi 0 ls else [])"

lemma concat_range_items: "lo \<le> hi \<Longrightarrow> concat (range_items lo hi ls) = sub (concat ls) lo (hi - lo)"
  using concat_range_parts [of lo hi 0 ls] by (auto simp: range_items_def sub_def)

lemma range_new_le: "range_new scope sec root lo hi = Ok self \<Longrightarrow> lo \<le> hi"
  by (auto simp: range_new_def result_simps split: if_splits)

section \<open>Invariant\<close>

fun with_offsets :: "nat \<Rightarrow> page_ref list \<Rightarrow> (page_ref \<times> nat) list" where
  "with_offsets off [] = []"
| "with_offsets off (c # cs) = (c, off) # with_offsets (off + pr_byte_len c) cs"

lemma with_offsets_snoc:
  "with_offsets off (cs @ [c]) = with_offsets off cs @ [(c, off + sum_list (map pr_byte_len cs))]"
  by (induction cs arbitrary: off) (auto simp: add.assoc)

definition meets :: "nat \<Rightarrow> nat \<Rightarrow> page_ref \<times> nat \<Rightarrow> bool" where
  "meets lo hi = (\<lambda>(r, off). off < hi \<and> lo < off + pr_byte_len r)"

lemma push_children_eq:
  "push_children lo hi (rev cs) (off + sum_list (map pr_byte_len cs)) P =
    (P @ rev (filter (meets lo hi) (with_offsets off cs)), Some off)"
proof (induction cs arbitrary: P rule: rev_induct)
  case (snoc c cs)
  then show ?case by (simp add: with_offsets_snoc meets_def flip: add.assoc)
qed simp

definition parts_of ::
    "(page_ref \<Rightarrow> byte list list option) \<Rightarrow> nat \<Rightarrow> nat \<Rightarrow> page_ref \<times> nat \<Rightarrow> byte list list" where
  "parts_of L lo hi = (\<lambda>(r, off). case L r of None \<Rightarrow> [] | Some ls \<Rightarrow> range_parts lo hi off ls)"

lemma parts_of_children:
  assumes "map L cs = map Some lss" "\<And>c l. c \<in> set cs \<Longrightarrow> L c = Some l \<Longrightarrow> length (concat l) = pr_byte_len c"
  shows "concat (map (parts_of L lo hi) (with_offsets off cs)) = range_parts lo hi off (concat lss)"
  using assms
proof (induction cs arbitrary: off lss)
  case (Cons c cs)
  then obtain l lss' where l: "lss = l # lss'" "L c = Some l" "map L cs = map Some lss'" by (cases lss) auto
  then have "concat (map (parts_of L lo hi) (with_offsets (off + pr_byte_len c) cs)) = range_parts lo hi (off + pr_byte_len c) (concat lss')"
    using Cons by auto
  then show ?case using l Cons.prems(2) [of c l] by (simp add: parts_of_def range_parts_append del: length_concat)
qed simp

lemma concat_map_filter: "\<forall>x \<in> set xs. \<not> P x \<longrightarrow> f x = [] \<Longrightarrow> concat (map f (filter P xs)) = concat (map f xs)"
  by (induction xs) auto

definition range_inv ::
    "'m page_codec \<Rightarrow> blake3 \<Rightarrow> (page_ref \<Rightarrow> byte list option) \<Rightarrow> byte list list \<Rightarrow> range_reader \<Rightarrow> bool" where
  "range_inv C B S ps self \<longleftrightarrow>
     (\<forall>(r, off) \<in> set (rr_pending self). tree_leaves C B (rr_scope self) (rr_section self) S r \<noteq> None
        \<and> meets (rr_start self) (rr_end self) (r, off) \<and> off + pr_byte_len r \<le> 17179869184 \<and> 0 < pr_byte_len r)
   \<and> ps = concat (map (parts_of (tree_leaves C B (rr_scope self) (rr_section self) S) (rr_start self) (rr_end self)) (rev (rr_pending self)))
   \<and> rr_remaining self = length (concat ps) \<and> (rr_pending self \<noteq> [] \<longrightarrow> rr_start self < rr_end self)"

lemma range_inv_failed [simp]: "range_inv C B S ps (self\<lparr>rr_failed := b\<rparr>) = range_inv C B S ps self"
  by (simp add: range_inv_def)

lemma range_inv_new:
  assumes new: "range_new scope sec root lo hi = (Ok self :: ('m catalog_error, _) result)"
    and tree: "tree_leaves C B scope sec S root = Some ls"
  shows "range_inv C B S (range_items lo hi ls) self \<and> \<not> rr_failed self"
proof -
  have len: "length (concat ls) = pr_byte_len root" using tree_leaves_sizes [OF tree] by simp
  have r: "lo \<le> hi" "hi \<le> pr_byte_len root" "pr_byte_len root \<le> 17179869184"
    and self: "self = \<lparr>rr_scope = scope, rr_section = sec, rr_start = lo, rr_end = hi,
      rr_pending = (if hi - lo = 0 then [] else [(root, 0)]), rr_remaining = hi - lo, rr_failed = False\<rparr>"
    using new by (auto simp: range_new_def result_simps ref_validate_iff split: if_splits)
  have "length (concat (range_parts lo hi 0 ls)) = hi - lo"
    using r len by (simp add: concat_range_parts del: length_concat)
  then show ?thesis using r tree by (auto simp: range_inv_def range_items_def self meets_def parts_of_def simp del: length_concat)
qed

lemma range_inv_leaf:
  assumes inv: "range_inv C B S ps self" "rr_pending self = P @ [(r, off)]"
    and v: "verify_page C B r (rr_scope self) (rr_section self) enc = Ok p" "pg_body p = Leaf bytes" "S r = Some enc"
  defines "start \<equiv> rr_start self - off" and "stop \<equiv> min (rr_end self - off) (pr_byte_len r)"
  shows "off \<le> rr_end self" "start < stop" "stop \<le> length bytes" "stop - start \<le> rr_remaining self"
    "ps = sub bytes start (stop - start) # tl ps"
    "range_inv C B S (tl ps) (self\<lparr>rr_pending := P, rr_remaining := rr_remaining self - (stop - start)\<rparr>)"
    "P = [] \<Longrightarrow> rr_remaining self = stop - start"
proof -
  let ?L = "tree_leaves C B (rr_scope self) (rr_section self) S"
  have leaf: "?L r = Some [bytes]" using tree_leaves_leafI [of S r enc] v by metis
  have blen: "pr_byte_len r = length bytes" using verified_leaf [OF v(1,2)] by simp
  have m: "off < rr_end self" "rr_start self < off + length bytes" "rr_start self < rr_end self" "0 < length bytes"
    using inv blen by (auto simp: range_inv_def meets_def)
  show off: "off \<le> rr_end self" using m by simp
  show lt: "start < stop" using m unfolding start_def stop_def blen min_less_iff_conj by linarith
  show le: "stop \<le> length bytes" by (simp add: stop_def blen)
  have part: "parts_of ?L (rr_start self) (rr_end self) (r, off) = [sub bytes start (stop - start)]"
    using m leaf by (simp add: parts_of_def start_def stop_def blen)
  let ?rest = "concat (map (parts_of ?L (rr_start self) (rr_end self)) (rev P))"
  have ps: "ps = sub bytes start (stop - start) # ?rest" using inv part by (simp add: range_inv_def)
  then show "ps = sub bytes start (stop - start) # tl ps" by simp
  have "length (sub bytes start (stop - start)) = stop - start" using lt le by simp
  then have rem: "rr_remaining self = (stop - start) + length (concat ?rest)"
    using inv(1) ps by (simp add: range_inv_def del: length_concat)
  then show "stop - start \<le> rr_remaining self" by simp
  show "P = [] \<Longrightarrow> rr_remaining self = stop - start" using rem by simp
  show "range_inv C B S (tl ps) (self\<lparr>rr_pending := P, rr_remaining := rr_remaining self - (stop - start)\<rparr>)"
    using inv ps rem by (auto simp: range_inv_def simp del: length_concat)
qed

lemma range_inv_index:
  assumes inv: "range_inv C B S ps self" "rr_pending self = P @ [(r, off)]"
    and v: "verify_page C B r (rr_scope self) (rr_section self) enc = Ok p" "pg_body p = Index cs" "S r = Some enc"
  shows "range_inv C B S ps (self\<lparr>rr_pending := P @ rev (filter (meets (rr_start self) (rr_end self)) (with_offsets off cs))\<rparr>)"
proof -
  let ?L = "tree_leaves C B (rr_scope self) (rr_section self) S" and ?lo = "rr_start self" and ?hi = "rr_end self"
  let ?kids = "with_offsets off cs"
  note geo = verified_index [OF v(1,2)]
  obtain l where l: "?L r = Some l" using inv by (fastforce simp: range_inv_def)
  obtain lss where lss: "map ?L cs = map Some lss" "l = concat lss"
    using l by (cases rule: tree_leaves_SomeE) (use v in auto)
  have sizes: "length (concat x) = pr_byte_len c" if "?L c = Some x" for c x using tree_leaves_sizes [OF that] by simp
  have kids: "c \<in> set cs \<and> o' + pr_byte_len c \<le> off + pr_byte_len r" if "(c, o') \<in> set ?kids" for c o'
  proof -
    have "(c, o') \<in> set (with_offsets off cs) \<Longrightarrow> c \<in> set cs \<and> o' + pr_byte_len c \<le> off + sum_list (map pr_byte_len cs)"
      by (induction cs arbitrary: off) force+
    then show ?thesis using that geo by simp
  qed
  have dis: "parts_of ?L ?lo ?hi x = []" if "x \<in> set ?kids" "\<not> meets ?lo ?hi x" for x
  proof (cases x)
    case (Pair c o')
    then show ?thesis using that(2) sizes [of c] range_parts_disjoint [of o' ?hi ?lo]
      by (cases "?L c") (simp_all add: parts_of_def meets_def del: length_concat)
  qed
  have "concat (map (parts_of ?L ?lo ?hi) (filter (meets ?lo ?hi) ?kids)) = parts_of ?L ?lo ?hi (r, off)"
    using concat_map_filter [of ?kids "meets ?lo ?hi" "parts_of ?L ?lo ?hi"] dis
      parts_of_children [OF lss(1), of ?lo ?hi off] sizes l lss(2) by (simp add: parts_of_def)
  moreover have "?L c \<noteq> None \<and> o' + pr_byte_len c \<le> 17179869184 \<and> 0 < pr_byte_len c" if "(c, o') \<in> set ?kids" for c o'
    using kids [OF that] map_eq_SomeD [OF lss(1)] inv geo by (fastforce simp: range_inv_def)
  ultimately show ?thesis using inv by (auto simp: range_inv_def simp del: length_concat)
qed

abbreviation on_page :: "('t, 'e) page_fetch \<Rightarrow> ('t, 'e) path_fetch" where
  "on_page fetch \<equiv> \<lambda>path. fetch (last path)"

definition range_outcome ::
    "'m page_codec \<Rightarrow> blake3 \<Rightarrow> ('t, 'e) page_fetch \<Rightarrow> (page_ref \<Rightarrow> byte list option) \<Rightarrow> byte list list
      \<Rightarrow> (range_reader \<times> 't) \<times> (('m, 'e) stream_error, byte list option) result \<Rightarrow> bool" where
  "range_outcome C B fetch S ps res \<longleftrightarrow>
     is_err (snd res) \<and> \<not> serves (on_page fetch) S
     \<or> snd res = Ok (if ps = [] then None else Some (hd ps)) \<and> range_inv C B S (tl ps) (fst (fst res))"

lemma range_next_inner_outcome:
  assumes "range_inv C B S ps self" "no_second_preimage B (on_page fetch) S"
  shows "range_outcome C B fetch S ps (range_next_inner C B fetch (self, t))"
  using assms(1)
proof (induction "pending_weight (rr_pending self)" arbitrary: self t rule: less_induct)
  case less
  note inv = less.prems
  show ?case
  proof (cases "rr_pending self" rule: rev_cases)
    case Nil
    then show ?thesis using inv by (subst range_next_inner.simps)
      (auto simp: range_outcome_def range_inv_def)
  next
    case (snoc P x)
    obtain r off where x: "x = (r, off)" by (rule prod.exhaust)
    note pend = snoc [unfolded x]
    let ?L = "tree_leaves C B (rr_scope self) (rr_section self) S"
    obtain l where "?L r = Some l" using inv pend by (fastforce simp: range_inv_def)
    then obtain enc p where enc: "S r = Some enc" "verify_page C B r (rr_scope self) (rr_section self) enc = Ok p"
      by (cases rule: tree_leaves_SomeE) auto
    have off: "off + pr_byte_len r \<le> 17179869184" using inv pend by (auto simp: range_inv_def)
    obtain t' res where f: "fetch r t = (t', res)" by (rule prod.exhaust)
    have dishonest: "\<not> serves (on_page fetch) S" if "res \<noteq> Ok enc"
      using servesD [of "on_page fetch" S "[r]" enc t] f enc(1) that by auto
    consider (fail) e where "res = Inl e" | (bad) b e where "res = Inr b" "verify_page C B r (rr_scope self) (rr_section self) b = Inl e"
      | (good) b q where "res = Inr b" "verify_page C B r (rr_scope self) (rr_section self) b = Ok q"
      by (metis sum.exhaust)
    then show ?thesis
    proof cases
      case fail
      then show ?thesis using dishonest f pend by (subst range_next_inner.simps) (simp add: range_outcome_def)
    next
      case bad
      then have "res \<noteq> Ok enc" using enc(2) by auto
      then show ?thesis using dishonest f pend bad by (subst range_next_inner.simps) (simp add: range_outcome_def)
    next
      case good
      have "page_hash B b = page_hash B enc" using verify_page_OkD(3) good(2) enc(2) by metis
      then have "b = enc" using assms(2) [unfolded no_second_preimage_def, rule_format, of "[r]" enc t t' b] f good(1) enc(1) by simp
      then have Sb: "S r = Some b" using enc(1) by simp
      show ?thesis
      proof (cases "pg_body q")
        case (Leaf bytes)
        define start where "start = rr_start self - off"
        define stop where "stop = min (rr_end self - off) (pr_byte_len r)"
        note n = range_inv_leaf [OF inv pend good(2) Leaf Sb, folded start_def stop_def]
        have "ps \<noteq> []" "hd ps = sub bytes start (stop - start)"
          using n(5) by (metis list.distinct(1), metis list.sel(1))
        moreover have "\<not> (stop \<le> start \<or> length bytes < stop)" "\<not> (P = [] \<and> rr_remaining self - (stop - start) \<noteq> 0)"
          using n(2,3,7) by auto
        ultimately show ?thesis using n(1,4,6) f pend good Leaf
          by (subst range_next_inner.simps)
            (auto simp add: range_outcome_def Let_def simp del: diff_diff_right simp flip: start_def stop_def)
      next
        case (Index cs)
        let ?self2 = "self\<lparr>rr_pending := P @ rev (filter (meets (rr_start self) (rr_end self)) (with_offsets off cs))\<rparr>"
        note geo = verified_index [OF good(2) Index]
        note push = push_children_eq [of "rr_start self" "rr_end self" cs off P]
        have "pending_weight (rr_pending ?self2) < pending_weight (rr_pending self)"
        proof -
          have "pending_weight (rr_pending ?self2) \<le> pending_weight P + length cs * 129 ^ pr_height r"
            using push_children_weight [of "rev cs" "pr_height r" "rr_start self" "rr_end self" "off + sum_list (map pr_byte_len cs)" P]
              push geo by simp
          moreover have "length cs * 129 ^ pr_height r < 129 ^ Suc (pr_height r)" using geo by (simp add: le_imp_less_Suc)
          moreover have "pending_weight (rr_pending self) = pending_weight P + 129 ^ Suc (pr_height r)"
            using pend by (simp add: pending_weight_def)
          ultimately show ?thesis by linarith
        qed
        from less.hyps [OF this range_inv_index [OF inv pend good(2) Index Sb], of t']
        have "range_outcome C B fetch S ps (range_next_inner C B fetch (?self2, t'))" .
        moreover have "range_next_inner C B fetch (self, t) = range_next_inner C B fetch (?self2, t')"
          using f pend good Index off geo push by (subst range_next_inner.simps) (simp add: Let_def)
        ultimately show ?thesis by simp
      qed
    qed
  qed
qed

interpretation range_stream: item_stream "range_next_chunk C B fetch"
    "\<lambda>ps self. no_second_preimage B (on_page fetch) S \<and> range_inv C B S ps self \<and> \<not> rr_failed self" "serves (on_page fetch) S"
  for C :: "'m page_codec" and B and fetch :: "('t, 'e) page_fetch" and S
proof
  fix ps and s :: "range_reader \<times> 't"
  assume i: "no_second_preimage B (on_page fetch) S \<and> range_inv C B S ps (fst s) \<and> \<not> rr_failed (fst s)"
  let ?res = "range_next_chunk C B fetch s"
  obtain self' t' r where inner: "range_next_inner C B fetch s = ((self', t'), r)" by (metis prod.exhaust)
  have "range_outcome C B fetch S ps ((self', t'), r)"
    using range_next_inner_outcome [of C B S ps "fst s" fetch "snd s"] i inner by simp
  moreover have "snd ?res = r" using i inner by (simp add: range_next_chunk_def fenced_call_result)
  moreover have "?res = ((self'\<lparr>rr_failed := False\<rparr>, t'), Ok x)" if "r = Ok x" for x
    using i inner that by (simp add: range_next_chunk_def fenced_call_Ok)
  ultimately show "is_err (snd ?res) \<and> \<not> serves (on_page fetch) S
    \<or> snd ?res = Ok (if ps = [] then None else Some (hd ps))
      \<and> no_second_preimage B (on_page fetch) S \<and> range_inv C B S (tl ps) (fst (fst ?res)) \<and> \<not> rr_failed (fst (fst ?res))"
    using i by (auto simp: range_outcome_def)
qed

lemma range_run_honest:
  fixes C :: "'m page_codec"
  assumes tree: "tree_leaves C B scope sec S root = Some ls" and fetch: "serves (on_page fetch) S"
    and new: "range_new scope sec root lo hi = (Ok self :: ('m catalog_error, _) result)"
  shows "snd (run_ops (\<lambda>_. range_next_chunk C B fetch) (replicate n ()) (self, t)) = item_results (range_items lo hi ls) n"
  by (rule range_stream.run_honest [of B fetch S C "range_items lo hi ls" "(self, t)" n "()"])
    (use range_inv_new [OF new tree] fetch serves_no_second_preimage [OF fetch] in simp_all)

section \<open>Properties\<close>


text \<open>C39: A range read is safe over a dishonest store. Whatever bytes the callback returns, as long
  as it does not find a second page with a stored page's hash, every call before the first error
  returns the next part of the requested range, and \<open>None\<close> only when the whole range was returned.\<close>

theorem range_untrusted_fetch:
  fixes C :: "'m page_codec"
  assumes tree: "tree_leaves C B scope sec S root = Some ls" and hash: "no_second_preimage B (on_page fetch) S"
    and new: "range_new scope sec root lo hi = (Ok self :: ('m catalog_error, _) result)"
    and k: "k < n" "\<forall>j \<le> k. \<not> is_err (snd (run_ops (\<lambda>_. range_next_chunk C B fetch) (replicate n ()) (self, t)) ! j)"
  shows "snd (run_ops (\<lambda>_. range_next_chunk C B fetch) (replicate n ()) (self, t)) ! k =
    Ok (if k < length (range_items lo hi ls) then Some (range_items lo hi ls ! k) else None)"
  by (rule range_stream.run_safe [of B fetch S C "range_items lo hi ls" "(self, t)" k n "()"])
    (use range_inv_new [OF new tree] hash k in simp_all)

end
