(* ===== verification/Catalog_Stream.thy ===== *)
theory Catalog_Stream
  imports Catalog_Bounds Catalog_Range Catalog_Work
begin

text \<open>
  Writing and reading a paged catalog: \<open>CatalogBuilder\<close> and \<open>CatalogReader\<close> of
  \<open>src/crates/mb-core/src/catalog.rs\<close> composed through a page store.
\<close>

section \<open>Properties\<close>

text \<open>C1: Writing and reading a catalog is the identity on byte streams. If the pushes and \<open>finish\<close>
  succeed over a lawful store, then a reader of the returned root over any callback that serves the
  store's pages is accepted and returns the pushed bytes in order, in leaves of 61440 bytes (the last
  one shorter; one empty leaf for the empty stream), and then \<open>None\<close> forever.\<close>

theorem catalog_roundtrip:
  fixes C :: "'m page_codec"
  assumes C: "codec_roundtrip C" and sink: "lawful_sink sink lookup"
    and new: "builder_new scope sec = (Ok self0 :: ('m catalog_error, _) result)"
    and pushes: "run_ops (builder_push C B sink) parts (self0, t0) = (s1, rs)" "\<forall>r \<in> set rs. r = Ok ()"
    and fin: "builder_finish C B sink s1 = ((self', t'), Ok root)"
    and fetch: "serves fetch (lookup t')"
  shows "\<exists>rd ls. reader_new scope sec root = (Ok rd :: ('m catalog_error, _) result)
    \<and> ls = (if concat parts = [] then [[]] else chunks 61440 (concat parts)) \<and> concat ls = concat parts
    \<and> snd (run_ops (\<lambda>_. reader_next_leaf_with_path C B fetch) (replicate n ()) (rd, u)) =
        map (\<lambda>l. Ok (Some l)) (take n ls) @ replicate (n - length ls) (Ok None)"
proof -
  let ?ls = "if concat parts = [] then [[]] else chunks 61440 (concat parts)"
  have tree: "tree_leaves C B scope sec (lookup t') root = Some ?ls"
    by (rule builder_denotes [OF C sink new pushes fin])
  obtain enc p where "verify_page C B root scope sec enc = Ok p" using tree by (cases rule: tree_leaves_SomeE) auto
  then have "ref_validate root = (Ok () :: ('m catalog_error, unit) result)" by (rule verify_page_OkD(1))
  moreover have "scope_validate scope sec = (Ok () :: ('m catalog_error, unit) result)"
    using new by (auto simp: builder_new_def result_simps)
  ultimately obtain rd where rd: "reader_new scope sec root = (Ok rd :: ('m catalog_error, _) result)"
    by (simp add: reader_new_def)
  note inv = reader_inv_new [OF rd tree]
  have "snd (run_ops (\<lambda>_. reader_next_leaf_with_path C B fetch) (replicate n ()) (rd, u)) = item_results ?ls n"
    using reader_run_honest [of C B "lookup t'" ?ls "(rd, u)" fetch n] inv fetch by simp
  then show ?thesis using rd by (auto simp: item_results_def)
qed

section \<open>Instances\<close>

text \<open>A store in a map that refuses to replace a page by another.\<close>

definition sample_sink :: "(page_ref \<Rightarrow> byte list option, unit) page_sink" where
  "sample_sink r bs t = (if t r = None \<or> t r = Some bs then (t(r \<mapsto> bs), Ok ()) else (t, Err ()))"

definition sample_fetch :: "(page_ref \<Rightarrow> byte list option) \<Rightarrow> (unit, unit) path_fetch" where
  "sample_fetch S path u = (u, case S (last path) of None \<Rightarrow> Err () | Some enc \<Rightarrow> Ok enc)"

lemma sample_sink_lawful: "lawful_sink sample_sink (\<lambda>t. t)"
  by (auto simp: lawful_sink_def sample_sink_def map_le_def split: if_splits)

lemma sample_fetch_serves: "serves (sample_fetch S) S"
  by (simp add: serves_def sample_fetch_def)

definition sample_builder :: builder where
  "sample_builder = \<lparr>cb_scope = Guild 1, cb_section = Packing, cb_leaf = [], cb_levels = replicate 4 [],
     cb_byte_len = 0, cb_failed = False\<rparr>"

lemma sample_builder_new: "builder_new (Guild 1) Packing = Ok sample_builder"
  by (simp add: builder_new_def scope_validate_def sample_builder_def)

lemma sample_pushes:
  "run_ops (builder_push sample_page_codec sample_blake3 sample_sink) [[1, 2], [3]] (sample_builder, Map.empty) =
    ((sample_builder\<lparr>cb_leaf := [1, 2, 3], cb_byte_len := 3\<rparr>, Map.empty), [Ok (), Ok ()])"
  by (simp add: run_ops.simps builder_push_def fenced_call_def sample_builder_def builder_push_inner_def
      builder_push_loop_short)

definition sample_store :: "page_ref \<Rightarrow> byte list option" where
  "sample_store = [sample_ref [1, 2, 3] \<mapsto> [7, 1, 2, 3]]"

lemma sample_push:
  assumes "length l + length bs < 61440"
  shows "builder_push sample_page_codec sample_blake3 sample_sink bs (sample_builder\<lparr>cb_leaf := l, cb_byte_len := length l\<rparr>, t) =
    ((sample_builder\<lparr>cb_leaf := l @ bs, cb_byte_len := length (l @ bs)\<rparr>, t), Ok ())"
  using assms by (simp add: builder_push_def fenced_call_def sample_builder_def builder_push_inner_def builder_push_loop_short checked_add_def)

lemma sample_finish_leaf:
  assumes "bs \<noteq> []" "length bs \<le> 61440"
  shows "builder_finish sample_page_codec sample_blake3 sample_sink (sample_builder\<lparr>cb_leaf := bs, cb_byte_len := length bs\<rparr>, Map.empty) =
    ((sample_builder\<lparr>cb_byte_len := length bs, cb_levels := [[sample_ref bs], [], [], []]\<rparr>, [sample_ref bs \<mapsto> 7 # bs]), Ok (sample_ref bs))"
proof -
  let ?b = "sample_builder\<lparr>cb_byte_len := length bs\<rparr>" and ?r = "sample_ref bs"
  have "builder_store sample_page_codec sample_blake3 sample_sink 0 (Leaf bs) (?b, Map.empty) =
      ((?b, [?r \<mapsto> 7 # bs]), Ok ?r)"
    using sample_encode [OF assms(2)]
    by (simp add: builder_store_def sample_builder_def sample_page_def sample_sink_def)
  moreover have "builder_append sample_page_codec sample_blake3 sample_sink ?r (?b, [?r \<mapsto> 7 # bs]) =
      ((?b\<lparr>cb_levels := [[?r], [], [], []]\<rparr>, [?r \<mapsto> 7 # bs]), Ok ())"
    by (subst builder_append.simps) (simp add: Let_def index_def sample_builder_def sample_ref_def eval_nat_numeral)
  moreover have "[0..<4] = [0, 1, 2, 3 :: nat]" by (simp add: upt_rec)
  ultimately show ?thesis using assms(1)
    by (simp add: builder_finish_def builder_flush_leaf_def op_then_def sample_builder_def index_def)
qed

lemma sample_finish:
  "builder_finish sample_page_codec sample_blake3 sample_sink (sample_builder\<lparr>cb_leaf := [1, 2, 3], cb_byte_len := 3\<rparr>, Map.empty) =
    ((sample_builder\<lparr>cb_byte_len := 3, cb_levels := [[sample_ref [1, 2, 3]], [], [], []]\<rparr>,
      sample_store), Ok (sample_ref [1, 2, 3]))"
  using sample_finish_leaf [of "[1, 2, 3]"] by (simp add: sample_store_def numeral_3_eq_3)

theorem catalog_roundtrip_witness:
  "\<exists>rd. reader_new (Guild 1) Packing (sample_ref [1, 2, 3]) = (Ok rd :: (unit catalog_error, _) result) \<and>
    snd (run_ops (\<lambda>_. reader_next_leaf_with_path sample_page_codec sample_blake3
        (sample_fetch sample_store)) (replicate 2 ()) (rd, ())) = [Ok (Some [1, 2, 3]), Ok None]"
  using catalog_roundtrip [OF sample_roundtrip sample_sink_lawful sample_builder_new sample_pushes _ sample_finish
      sample_fetch_serves, of 2 "()"] chunks_short [of "[1, 2, 3 :: byte]" 61440]
  by (auto simp del: run_ops_Cons)

lemma sample_tree: "tree_leaves sample_page_codec sample_blake3 (Guild 1) Packing sample_store (sample_ref [1, 2, 3]) = Some [[1, 2, 3]]"
  by (rule sample_tree_leaves) (simp_all add: sample_store_def)

definition sample_reader :: reader where
  "sample_reader = \<lparr>cr_scope = Guild 1, cr_section = Packing, cr_root = sample_ref [1, 2, 3],
     cr_pending = [sample_ref [1, 2, 3]], cr_path = [], cr_visited = 0, cr_byte_len = 0, cr_failed = False\<rparr>"

lemma sample_reader_new: "reader_new (Guild 1) Packing (sample_ref [1, 2, 3]) = Ok sample_reader"
  by (simp add: reader_new_def scope_validate_def ref_validate_def sample_ref_def sample_reader_def)

theorem reader_exact_witness:
  "snd (run_ops (\<lambda>_. reader_next_leaf_with_path sample_page_codec sample_blake3 (sample_fetch sample_store))
      (replicate 2 ()) (sample_reader, ())) = [Ok (Some [1, 2, 3]), Ok None]"
  using reader_exact [OF sample_tree sample_fetch_serves sample_reader_new, of 2 "()"] by (simp del: run_ops_Cons)

theorem reader_untrusted_fetch_witness:
  "snd (run_ops (\<lambda>_. reader_next_leaf_with_path sample_page_codec sample_blake3 (sample_fetch sample_store))
      (replicate 1 ()) (sample_reader, ())) ! 0 = Ok (Some [1, 2, 3])"
proof -
  have "snd (run_ops (\<lambda>_. reader_next_leaf_with_path sample_page_codec sample_blake3 (sample_fetch sample_store))
      (replicate 1 ()) (sample_reader, ())) = [Ok (Some [1, 2, 3])]"
    using reader_run_honest [of sample_page_codec sample_blake3 sample_store "[[1, 2, 3]]" "(sample_reader, ())"
        "sample_fetch sample_store" 1] reader_inv_new [OF sample_reader_new sample_tree] sample_fetch_serves [of sample_store]
    by (simp add: item_results_def)
  then show ?thesis
    using reader_untrusted_fetch [OF sample_tree serves_no_second_preimage [OF sample_fetch_serves] sample_reader_new,
        of 0 1 "()"] by simp
qed

theorem reader_failure_is_final_witness:
  "\<exists>e'. snd (run_ops (\<lambda>_. reader_next_leaf_with_path sample_page_codec sample_blake3 (sample_fetch Map.empty))
      (replicate 2 ()) (sample_reader, ())) ! 1 = Err e'"
proof -
  have "snd (run_ops (\<lambda>_. reader_next_leaf_with_path sample_page_codec sample_blake3 (sample_fetch Map.empty))
      (replicate 2 ()) (sample_reader, ())) ! 0 = Err (Storage ())"
  proof -
    have "snd (reader_next_inner sample_page_codec sample_blake3 (sample_fetch Map.empty) (sample_reader, ())) = Err (Storage ())"
      by (subst reader_next_inner.simps) (simp add: sample_reader_def sample_fetch_def sample_ref_def Let_def)
    moreover have "replicate 2 () = [(), ()]" by (simp add: numeral_2_eq_2)
    ultimately show ?thesis by (simp add: reader_next_leaf_with_path_def fenced_call_result sample_reader_def)
  qed
  from reader_failure_is_final [OF _ _ this, of 1] show ?thesis by simp
qed

theorem reader_bounded_work_witness:
  "snd (snd (fst (run_ops (\<lambda>_. reader_next_leaf_with_path sample_page_codec sample_blake3 (counted (sample_fetch sample_store)))
      (replicate 5 ()) (sample_reader, ((), 0))))) \<le> 1 \<and> pr_page_occurrences (sample_ref [1, 2, 3]) \<le> CATALOG_MAX_PAGE_OCCURRENCES"
proof -
  let ?run = "run_ops (\<lambda>_. reader_next_leaf_with_path sample_page_codec sample_blake3 (counted (sample_fetch sample_store)))
    (replicate 5 ()) (sample_reader, ((), 0))"
  have "?run = ((fst (fst ?run), (fst (snd (fst ?run)), snd (snd (fst ?run)))), snd ?run)" by (simp only: prod.collapse)
  from reader_bounded_work [OF sample_reader_new this] show ?thesis by (simp add: sample_ref_def del: run_ops_Cons)
qed

definition sample_range :: range_reader where
  "sample_range = \<lparr>rr_scope = Guild 1, rr_section = Packing, rr_start = 1, rr_end = 3,
     rr_pending = [(sample_ref [1, 2, 3], 0)], rr_remaining = 2, rr_failed = False\<rparr>"

lemma sample_range_new: "range_new (Guild 1) Packing (sample_ref [1, 2, 3]) 1 3 = Ok sample_range"
  by (simp add: range_new_def scope_validate_def ref_validate_def sample_ref_def sample_range_def)

lemma sample_page_fetch_serves: "serves (on_page (\<lambda>r. sample_fetch S [r])) S"
  by (simp add: serves_def sample_fetch_def)


theorem range_untrusted_fetch_witness:
  "snd (run_ops (\<lambda>_. range_next_chunk sample_page_codec sample_blake3 (\<lambda>r. sample_fetch sample_store [r]))
      (replicate 1 ()) (sample_range, ())) ! 0 = Ok (Some [2, 3])"
proof -
  have "snd (run_ops (\<lambda>_. range_next_chunk sample_page_codec sample_blake3 (\<lambda>r. sample_fetch sample_store [r]))
      (replicate 1 ()) (sample_range, ())) = [Ok (Some [2, 3])]"
    using range_run_honest [OF sample_tree sample_page_fetch_serves sample_range_new, of 1 "()"]
    by (simp add: item_results_def range_items_def sub_def)
  then show ?thesis
    using range_untrusted_fetch [OF sample_tree serves_no_second_preimage [OF sample_page_fetch_serves] sample_range_new,
        of 0 1 "()"] by (simp add: range_items_def sub_def)
qed

text \<open>An encoding and a store for which the bounds alone decide.\<close>

definition constant_codec :: "unit page_codec" where
  "constant_codec = \<lparr>pc_encode = \<lambda>p. Inr [7], pc_decode = \<lambda>bs. Inl (), pc_too_long = ()\<rparr>"

definition accepting_sink :: "(unit, unit) page_sink" where
  "accepting_sink r bs t = (t, Ok ())"

theorem builder_never_fails_witness:
  "\<exists>s' root. builder_finish constant_codec sample_blake3 accepting_sink
      (fst (run_ops (builder_push constant_codec sample_blake3 accepting_sink) [[1, 2], [3]] (sample_builder, ()))) = (s', Ok root)"
  by (rule builder_never_fails [OF _ _ sample_builder_new, THEN conjunct2])
    (simp_all add: codec_fits_def total_sink_def constant_codec_def accepting_sink_def)

end
