(* ===== verification/Catalog_Records.thy ===== *)
theory Catalog_Records
  imports Catalog_Work Catalog_Stream
begin

text \<open>
  Record frames over a paged catalog, \<open>src/crates/mb-core/src/catalog/records.rs\<close>: a header, then each
  record with its length in four bytes. The builder writes them through \<open>CatalogBuilder\<close>, the reader
  takes them from the leaves of \<open>CatalogReader\<close>; a record may span any number of leaves. \<open>frames\<close> is the
  specification of the byte stream.
\<close>

section \<open>Roots\<close>

definition HEADER :: "byte list" where
  "HEADER = [77, 66, 67, 65, 84, 82, 1, 0]"

abbreviation (input) CATALOG_RECORD_BYTES :: nat where "CATALOG_RECORD_BYTES \<equiv> 49152"
abbreviation (input) CATALOG_MAX_RECORDS :: nat where "CATALOG_MAX_RECORDS \<equiv> 67108864"

lemma length_HEADER [simp]: "length HEADER = 8"
  by (simp add: HEADER_def)

lemma HEADER_not_Nil [simp]: "HEADER \<noteq> []"
  by (simp add: HEADER_def)

record record_root =
  ro_format_version :: nat
  ro_page :: page_ref
  ro_records :: nat

definition record_root_validate :: "record_root \<Rightarrow> ('m catalog_error, unit) result" where
  "record_root_validate self =
     and_then (ref_validate (ro_page self)) (\<lambda>_.
     if ro_format_version self \<noteq> 1 \<or> CATALOG_MAX_RECORDS < ro_records self
        \<or> pr_byte_len (ro_page self) < length HEADER + ro_records self * 5
        \<or> length HEADER + ro_records self * (4 + CATALOG_RECORD_BYTES) < pr_byte_len (ro_page self)
     then Err Bounds else Ok ())"

section \<open>Builder\<close>

record record_builder =
  rb_pages :: builder
  rb_records :: nat
  rb_header_written :: bool
  rb_failed :: bool

type_synonym ('t, 'm, 'e, 'a) record_builder_op = "(record_builder \<times> 't, ('m, 'e) stream_error, 'a) op"

definition record_builder_new :: "catalog_scope \<Rightarrow> catalog_section \<Rightarrow> ('m catalog_error, record_builder) result" where
  "record_builder_new scope sec =
     and_then (builder_new scope sec) (\<lambda>pages.
     Ok \<lparr>rb_pages = pages, rb_records = 0, rb_header_written = False, rb_failed = False\<rparr>)"

text \<open>\<open>pages.push(bytes, sink)\<close> on the page builder inside the record builder.\<close>

definition push_pages ::
    "'m page_codec \<Rightarrow> blake3 \<Rightarrow> ('t, 'e) page_sink \<Rightarrow> byte list \<Rightarrow> ('t, 'm, 'e, unit) record_builder_op" where
  "push_pages C B sink bytes = (\<lambda>(self, t).
     case builder_push C B sink bytes (rb_pages self, t) of
       ((pages, t'), r) \<Rightarrow> ((self\<lparr>rb_pages := pages\<rparr>, t'), r))"

definition push_frame ::
    "'m page_codec \<Rightarrow> blake3 \<Rightarrow> ('t, 'e) page_sink \<Rightarrow> byte list \<Rightarrow> ('t, 'm, 'e, unit) record_builder_op" where
  "push_frame C B sink encoded = (\<lambda>(self, t).
     if encoded = [] \<or> CATALOG_RECORD_BYTES < length encoded \<or> rb_records self = CATALOG_MAX_RECORDS
     then ((self, t), Err (Catalog Bounds))
     else
       op_then
         (if rb_header_written self then op_result (Ok ())
          else op_then (push_pages C B sink HEADER) (\<lambda>_. op_update (\<lambda>(self, t). (self\<lparr>rb_header_written := True\<rparr>, t))))
         (\<lambda>_. op_then (push_pages C B sink (be_bytes 4 (length encoded)))
         (\<lambda>_. op_then (push_pages C B sink encoded)
         (\<lambda>_ (self, t). case uadd 64 (rb_records self) 1 of
            Inl e \<Rightarrow> ((self, t), Inl e)
          | Inr n \<Rightarrow> ((self\<lparr>rb_records := n\<rparr>, t), Ok ())))) (self, t))"

definition record_push_encoded ::
    "'m page_codec \<Rightarrow> blake3 \<Rightarrow> ('t, 'e) page_sink \<Rightarrow> byte list \<Rightarrow> ('t, 'm, 'e, unit) record_builder_op" where
  "record_push_encoded C B sink encoded =
     fenced_call rb_failed (\<lambda>b. rb_failed_update (\<lambda>_. b)) (Catalog Failed) (push_frame C B sink encoded)"

text \<open>Postcard's \<open>to_slice\<close> is a parameter: the encoding of a value in a buffer of the given length, or
  its error, \<open>full\<close> when the buffer is too short.\<close>

definition record_push ::
    "'m page_codec \<Rightarrow> blake3 \<Rightarrow> ('v \<Rightarrow> nat \<Rightarrow> 'm + byte list) \<Rightarrow> 'm \<Rightarrow> ('t, 'e) page_sink \<Rightarrow> 'v \<Rightarrow> ('t, 'm, 'e, unit) record_builder_op" where
  "record_push C B to_slice full sink v =
     fenced_call rb_failed (\<lambda>b. rb_failed_update (\<lambda>_. b)) (Catalog Failed)
       (case to_slice v CATALOG_RECORD_BYTES of
          Inr encoded \<Rightarrow> push_frame C B sink encoded
        | Inl e \<Rightarrow> op_result (Err (Catalog (if e = full then Bounds else Model e))))"

definition record_finish ::
    "'m page_codec \<Rightarrow> blake3 \<Rightarrow> ('t, 'e) page_sink \<Rightarrow> ('t, 'm, 'e, record_root) record_builder_op" where
  "record_finish C B sink = (\<lambda>(self, t).
     if rb_failed self then ((self, t), Err (Catalog Failed))
     else op_then (if rb_header_written self then op_result (Ok ()) else push_pages C B sink HEADER)
       (\<lambda>_ (self, t). case builder_finish C B sink (rb_pages self, t) of
          ((pages, t'), Inl e) \<Rightarrow> ((self\<lparr>rb_pages := pages\<rparr>, t'), Inl e)
        | ((pages, t'), Inr page) \<Rightarrow>
            (let root = \<lparr>ro_format_version = 1, ro_page = page, ro_records = rb_records self\<rparr> in
             ((self\<lparr>rb_pages := pages\<rparr>, t'),
              and_then (map_err Catalog (record_root_validate root)) (\<lambda>_. Ok root)))) (self, t))"

interpretation record_builder: guarded rb_failed "\<lambda>b. rb_failed_update (\<lambda>_. b)" "Catalog Failed" "push_frame C B sink" for C B sink
  by unfold_locales simp

section \<open>Reader\<close>

record record_reader =
  fr_pages :: reader
  fr_root :: record_root
  fr_leaf :: "byte list"
  fr_position :: nat
  fr_records :: nat
  fr_header_checked :: bool
  fr_failed :: bool
  fr_byte_position :: nat
  fr_last_range :: "(nat \<times> nat) option"

type_synonym ('t, 'm, 'e, 'a) record_reader_op = "(record_reader \<times> 't, ('m, 'e) stream_error, 'a) op"

definition record_reader_new ::
    "catalog_scope \<Rightarrow> catalog_section \<Rightarrow> record_root \<Rightarrow> ('m catalog_error, record_reader) result" where
  "record_reader_new scope sec root =
     and_then (record_root_validate root) (\<lambda>_.
     and_then (reader_new scope sec (ro_page root)) (\<lambda>pages.
     Ok \<lparr>fr_pages = pages, fr_root = root, fr_leaf = [], fr_position = 0, fr_records = 0, fr_header_checked = False,
         fr_failed = False, fr_byte_position = 0, fr_last_range = None\<rparr>))"

text \<open>Every leaf the page reader returns uses up a page occurrence of its root, so the loop over empty
  leaves ends whatever \<open>fetch\<close> returns.\<close>

lemma reader_next_leaf_progress:
  assumes "reader_next_leaf C B fetch (self, t) = ((self', t'), Ok (Some l))"
  shows "pages_left self' < pages_left self"
proof -
  let ?f = "\<lambda>path t. if path = [] then (t, panic) else fetch (last path) t"
  obtain self1 where inner: "reader_next_inner C B ?f (self, t) = ((self1, t'), Ok (Some l))" "self' = self1\<lparr>cr_failed := False\<rparr>"
    using assms unfolding reader_next_leaf_def reader_next_leaf_with_path_def by (rule fenced_call_OkD)
  have "pages_left self' = pages_left self1" by (simp add: inner(2) pages_left_def)
  then show ?thesis using reader_next_inner_progress [OF inner(1)] by simp
qed

function ensure_leaf ::
    "'m page_codec \<Rightarrow> blake3 \<Rightarrow> ('t, 'e) page_fetch \<Rightarrow> ('t, 'm, 'e, bool) record_reader_op" where
  "ensure_leaf C B fetch (self, t) =
     (if fr_position self \<noteq> length (fr_leaf self) then ((self, t), Ok True)
      else case reader_next_leaf C B fetch (fr_pages self, t) of
        ((pages, t'), Inl e) \<Rightarrow> ((self\<lparr>fr_pages := pages\<rparr>, t'), Inl e)
      | ((pages, t'), Inr None) \<Rightarrow> ((self\<lparr>fr_pages := pages\<rparr>, t'), Ok False)
      | ((pages, t'), Inr (Some leaf)) \<Rightarrow>
          ensure_leaf C B fetch (self\<lparr>fr_pages := pages, fr_leaf := leaf, fr_position := 0\<rparr>, t'))"
  by pat_completeness auto
termination
  by (relation "measure (\<lambda>(C, B, fetch, self, t). pages_left (fr_pages self))") (auto dest: sym dest!: reader_next_leaf_progress)

declare ensure_leaf.simps [simp del]

lemma ensure_leaf_True:
  "ensure_leaf C B fetch (self, t) = ((self', t'), Ok True) \<Longrightarrow> fr_position self' \<noteq> length (fr_leaf self')"
proof (induction C B fetch "(self, t)" arbitrary: self t rule: ensure_leaf.induct)
  case (1 C B fetch self t)
  show ?case
  proof (cases "fr_position self = length (fr_leaf self)")
    case True
    obtain pages t1 r where n: "reader_next_leaf C B fetch (fr_pages self, t) = ((pages, t1), r)" by (metis surj_pair)
    with 1(2) True obtain leaf where "r = Ok (Some leaf)"
      "ensure_leaf C B fetch (self\<lparr>fr_pages := pages, fr_leaf := leaf, fr_position := 0\<rparr>, t1) = ((self', t'), Ok True)"
      by (subst (asm) ensure_leaf.simps) (auto split: sum.splits option.splits)
    with 1(1) [OF _ n [symmetric] refl] True show ?thesis by blast
  qed (use 1(2) in \<open>subst (asm) ensure_leaf.simps, simp\<close>)
qed

text \<open>\<open>read_exact\<close> returns the bytes it copies into its output of length \<open>n\<close>.\<close>

function read_exact ::
    "'m page_codec \<Rightarrow> blake3 \<Rightarrow> ('t, 'e) page_fetch \<Rightarrow> nat \<Rightarrow> ('t, 'm, 'e, byte list) record_reader_op" where
  "read_exact C B fetch n (self, t) =
     (if n = 0 then ((self, t), Ok [])
      else case ensure_leaf C B fetch (self, t) of
        (s, Inl e) \<Rightarrow> (s, Inl e)
      | (s, Inr False) \<Rightarrow> (s, Err (Catalog InvalidPage))
      | ((self', t'), Inr True) \<Rightarrow>
          if length (fr_leaf self') < fr_position self' then ((self', t'), panic)
          else let k = min n (length (fr_leaf self') - fr_position self');
                   bytes = sub (fr_leaf self') (fr_position self') k;
                   self'' = self'\<lparr>fr_position := fr_position self' + k\<rparr> in
            (case checked_add 64 (fr_byte_position self') k of
               None \<Rightarrow> ((self'', t'), Err (Catalog Bounds))
             | Some p \<Rightarrow>
                 if pr_byte_len (ro_page (fr_root self')) < p then ((self'', t'), Err (Catalog Bounds))
                 else case read_exact C B fetch (n - k) (self''\<lparr>fr_byte_position := p\<rparr>, t') of
                   (s, r) \<Rightarrow> (s, and_then r (\<lambda>rest. Ok (bytes @ rest)))))"
  by pat_completeness auto
termination
  by (relation "measure (\<lambda>(C, B, fetch, n, self, t). n)") (simp, clarsimp, drule ensure_leaf_True [OF sym], simp)

declare read_exact.simps [simp del]

text \<open>\<open>next_inner\<close> in parts: the header, read once, the next record, and the check for trailing bytes after
  the last one.\<close>

definition record_check_header ::
    "'m page_codec \<Rightarrow> blake3 \<Rightarrow> ('t, 'e) page_fetch \<Rightarrow> ('t, 'm, 'e, unit) record_reader_op" where
  "record_check_header C B fetch = (\<lambda>(self, t).
     if fr_header_checked self then ((self, t), Ok ())
     else op_then (read_exact C B fetch (length HEADER))
       (\<lambda>header. if header \<noteq> HEADER then op_result (Err (Catalog InvalidPage))
         else op_update (\<lambda>(self, t). (self\<lparr>fr_header_checked := True\<rparr>, t))) (self, t))"

definition record_yield ::
    "'m page_codec \<Rightarrow> blake3 \<Rightarrow> ('t, 'e) page_fetch \<Rightarrow> nat \<Rightarrow> byte list \<Rightarrow> ('t, 'm, 'e, byte list option) record_reader_op" where
  "record_yield C B fetch start bytes = (\<lambda>(self, t).
     case uadd 64 (fr_records self) 1 of
       Inl e \<Rightarrow> ((self, t), Inl e)
     | Inr n \<Rightarrow>
         op_then (if n = ro_records (fr_root self) then ensure_leaf C B fetch else op_result (Ok False))
           (\<lambda>more (self', t').
              if more then ((self', t'), Err (Catalog InvalidPage))
              else ((self'\<lparr>fr_last_range := Some (start, fr_byte_position self')\<rparr>, t'), Ok (Some bytes)))
           (self\<lparr>fr_records := n\<rparr>, t))"

definition record_next_body ::
    "'m page_codec \<Rightarrow> blake3 \<Rightarrow> ('t, 'e) page_fetch \<Rightarrow> ('t, 'm, 'e, byte list option) record_reader_op" where
  "record_next_body C B fetch = (\<lambda>(self, t).
     if fr_records self = ro_records (fr_root self) then
       op_then (ensure_leaf C B fetch) (\<lambda>more. op_result (if more then Err (Catalog InvalidPage) else Ok None)) (self, t)
     else
       op_then (read_exact C B fetch 4) (\<lambda>len.
       if from_be_bytes len = 0 \<or> CATALOG_RECORD_BYTES < from_be_bytes len then op_result (Err (Catalog Bounds))
       else op_then (read_exact C B fetch (from_be_bytes len)) (record_yield C B fetch (fr_byte_position self))) (self, t))"

definition record_next_inner ::
    "'m page_codec \<Rightarrow> blake3 \<Rightarrow> ('t, 'e) page_fetch \<Rightarrow> ('t, 'm, 'e, byte list option) record_reader_op" where
  "record_next_inner C B fetch = op_then (record_check_header C B fetch) (\<lambda>_. record_next_body C B fetch)"

definition record_next ::
    "'m page_codec \<Rightarrow> blake3 \<Rightarrow> ('t, 'e) page_fetch \<Rightarrow> ('t, 'm, 'e, byte list option) record_reader_op" where
  "record_next C B fetch =
     fenced_call fr_failed (\<lambda>b. fr_failed_update (\<lambda>_. b)) (Catalog Failed)
       (\<lambda>(self, t). record_next_inner C B fetch (self\<lparr>fr_last_range := None\<rparr>, t))"

definition last_record_range :: "record_reader \<Rightarrow> (nat \<times> nat) option" where
  "last_record_range self = (if fr_failed self then None else fr_last_range self)"

interpretation record_reader: guarded fr_failed "\<lambda>b. fr_failed_update (\<lambda>_. b)" "Catalog Failed"
    "\<lambda>_ :: unit. \<lambda>(self, t). record_next_inner C B fetch (self\<lparr>fr_last_range := None\<rparr>, t)" for C B fetch
  by unfold_locales simp

text \<open>\<open>push\<close> of a value that encodes is \<open>push_encoded\<close> of its encoding; of one that does not it fails and
  writes nothing.\<close>

lemma record_push_encodes:
  "to_slice v CATALOG_RECORD_BYTES = Inr encoded \<Longrightarrow> record_push C B to_slice full sink v = record_push_encoded C B sink encoded"
  "to_slice v CATALOG_RECORD_BYTES = Inl e \<Longrightarrow> \<not> rb_failed self \<Longrightarrow>
    record_push C B to_slice full sink v (self, t) = ((self\<lparr>rb_failed := True\<rparr>, t), Err (Catalog (if e = full then Bounds else Model e)))"
  by (simp_all add: record_push_def record_push_encoded_def fenced_call_def)

end
