(* ===== verification/Catalog_Frames.thy ===== *)
theory Catalog_Frames
  imports Catalog_Records
begin

text \<open>
  What the record builder and reader of \<open>src/crates/mb-core/src/catalog/records.rs\<close> promise. \<open>frames\<close> is the
  byte stream of a list of records; the builder stores exactly it, and the reader returns records
  only from it.
\<close>

section \<open>Specification\<close>

definition frame :: "byte list \<Rightarrow> byte list" where
  "frame r = be_bytes 4 (length r) @ r"

definition frames :: "byte list list \<Rightarrow> byte list" where
  "frames rs = HEADER @ concat (map frame rs)"

definition record_ok :: "byte list \<Rightarrow> bool" where
  "record_ok r \<longleftrightarrow> r \<noteq> [] \<and> length r \<le> CATALOG_RECORD_BYTES"

lemma length_frame [simp]: "length (frame r) = 4 + length r"
  by (simp add: frame_def)

lemma frame_not_Nil [simp]: "frame r \<noteq> []"
  using length_frame [of r] by (metis add_is_0 list.size(3) zero_neq_numeral)

lemma frame_take: "record_ok r \<Longrightarrow> from_be_bytes (take 4 (frame r @ rest)) = length r \<and> drop 4 (frame r @ rest) = r @ rest"
  by (simp add: frame_def record_ok_def from_be_bytes_be_bytes)

lemma be_bytes_from_be_bytes: "length bs = k \<Longrightarrow> be_bytes k (from_be_bytes bs) = bs"
proof (induction k arbitrary: bs)
  case (Suc k)
  obtain cs c where bs: "bs = cs @ [c]" "length cs = k" using Suc.prems by (cases bs rule: rev_cases) auto
  have "unat c < 256" using unsigned_less [of c] by simp
  then show ?case using bs Suc.IH by (simp add: from_be_bytes_snoc)
qed simp

text \<open>A stream of \<open>n\<close> frames.\<close>

definition framed :: "nat \<Rightarrow> byte list \<Rightarrow> bool" where
  "framed n data \<longleftrightarrow> (\<exists>rs. data = concat (map frame rs) \<and> length rs = n \<and> (\<forall>r \<in> set rs. record_ok r))"

lemma framed_0 [simp]: "framed 0 data \<longleftrightarrow> data = []"
  by (auto simp: framed_def)

lemma framed_Suc: "framed (Suc n) data \<longleftrightarrow> (\<exists>r rest. data = frame r @ rest \<and> record_ok r \<and> framed n rest)"
proof
  assume "\<exists>r rest. data = frame r @ rest \<and> record_ok r \<and> framed n rest"
  then obtain r rs where "data = frame r @ concat (map frame rs)" "record_ok r" "length rs = n" "\<forall>r \<in> set rs. record_ok r"
    by (auto simp: framed_def)
  then show "framed (Suc n) data" unfolding framed_def by (intro exI [of _ "r # rs"]) simp
next
  assume "framed (Suc n) data"
  then obtain rs where rs: "data = concat (map frame rs)" "length rs = Suc n" "\<forall>r \<in> set rs. record_ok r" by (auto simp: framed_def)
  then show "\<exists>r rest. data = frame r @ rest \<and> record_ok r \<and> framed n rest"
    unfolding framed_def by (cases rs) (auto intro!: exI)
qed

lemma framed_split:
  assumes "framed (Suc n) data"
  shows "4 \<le> length data" "0 < from_be_bytes (take 4 data)" "from_be_bytes (take 4 data) \<le> 49152"
    "from_be_bytes (take 4 data) \<le> length (drop 4 data)" "framed n (drop (from_be_bytes (take 4 data)) (drop 4 data))"
  using assms frame_take by (auto simp: framed_Suc record_ok_def)

lemma split_frame:
  assumes "4 \<le> length data" "0 < from_be_bytes (take 4 data)" "from_be_bytes (take 4 data) \<le> 49152"
    "from_be_bytes (take 4 data) \<le> length (drop 4 data)"
  shows "data = frame (take (from_be_bytes (take 4 data)) (drop 4 data)) @ drop (from_be_bytes (take 4 data)) (drop 4 data)"
    "record_ok (take (from_be_bytes (take 4 data)) (drop 4 data))"
proof -
  let ?n = "from_be_bytes (take 4 data)"
  have "frame (take ?n (drop 4 data)) = take 4 data @ take ?n (drop 4 data)"
    using assms(1,4) be_bytes_from_be_bytes [of "take 4 data" 4] by (simp add: frame_def min_absorb2)
  then show "data = frame (take ?n (drop 4 data)) @ drop ?n (drop 4 data)" by (simp only: append_assoc append_take_drop_id)
  show "record_ok (take ?n (drop 4 data))" using assms by (auto simp: record_ok_def)
qed

section \<open>Builder\<close>

text \<open>The page builder has accepted \<open>data\<close> since \<open>s0\<close>.\<close>

definition pushed ::
    "'m page_codec \<Rightarrow> blake3 \<Rightarrow> ('t, 'e) page_sink \<Rightarrow> builder \<times> 't \<Rightarrow> byte list \<Rightarrow> builder \<times> 't \<Rightarrow> bool" where
  "pushed C B sink s0 data s \<longleftrightarrow>
     (\<exists>parts oks. run_ops (builder_push C B sink) parts s0 = (s, oks) \<and> (\<forall>r \<in> set oks. r = Ok ()) \<and> concat parts = data)"

lemma pushed_refl: "pushed C B sink s0 [] s0"
  unfolding pushed_def by (intro exI [of _ "[]"]) simp

lemma pushed_step:
  assumes "pushed C B sink s0 data (rb_pages self, t)" "push_pages C B sink bytes (self, t) = ((self', t'), Inr x)"
  shows "pushed C B sink s0 (data @ bytes) (rb_pages self', t')
    \<and> rb_header_written self' = rb_header_written self \<and> rb_records self' = rb_records self"
proof -
  obtain parts oks where run: "run_ops (builder_push C B sink) parts s0 = ((rb_pages self, t), oks)"
    "\<forall>r \<in> set oks. r = Ok ()" "concat parts = data"
    using assms(1) by (auto simp: pushed_def)
  obtain pages where p: "builder_push C B sink bytes (rb_pages self, t) = ((pages, t'), Ok ())" "self' = self\<lparr>rb_pages := pages\<rparr>"
    using assms(2) by (auto simp: push_pages_def split: prod.splits)
  have "run_ops (builder_push C B sink) (parts @ [bytes]) s0 = ((pages, t'), oks @ [Ok ()])"
    using run(1) p(1) by (simp add: run_ops_append run_ops.simps(2))
  with run(2,3) p(2) show ?thesis
    unfolding pushed_def by (auto intro!: exI [of _ "parts @ [bytes]"])
qed

definition wrote ::
    "'m page_codec \<Rightarrow> blake3 \<Rightarrow> ('t, 'e) page_sink \<Rightarrow> builder \<times> 't \<Rightarrow> byte list list \<Rightarrow> record_builder \<times> 't \<Rightarrow> bool" where
  "wrote C B sink s0 rs s \<longleftrightarrow>
     pushed C B sink s0 (if rb_header_written (fst s) then frames rs else []) (rb_pages (fst s), snd s)
   \<and> (\<not> rb_header_written (fst s) \<longrightarrow> rs = []) \<and> rb_records (fst s) = length rs \<and> (\<forall>r \<in> set rs. record_ok r)"

lemma push_frame_wrote:
  assumes "wrote C B sink s0 rs (self, t)" "push_frame C B sink r (self, t) = ((self', t'), Inr x)"
  shows "wrote C B sink s0 (rs @ [r]) (self', t')"
proof -
  have r: "record_ok r" "rb_records self \<noteq> CATALOG_MAX_RECORDS" using assms(2) by (auto simp: push_frame_def record_ok_def split: if_splits)
  have "op_then
      (if rb_header_written self then op_result (Ok ())
       else op_then (push_pages C B sink HEADER) (\<lambda>_. op_update (\<lambda>(self, t). (self\<lparr>rb_header_written := True\<rparr>, t))))
      (\<lambda>_. op_then (push_pages C B sink (be_bytes 4 (length r)))
      (\<lambda>_. op_then (push_pages C B sink r)
      (\<lambda>_ (self, t). case uadd 64 (rb_records self) 1 of
         Inl e \<Rightarrow> ((self, t), Inl e) | Inr n \<Rightarrow> ((self\<lparr>rb_records := n\<rparr>, t), Ok ())))) (self, t) = ((self', t'), Inr x)"
    using assms(2) r unfolding push_frame_def record_ok_def by simp
  then obtain self1 t1 self2 t2 self3 t3 n where
    h: "(if rb_header_written self then op_result (Ok ())
         else op_then (push_pages C B sink HEADER) (\<lambda>_. op_update (\<lambda>(self, t). (self\<lparr>rb_header_written := True\<rparr>, t)))) (self, t) = ((self1, t1), Ok ())"
    and l: "push_pages C B sink (be_bytes 4 (length r)) (self1, t1) = ((self2, t2), Ok ())"
    and b: "push_pages C B sink r (self2, t2) = ((self3, t3), Ok ())"
    and n: "n = Suc (rb_records self3)" "self' = self3\<lparr>rb_records := n\<rparr>" "t' = t3"
    unfolding op_then_Inr by (clarsimp split: sum.splits)
  have 1: "pushed C B sink s0 (frames rs) (rb_pages self1, t1)" "rb_header_written self1" "rb_records self1 = length rs"
  proof -
    have "pushed C B sink s0 (frames rs) (rb_pages self1, t1) \<and> rb_header_written self1 \<and> rb_records self1 = length rs"
    proof (cases "rb_header_written self")
      case False
      then obtain self0 where "push_pages C B sink HEADER (self, t) = ((self0, t1), Ok ())" "self1 = self0\<lparr>rb_header_written := True\<rparr>"
        using h by (auto simp: op_then_Inr op_update_def)
      then show ?thesis using pushed_step [of C B sink s0 "[]" self t HEADER self0 t1] False assms(1)
        by (auto simp: wrote_def frames_def)
    qed (use h assms(1) in \<open>auto simp: wrote_def\<close>)
    then show "pushed C B sink s0 (frames rs) (rb_pages self1, t1)" "rb_header_written self1" "rb_records self1 = length rs" by auto
  qed
  note 2 = pushed_step [OF 1(1) l]
  note 3 = pushed_step [OF 2 [THEN conjunct1] b]
  show ?thesis using 2 3 1 n r assms(1) by (auto simp: wrote_def frames_def frame_def)
qed

lemma record_push_wrote:
  assumes "wrote C B sink s0 rs (self, t)" "record_push_encoded C B sink r (self, t) = ((self', t'), Inr x)"
  shows "wrote C B sink s0 (rs @ [r]) (self', t')"
proof -
  obtain self1 where "push_frame C B sink r (self, t) = ((self1, t'), Inr x)" "self' = self1\<lparr>rb_failed := False\<rparr>"
    using assms(2) unfolding record_push_encoded_def by (rule fenced_call_OkD)
  with push_frame_wrote [OF assms(1) this(1)] show ?thesis by (auto simp: wrote_def)
qed

lemma record_pushes_wrote:
  assumes "wrote C B sink s0 rs s" "run_ops (record_push_encoded C B sink) vs s = (s', oks)" "\<forall>r \<in> set oks. r = Ok ()"
  shows "wrote C B sink s0 (rs @ vs) s'"
  using assms
proof (induction vs arbitrary: rs s oks)
  case (Cons v vs)
  obtain self t self1 t1 x where p: "s = (self, t)" "record_push_encoded C B sink v (self, t) = ((self1, t1), x)" by (metis surj_pair)
  obtain oks' where rest: "run_ops (record_push_encoded C B sink) vs (self1, t1) = (s', oks')" "oks = x # oks'"
    using Cons.prems(2) p by (auto simp: run_ops.simps(2) split: prod.splits)
  have "wrote C B sink s0 (rs @ [v]) (self1, t1)"
    using record_push_wrote [of C B sink s0 rs self t v self1 t1 "()"] Cons.prems(1,3) p rest(2) by simp
  from Cons.IH [OF this rest(1)] show ?case using Cons.prems(3) rest(2) by simp
qed simp

lemma record_finish_denotes:
  fixes C :: "'m page_codec"
  assumes C: "codec_roundtrip C" and sink: "lawful_sink sink lookup"
    and new: "builder_new scope sec = (Ok pages0 :: ('m catalog_error, _) result)"
    and wrote: "wrote C B sink (pages0, t0) rs (self, t)"
    and fin: "record_finish C B sink (self, t) = ((self', t'), Ok root)"
  shows "(\<exists>ls. tree_leaves C B scope sec (lookup t') (ro_page root) = Some ls \<and> concat ls = frames rs)
    \<and> ro_records root = length rs \<and> record_root_validate root = (Ok () :: ('m catalog_error, _) result)"
proof -
  have nf: "\<not> rb_failed self" using fin by (auto simp: record_finish_def split: if_splits)
  obtain self1 t1 where h: "(if rb_header_written self then op_result (Ok ()) else push_pages C B sink HEADER) (self, t) = ((self1, t1), Ok ())"
    using fin nf unfolding record_finish_def by (simp add: op_then_Inr) metis
  have 1: "pushed C B sink (pages0, t0) (frames rs) (rb_pages self1, t1) \<and> rb_records self1 = length rs"
  proof (cases "rb_header_written self")
    case False
    then show ?thesis using wrote h pushed_step [of C B sink "(pages0, t0)" "[]" self t HEADER self1 t1 "()"]
      by (simp add: wrote_def frames_def)
  qed (use h wrote in \<open>auto simp: wrote_def\<close>)
  obtain pages t2 r where f: "builder_finish C B sink (rb_pages self1, t1) = ((pages, t2), r)" by (metis surj_pair)
  have "(case r of Inl e \<Rightarrow> ((self1\<lparr>rb_pages := pages\<rparr>, t2), Inl e)
    | Inr page \<Rightarrow> (let root = \<lparr>ro_format_version = 1, ro_page = page, ro_records = rb_records self1\<rparr> in
         ((self1\<lparr>rb_pages := pages\<rparr>, t2), and_then (map_err Catalog (record_root_validate root)) (\<lambda>_. Ok root)))) = ((self', t'), Ok root)"
    using fin nf h f unfolding record_finish_def op_then_def by (simp split: sum.splits)
  then obtain page where p: "r = Ok page" "t' = t2" "root = \<lparr>ro_format_version = 1, ro_page = page, ro_records = rb_records self1\<rparr>"
    "record_root_validate root = (Ok () :: ('m catalog_error, _) result)"
    by (auto simp: Let_def and_then_Ok_iff map_err_Ok_iff split: sum.splits)
  obtain parts oks where parts: "run_ops (builder_push C B sink) parts (pages0, t0) = ((rb_pages self1, t1), oks)"
    "\<forall>r \<in> set oks. r = Ok ()" "concat parts = frames rs" using 1 by (auto simp: pushed_def)
  from builder_denotes [OF C sink new parts(1,2) f [unfolded p(1)]] parts(3) p 1
  show ?thesis by (auto simp: concat_chunks frames_def)
qed

section \<open>Reader\<close>

text \<open>\<open>data\<close> is what the reader has still to consume of the bytes its root denotes.\<close>

definition record_inv ::
    "'m page_codec \<Rightarrow> blake3 \<Rightarrow> (page_ref \<Rightarrow> byte list option) \<Rightarrow> byte list \<Rightarrow> record_reader \<Rightarrow> bool" where
  "record_inv C B S data self \<longleftrightarrow>
     (\<exists>ls. reader_inv C B S ls (fr_pages self) \<and> \<not> cr_failed (fr_pages self)
        \<and> data = drop (fr_position self) (fr_leaf self) @ concat ls)
   \<and> fr_position self \<le> length (fr_leaf self)
   \<and> fr_byte_position self + length data = pr_byte_len (ro_page (fr_root self))
   \<and> pr_byte_len (ro_page (fr_root self)) \<le> 17179869184"

lemma record_inv_fields [simp]:
  "record_inv C B S d (self\<lparr>fr_last_range := p\<rparr>) = record_inv C B S d self"
  "record_inv C B S d (self\<lparr>fr_records := n\<rparr>) = record_inv C B S d self"
  "record_inv C B S d (self\<lparr>fr_header_checked := b\<rparr>) = record_inv C B S d self"
  "record_inv C B S d (self\<lparr>fr_failed := b\<rparr>) = record_inv C B S d self"
  by (simp_all add: record_inv_def)

text \<open>The fields reading bytes leaves alone.\<close>

definition same_records :: "record_reader \<Rightarrow> record_reader \<Rightarrow> bool" where
  "same_records a b \<longleftrightarrow> fr_root b = fr_root a \<and> fr_records b = fr_records a \<and> fr_header_checked b = fr_header_checked a
     \<and> fr_failed b = fr_failed a"

lemma same_records_refl [simp]: "same_records a a"
  by (simp add: same_records_def)

lemma same_records_trans: "same_records a b \<Longrightarrow> same_records b c \<Longrightarrow> same_records a c"
  by (simp add: same_records_def)

lemma serves_leaf_fetch:
  "serves (\<lambda>path t. if path = [] then (t, panic) else fetch (last path) t) S = serves (on_page fetch) S"
  "no_second_preimage B (\<lambda>path t. if path = [] then (t, panic) else fetch (last path) t) S = no_second_preimage B (on_page fetch) S"
  by (auto simp: serves_def no_second_preimage_def)

lemma reader_next_leaf_outcome:
  assumes "reader_inv C B S ls self" "\<not> cr_failed self" "no_second_preimage B (on_page fetch) S"
    "reader_next_leaf C B fetch (self, t) = ((self', t'), r)"
  shows "is_err r \<and> \<not> serves (on_page fetch) S
    \<or> r = Ok (if ls = [] then None else Some (hd ls)) \<and> reader_inv C B S (tl ls) self' \<and> \<not> cr_failed self'"
  using reader_stream.outcome [of B "\<lambda>path t. if path = [] then (t, panic) else fetch (last path) t" S C ls "(self, t)"] assms
  unfolding serves_leaf_fetch reader_next_leaf_def by auto

lemma ensure_leaf_outcome:
  assumes "record_inv C B S data self" "no_second_preimage B (on_page fetch) S"
    "ensure_leaf C B fetch (self, t) = ((self', t'), r)"
  shows "is_err r \<and> \<not> serves (on_page fetch) S
    \<or> r = Ok (data \<noteq> []) \<and> record_inv C B S data self' \<and> same_records self self' \<and> fr_byte_position self' = fr_byte_position self
      \<and> (data \<noteq> [] \<longrightarrow> fr_position self' < length (fr_leaf self'))"
  using assms
proof (induction C B fetch "(self, t)" arbitrary: self t rule: ensure_leaf.induct)
  case (1 C B fetch self t)
  obtain ls where ls: "reader_inv C B S ls (fr_pages self)" "\<not> cr_failed (fr_pages self)"
    "data = drop (fr_position self) (fr_leaf self) @ concat ls" "fr_position self \<le> length (fr_leaf self)"
    using "1.prems"(1) by (auto simp: record_inv_def)
  show ?case
  proof (cases "fr_position self = length (fr_leaf self)")
    case False
    then show ?thesis using "1.prems" ls(3,4) by (subst (asm) ensure_leaf.simps) (auto simp: drop_eq_Nil)
  next
    case True
    obtain pages t1 x where n: "reader_next_leaf C B fetch (fr_pages self, t) = ((pages, t1), x)" by (metis surj_pair)
    from reader_next_leaf_outcome [OF ls(1,2) "1.prems"(2) n]
    consider "is_err x" "\<not> serves (on_page fetch) S" | "ls = []" "x = Ok None" "reader_inv C B S [] pages" "\<not> cr_failed pages"
      | l ls' where "ls = l # ls'" "x = Ok (Some l)" "reader_inv C B S ls' pages" "\<not> cr_failed pages"
      by (cases ls) auto
    then show ?thesis
    proof cases
      case 1
      then show ?thesis using "1.prems"(3) n True by (subst (asm) ensure_leaf.simps) (auto split: sum.splits)
    next
      case 2
      then have "r = Ok False" "self' = self\<lparr>fr_pages := pages\<rparr>" "data = []"
        using "1.prems"(3) n True ls(3) by (subst (asm) ensure_leaf.simps, simp)+
      then show ?thesis using 2 "1.prems"(1) True by (auto simp: record_inv_def same_records_def intro!: exI [of _ "[]"])
    next
      case 3
      let ?self = "self\<lparr>fr_pages := pages, fr_leaf := l, fr_position := 0\<rparr>"
      have "record_inv C B S data ?self" using 3 "1.prems"(1) ls(3) True by (auto simp: record_inv_def)
      moreover have "ensure_leaf C B fetch (?self, t1) = ((self', t'), r)"
        using "1.prems"(3) n True 3(2) by (subst (asm) ensure_leaf.simps) simp
      moreover have "same_records ?self self' = same_records self self'" by (simp add: same_records_def)
      ultimately show ?thesis using "1.hyps" [OF _ n [symmetric] refl 3(2) refl] True "1.prems"(2) by simp
    qed
  qed
qed

lemma record_inv_consume:
  assumes "record_inv C B S data self" "k \<le> length (fr_leaf self) - fr_position self"
  shows "k \<le> length data \<and> sub (fr_leaf self) (fr_position self) k = take k data
    \<and> fr_byte_position self + k \<le> pr_byte_len (ro_page (fr_root self)) \<and> fr_byte_position self + k < 2 ^ 64
    \<and> record_inv C B S (drop k data) (self\<lparr>fr_position := fr_position self + k, fr_byte_position := fr_byte_position self + k\<rparr>)"
proof -
  obtain ls where ls: "reader_inv C B S ls (fr_pages self)" "\<not> cr_failed (fr_pages self)"
    "data = drop (fr_position self) (fr_leaf self) @ concat ls" "fr_position self \<le> length (fr_leaf self)"
    "fr_byte_position self + length data = pr_byte_len (ro_page (fr_root self))" "pr_byte_len (ro_page (fr_root self)) \<le> 17179869184"
    using assms(1) by (auto simp: record_inv_def)
  have k: "k \<le> length data" using assms(2) ls(3) by simp
  have "drop k data = drop (fr_position self + k) (fr_leaf self) @ concat ls" using assms(2) ls(3) by (simp add: add.commute)
  then show ?thesis using k assms(2) ls by (auto simp: record_inv_def sub_def)
qed

lemma read_exact_outcome:
  assumes "record_inv C B S data self" "no_second_preimage B (on_page fetch) S"
    "read_exact C B fetch n (self, t) = ((self', t'), r)"
  shows "is_err r \<and> (serves (on_page fetch) S \<longrightarrow> length data < n)
    \<or> n \<le> length data \<and> r = Ok (take n data) \<and> record_inv C B S (drop n data) self' \<and> same_records self self'"
  using assms
proof (induction n arbitrary: self t data r rule: less_induct)
  case (less n)
  show ?case
  proof (cases "n = 0")
    case True
    then show ?thesis using less.prems by (subst (asm) read_exact.simps) simp
  next
    case False
    obtain self1 t1 x where e: "ensure_leaf C B fetch (self, t) = ((self1, t1), x)" by (metis surj_pair)
    from ensure_leaf_outcome [OF less.prems(1) assms(2) e]
    consider "is_err x" "\<not> serves (on_page fetch) S" | "x = Ok False" "data = []"
      | "x = Ok True" "record_inv C B S data self1" "same_records self self1" "fr_position self1 < length (fr_leaf self1)"
      by auto
    then show ?thesis
    proof cases
      case 1
      then show ?thesis using less.prems(3) e False by (subst (asm) read_exact.simps) (auto split: sum.splits)
    next
      case 2
      then show ?thesis using less.prems(3) e False by (subst (asm) read_exact.simps) auto
    next
      case 3
      define k where "k = min n (length (fr_leaf self1) - fr_position self1)"
      let ?self = "self1\<lparr>fr_position := fr_position self1 + k, fr_byte_position := fr_byte_position self1 + k\<rparr>"
      note c = record_inv_consume [OF 3(2), of k, unfolded k_def, simplified, folded k_def]
      obtain s2 y where rec: "read_exact C B fetch (n - k) (?self, t1) = (s2, y)" by (rule prod.exhaust)
      have run: "((self', t'), r) = (s2, and_then y (\<lambda>rest. Ok (take k data @ rest)))"
        using less.prems(3) e False 3(1,4) c rec by (subst (asm) read_exact.simps) (simp add: Let_def k_def [symmetric] checked_add_def)
      have "is_err y \<and> (serves (on_page fetch) S \<longrightarrow> length (drop k data) < n - k)
        \<or> n - k \<le> length (drop k data) \<and> y = Ok (take (n - k) (drop k data)) \<and> record_inv C B S (drop (n - k) (drop k data)) self' \<and> same_records ?self self'"
        using less.IH [OF _ _ assms(2), of "n - k" "drop k data" ?self t1 y] c run rec 3(4) False by (simp add: k_def)
      moreover have "k \<le> n" by (simp add: k_def)
      moreover have "same_records ?self self' = same_records self self'" using 3(3) by (auto simp: same_records_def)
      moreover have "take k data @ take (n - k) (drop k data) = take n data" using \<open>k \<le> n\<close> take_add [of k "n - k" data] by simp
      ultimately show ?thesis using run c [THEN conjunct1] by (cases y) auto
    qed
  qed
qed

definition header_left :: "record_reader \<Rightarrow> byte list" where
  "header_left self = (if fr_header_checked self then [] else HEADER)"

lemma check_header_outcome:
  assumes "record_inv C B S data self" "no_second_preimage B (on_page fetch) S"
    "record_check_header C B fetch (self, t) = ((self', t'), r)"
  shows "is_err r \<and> \<not> (serves (on_page fetch) S \<and> (\<exists>rest. data = header_left self @ rest))
    \<or> r = Ok () \<and> (\<exists>rest. data = header_left self @ rest \<and> record_inv C B S rest self') \<and> fr_header_checked self'
      \<and> fr_root self' = fr_root self \<and> fr_records self' = fr_records self"
proof (cases "fr_header_checked self")
  case True
  then show ?thesis using assms by (simp add: record_check_header_def header_left_def)
next
  case False
  obtain self1 t1 x where x: "read_exact C B fetch (length HEADER) (self, t) = ((self1, t1), x)" by (metis surj_pair)
  from read_exact_outcome [OF assms(1,2) x]
  consider "is_err x" "serves (on_page fetch) S \<Longrightarrow> length data < 8" | "8 \<le> length data" "x = Ok (take 8 data)" "record_inv C B S (drop 8 data) self1" "same_records self self1"
    by auto
  then show ?thesis
  proof cases
    case 1
    then show ?thesis using x assms(3) False by (auto simp: record_check_header_def op_then_def header_left_def split: sum.splits)
  next
    case 2
    then have "take 8 data = HEADER \<longleftrightarrow> (\<exists>rest. data = HEADER @ rest)"
      by (metis append_eq_conv_conj append_take_drop_id length_HEADER)
    moreover have "data = take 8 data @ drop 8 data" by simp
    ultimately show ?thesis using 2 x assms(3) False
      by (cases "take 8 data = HEADER") (auto simp: record_check_header_def op_then_def op_update_def header_left_def same_records_def)
  qed
qed

definition yielded :: "'m page_codec \<Rightarrow> blake3 \<Rightarrow> (page_ref \<Rightarrow> byte list option) \<Rightarrow> byte list \<Rightarrow> record_reader \<Rightarrow> record_reader \<Rightarrow> bool" where
  "yielded C B S rest self self' \<longleftrightarrow> record_inv C B S rest self' \<and> (fr_records self' = ro_records (fr_root self) \<longrightarrow> rest = [])
     \<and> fr_records self < ro_records (fr_root self)
     \<and> fr_records self' = Suc (fr_records self) \<and> fr_root self' = fr_root self \<and> fr_header_checked self' = fr_header_checked self"

lemma record_yield_outcome:
  assumes inv: "record_inv C B S rest self" and nsp: "no_second_preimage B (on_page fetch) S"
    and run: "record_yield C B fetch start bytes (self, t) = ((self', t'), r)"
    and n: "fr_records self < ro_records (fr_root self)" "ro_records (fr_root self) \<le> CATALOG_MAX_RECORDS"
  shows "is_err r \<and> \<not> (serves (on_page fetch) S \<and> framed (ro_records (fr_root self) - Suc (fr_records self)) rest)
    \<or> r = Ok (Some bytes) \<and> yielded C B S rest self self'"
proof -
  let ?self = "self\<lparr>fr_records := Suc (fr_records self)\<rparr>"
  have inv': "record_inv C B S rest ?self" using inv by (simp add: record_inv_def)
  obtain self1 t1 x where x: "ensure_leaf C B fetch (?self, t) = ((self1, t1), x)" by (metis surj_pair)
  show ?thesis
  proof (cases "Suc (fr_records self) = ro_records (fr_root self)")
    case True
    then show ?thesis using ensure_leaf_outcome [OF inv' nsp x] x run n
      by (cases x) (auto simp: record_yield_def op_then_def yielded_def same_records_def split: if_splits)
  next
    case False
    then show ?thesis using inv' run n by (auto simp: record_yield_def op_then_def yielded_def)
  qed
qed

lemma next_body_outcome:
  assumes inv: "record_inv C B S data self" and nsp: "no_second_preimage B (on_page fetch) S"
    and run: "record_next_body C B fetch (self, t) = ((self', t'), r)"
    and n: "fr_records self \<le> ro_records (fr_root self)" "ro_records (fr_root self) \<le> CATALOG_MAX_RECORDS"
  shows "case r of
      Inl e \<Rightarrow> \<not> (serves (on_page fetch) S \<and> framed (ro_records (fr_root self) - fr_records self) data)
    | Inr None \<Rightarrow> data = [] \<and> fr_records self = ro_records (fr_root self) \<and> record_inv C B S [] self' \<and> same_records self self'
    | Inr (Some x) \<Rightarrow> record_ok x \<and> (\<exists>rest. data = frame x @ rest \<and> yielded C B S rest self self')"
proof (cases "fr_records self = ro_records (fr_root self)")
  case True
  obtain self1 t1 x where x: "ensure_leaf C B fetch (self, t) = ((self1, t1), x)" by (metis surj_pair)
  from ensure_leaf_outcome [OF inv nsp x] show ?thesis
    using x run True by (cases x) (auto simp: record_next_body_def op_then_def split: if_splits)
next
  case False
  let ?n = "from_be_bytes (take 4 data)"
  obtain self1 t1 x where x: "read_exact C B fetch 4 (self, t) = ((self1, t1), x)" by (metis surj_pair)
  obtain m where m: "ro_records (fr_root self) - fr_records self = Suc m" using False n by (metis diff_is_0_eq le_antisym not0_implies_Suc)
  note fs = framed_split [of m data]
  have bad: ?thesis if "r = Inl e" "\<not> (serves (on_page fetch) S \<and> framed (Suc m) data)" for e
    using that m by simp
  consider "is_err x" "\<not> (serves (on_page fetch) S \<and> framed (Suc m) data)"
    | "x = Ok (take 4 data)" "4 \<le> length data" "?n = 0 \<or> 49152 < ?n"
    | "x = Ok (take 4 data)" "4 \<le> length data" "0 < ?n" "?n \<le> 49152" "record_inv C B S (drop 4 data) self1" "same_records self self1"
    using read_exact_outcome [OF inv nsp x] fs(1) by force
  then show ?thesis
  proof cases
    case 1
    then obtain e where "r = Inl e" using x run False by (cases x) (auto simp: record_next_body_def op_then_def)
    then show ?thesis using bad 1(2) by blast
  next
    case 2
    then have "r = Err (Catalog Bounds)" using x run False by (auto simp: record_next_body_def op_then_def)
    then show ?thesis using bad 2(3) fs(2,3) by fastforce
  next
    case 3
    let ?rest = "drop ?n (drop 4 data)"
    obtain self2 t2 y where y: "read_exact C B fetch ?n (self1, t1) = ((self2, t2), y)" by (metis surj_pair)
    have body: "op_then (read_exact C B fetch ?n) (record_yield C B fetch (fr_byte_position self)) (self1, t1) = ((self', t'), r)"
      using run False x 3(1,3,4) by (simp add: record_next_body_def op_then_def [of "read_exact C B fetch 4"])
    from read_exact_outcome [OF 3(5) nsp y]
    consider "is_err y" "serves (on_page fetch) S \<longrightarrow> length (drop 4 data) < ?n"
      | "y = Ok (take ?n (drop 4 data))" "?n \<le> length (drop 4 data)" "record_inv C B S ?rest self2" "same_records self1 self2" by blast
    then show ?thesis
    proof cases
      case 1
      then obtain e where "r = Inl e" using body y by (cases y) (auto simp: op_then_def)
      then show ?thesis using bad 1(2) fs(4) by fastforce
    next
      case 2
      have same: "same_records self self2" using 3(6) 2(4) by (rule same_records_trans)
      have "record_yield C B fetch (fr_byte_position self) (take ?n (drop 4 data)) (self2, t2) = ((self', t'), r)"
        using body y 2(1) by (simp add: op_then_def)
      moreover have "ro_records (fr_root self) - Suc (fr_records self) = m" using m by simp
      moreover have "yielded C B S ?rest self2 self' = yielded C B S ?rest self self'" using same by (simp add: same_records_def yielded_def)
      ultimately
      have "is_err r \<and> \<not> (serves (on_page fetch) S \<and> framed m ?rest) \<or> r = Ok (Some (take ?n (drop 4 data))) \<and> yielded C B S ?rest self self'"
        using record_yield_outcome [OF 2(3) nsp, of "fr_byte_position self" "take ?n (drop 4 data)" t2 self' t' r] same n False
        by (simp add: same_records_def)
      then show ?thesis using split_frame [OF 3(2-4) 2(2)] bad fs(5) by (cases r) auto
    qed
  qed
qed

lemma record_next_outcome:
  assumes inv: "record_inv C B S data self" "\<not> fr_failed self" and nsp: "no_second_preimage B (on_page fetch) S"
    and n: "fr_records self \<le> ro_records (fr_root self)" "ro_records (fr_root self) \<le> CATALOG_MAX_RECORDS"
  shows "case record_next C B fetch (self, t) of ((self', t'), r) \<Rightarrow> (case r of
      Inl e \<Rightarrow> \<not> (serves (on_page fetch) S \<and> (\<exists>rest. data = header_left self @ rest \<and> framed (ro_records (fr_root self) - fr_records self) rest))
    | Inr v \<Rightarrow> \<not> fr_failed self' \<and> header_left self' = [] \<and> fr_root self' = fr_root self \<and>
       (case v of
          None \<Rightarrow> data = header_left self \<and> fr_records self = ro_records (fr_root self) \<and> fr_records self' = fr_records self \<and> record_inv C B S [] self'
        | Some x \<Rightarrow> record_ok x \<and> fr_records self < ro_records (fr_root self) \<and> fr_records self' = Suc (fr_records self) \<and>
            (\<exists>rest. data = header_left self @ frame x @ rest \<and> record_inv C B S rest self' \<and> (fr_records self' = ro_records (fr_root self) \<longrightarrow> rest = []))))"
proof -
  let ?self = "self\<lparr>fr_last_range := None\<rparr>"
  obtain self1 t1 x where h: "record_check_header C B fetch (?self, t) = ((self1, t1), x)" by (metis surj_pair)
  have hl: "header_left ?self = header_left self" by (simp add: header_left_def)
  note ho = check_header_outcome [OF _ nsp h, of data, unfolded hl, simplified, OF inv(1)]
  obtain self2 t2 y where b: "record_next_body C B fetch (self1, t1) = ((self2, t2), y)" by (metis surj_pair)
  show ?thesis
  proof (cases x)
    case (Inl e)
    then show ?thesis using ho h inv(2) by (auto simp: record_next_def record_next_inner_def op_then_def fenced_call_def split: stop.splits)
  next
    case (Inr u)
    then obtain rest where rest: "data = header_left self @ rest" "record_inv C B S rest self1" "fr_header_checked self1"
      "fr_root self1 = fr_root self" "fr_records self1 = fr_records self" using ho by auto
    note bo = next_body_outcome [OF rest(2) nsp b, unfolded rest(4,5), OF n]
    have run: "record_next C B fetch (self, t) = (case y of Inl Panic \<Rightarrow> ((self2, t2), panic) | _ \<Rightarrow> ((self2\<lparr>fr_failed := is_err y\<rparr>, t2), y))"
      using h b Inr inv(2) by (simp add: record_next_def record_next_inner_def op_then_def fenced_call_def)
    show ?thesis
    proof (cases y)
      case y: (Inl e)
      then show ?thesis using bo rest(1) unfolding run by (cases e) (auto simp: same_append_eq)
    next
      case y: (Inr v)
      then show ?thesis using bo rest unfolding run
        by (cases v) (auto simp: yielded_def same_records_def header_left_def)
    qed
  qed
qed

lemma record_reader_new_inv:
  assumes "record_reader_new scope sec root = (Ok self :: ('m catalog_error, _) result)"
    "tree_leaves C B scope sec S (ro_page root) = Some ls"
  shows "record_inv C B S (concat ls) self \<and> \<not> fr_failed self \<and> header_left self = HEADER \<and> fr_records self = 0
    \<and> fr_root self = root \<and> ro_records root \<le> CATALOG_MAX_RECORDS"
proof -
  obtain pages where p: "reader_new scope sec (ro_page root) = (Ok pages :: ('m catalog_error, _) result)"
    "record_root_validate root = (Ok () :: ('m catalog_error, _) result)"
    "self = \<lparr>fr_pages = pages, fr_root = root, fr_leaf = [], fr_position = 0, fr_records = 0, fr_header_checked = False,
       fr_failed = False, fr_byte_position = 0, fr_last_range = None\<rparr>"
    using assms(1) by (auto simp: record_reader_new_def and_then_Ok_iff)
  have "pr_byte_len (ro_page root) \<le> 17179869184" "ro_records root \<le> CATALOG_MAX_RECORDS"
    using p(2) by (auto simp: record_root_validate_def and_then_Ok_iff ref_validate_iff split: if_splits)
  then show ?thesis using reader_inv_new [OF p(1) assms(2)] tree_leaves_sizes [OF assms(2)] p(3)
    by (auto simp: record_inv_def header_left_def)
qed

text \<open>The records still to come of a well-framed stream.\<close>

definition records_left ::
    "'m page_codec \<Rightarrow> blake3 \<Rightarrow> (page_ref \<Rightarrow> byte list option) \<Rightarrow> byte list list \<Rightarrow> record_reader \<Rightarrow> bool" where
  "records_left C B S rs self \<longleftrightarrow> record_inv C B S (header_left self @ concat (map frame rs)) self \<and> \<not> fr_failed self
     \<and> (\<forall>r \<in> set rs. record_ok r) \<and> fr_records self + length rs = ro_records (fr_root self) \<and> ro_records (fr_root self) \<le> CATALOG_MAX_RECORDS"

lemma frame_inj: "record_ok r \<Longrightarrow> record_ok x \<Longrightarrow> frame r @ a = frame x @ b \<Longrightarrow> r = x \<and> a = b"
  using frame_take [of r a] frame_take [of x b] by (auto simp: append_eq_append_conv)

interpretation record_stream: item_stream "record_next C B fetch"
    "\<lambda>rs self. no_second_preimage B (on_page fetch) S \<and> records_left C B S rs self" "serves (on_page fetch) S"
  for C :: "'m page_codec" and B and fetch :: "('t, 'e) page_fetch" and S
proof
  fix rs and s :: "record_reader \<times> 't"
  assume i: "no_second_preimage B (on_page fetch) S \<and> records_left C B S rs (fst s)"
  obtain self t self' t' r where s: "s = (self, t)" "record_next C B fetch (self, t) = ((self', t'), r)" by (metis surj_pair)
  have left: "record_inv C B S (header_left self @ concat (map frame rs)) self" "\<not> fr_failed self" "\<forall>r \<in> set rs. record_ok r"
    "fr_records self + length rs = ro_records (fr_root self)" "ro_records (fr_root self) \<le> CATALOG_MAX_RECORDS"
    using i s(1) by (auto simp: records_left_def)
  have fr: "framed (ro_records (fr_root self) - fr_records self) (concat (map frame rs))" using left by (auto simp: framed_def)
  note o = record_next_outcome [OF left(1,2) conjunct1 [OF i] _ left(5), of t, unfolded s(2)]
  have "is_err r \<and> \<not> serves (on_page fetch) S \<or> r = Ok (if rs = [] then None else Some (hd rs)) \<and> records_left C B S (tl rs) self'"
  proof (cases rs)
    case Nil
    then show ?thesis using o left fr by (cases r) (auto simp: records_left_def split: option.splits)
  next
    case (Cons v vs)
    show ?thesis
    proof (cases r)
      case (Inl e)
      then show ?thesis using o left fr by auto
    next
      case (Inr w)
      then obtain x where w: "w = Some x" using o left(4) Cons by (cases w) auto
      then obtain rest where rest: "record_ok x" "frame v @ concat (map frame vs) = frame x @ rest" "record_inv C B S rest self'"
        "\<not> fr_failed self'" "header_left self' = []" "fr_root self' = fr_root self" "fr_records self' = Suc (fr_records self)"
        using o left(4) Cons Inr by simp blast
      have "record_ok v" using left(3) Cons by simp
      from frame_inj [OF this rest(1,2)] show ?thesis using rest left(3-5) Cons Inr w by (simp add: records_left_def)
    qed
  qed
  then show "is_err (snd (record_next C B fetch s)) \<and> \<not> serves (on_page fetch) S
    \<or> snd (record_next C B fetch s) = Ok (if rs = [] then None else Some (hd rs))
      \<and> no_second_preimage B (on_page fetch) S \<and> records_left C B S (tl rs) (fst (fst (record_next C B fetch s)))"
    using i s by simp
qed

lemma records_accepted:
  assumes "record_inv C B S data self" "\<not> fr_failed self" "no_second_preimage B (on_page fetch) S"
    "fr_records self \<le> ro_records (fr_root self)" "ro_records (fr_root self) \<le> CATALOG_MAX_RECORDS"
    "\<forall>r \<in> set (snd (run_ops (\<lambda>_. record_next C B fetch) (replicate n ()) (self, t))). \<not> is_err r"
    "Ok None \<in> set (snd (run_ops (\<lambda>_. record_next C B fetch) (replicate n ()) (self, t)))"
  shows "\<exists>rs. data = header_left self @ concat (map frame rs) \<and> (\<forall>r \<in> set rs. record_ok r)
    \<and> fr_records self + length rs = ro_records (fr_root self)
    \<and> snd (run_ops (\<lambda>_. record_next C B fetch) (replicate n ()) (self, t)) = item_results rs n"
  using assms
proof (induction n arbitrary: self t data)
  case (Suc n)
  obtain self' t' r where s: "record_next C B fetch (self, t) = ((self', t'), r)" by (metis surj_pair)
  obtain v where r: "r = Ok v" using Suc.prems(6) s by (cases r) auto
  note o = record_next_outcome [OF Suc.prems(1-5), of t, unfolded s r, simplified]
  show ?case
  proof (cases v)
    case None
    then have d: "data = header_left self" "fr_records self = ro_records (fr_root self)" using o by auto
    then have "records_left C B S [] self" using Suc.prems by (simp add: records_left_def)
    moreover have "\<forall>j \<le> k. \<not> is_err (snd (run_ops (\<lambda>_. record_next C B fetch) (replicate (Suc n) ()) (self, t)) ! j)" if "k < Suc n" for k
    proof (intro allI impI bspec [OF Suc.prems(6)] nth_mem)
      fix j assume "j \<le> k"
      then show "j < length (snd (run_ops (\<lambda>_. record_next C B fetch) (replicate (Suc n) ()) (self, t)))"
        using that by (simp only: length_run_ops length_replicate)
    qed
    ultimately have "snd (run_ops (\<lambda>_. record_next C B fetch) (replicate (Suc n) ()) (self, t)) ! k = Ok None" if "k < Suc n" for k
      using record_stream.run_safe [of B fetch S C "[]" "(self, t)" k "Suc n" "()"] Suc.prems(3) that by simp
    then have "snd (run_ops (\<lambda>_. record_next C B fetch) (replicate (Suc n) ()) (self, t)) = item_results [] (Suc n)"
      by (intro nth_equalityI) (simp_all only: item_results_nth length_run_ops length_replicate, simp_all add: item_results_def)
    with d show ?thesis by (intro exI [of _ "[]"]) simp
  next
    case (Some x)
    then obtain rest where rest: "record_ok x" "data = header_left self @ frame x @ rest" "record_inv C B S rest self'"
      "\<not> fr_failed self'" "header_left self' = []" "fr_root self' = fr_root self" "fr_records self' = Suc (fr_records self)"
      "fr_records self < ro_records (fr_root self)" using o by auto
    obtain rs where rs: "rest = concat (map frame rs)" "\<forall>r \<in> set rs. record_ok r" "fr_records self' + length rs = ro_records (fr_root self)"
      "snd (run_ops (\<lambda>_. record_next C B fetch) (replicate n ()) (self', t')) = item_results rs n"
      using Suc.IH [OF rest(3,4) Suc.prems(3), of t'] rest(5-8) Suc.prems(5-7) s r Some by auto
    show ?thesis using rest rs s r Some by (intro exI [of _ "x # rs"]) (simp add: item_results_Suc)
  qed
qed simp

section \<open>Properties\<close>

text \<open>C6: Records come back as they were written. If every \<open>push_encoded\<close> and \<open>finish\<close> succeed over a lawful
  store, then the returned root declares the number of pushed records, a record reader accepts it, and
  over any callback that serves the store's pages its calls return the records in order and then \<open>None\<close>
  forever, wherever the frames fall across leaves.\<close>

theorem records_roundtrip:
  fixes C :: "'m page_codec"
  assumes C: "codec_roundtrip C" and sink: "lawful_sink sink lookup"
    and new: "record_builder_new scope sec = (Ok self0 :: ('m catalog_error, _) result)"
    and pushes: "run_ops (record_push_encoded C B sink) rs (self0, t0) = (s1, oks)" "\<forall>r \<in> set oks. r = Ok ()"
    and fin: "record_finish C B sink s1 = ((self', t'), Ok root)"
    and fetch: "serves (on_page fetch) (lookup t')"
  shows "\<exists>rd. record_reader_new scope sec root = (Ok rd :: ('m catalog_error, _) result) \<and> ro_records root = length rs
    \<and> snd (run_ops (\<lambda>_. record_next C B fetch) (replicate n ()) (rd, u)) = item_results rs n"
proof -
  obtain pages0 where p: "builder_new scope sec = (Ok pages0 :: ('m catalog_error, _) result)"
    "self0 = \<lparr>rb_pages = pages0, rb_records = 0, rb_header_written = False, rb_failed = False\<rparr>"
    using new by (auto simp: record_builder_new_def and_then_Ok_iff)
  obtain self1 t1 where s1: "s1 = (self1, t1)" by (rule prod.exhaust)
  have "wrote C B sink (pages0, t0) [] (self0, t0)" using p(2) by (simp add: wrote_def pushed_refl)
  from record_pushes_wrote [OF this pushes] have w: "wrote C B sink (pages0, t0) rs (self1, t1)" by (simp add: s1)
  obtain ls where d: "tree_leaves C B scope sec (lookup t') (ro_page root) = Some ls" "concat ls = frames rs"
    "ro_records root = length rs" "record_root_validate root = (Ok () :: ('m catalog_error, _) result)"
    using record_finish_denotes [OF C sink p(1) w fin [unfolded s1]] by blast
  have "scope_validate scope sec = (Ok () :: ('m catalog_error, unit) result)" using p(1) by (auto simp: builder_new_def result_simps)
  moreover have "ref_validate (ro_page root) = (Ok () :: ('m catalog_error, unit) result)"
    using d(4) by (auto simp: record_root_validate_def and_then_Ok_iff)
  ultimately obtain rd where rd: "record_reader_new scope sec root = (Ok rd :: ('m catalog_error, _) result)"
    using d(4) by (simp add: record_reader_new_def reader_new_def)
  have "records_left C B (lookup t') rs rd"
    using record_reader_new_inv [OF rd d(1)] d(2,3) w by (simp add: records_left_def frames_def wrote_def)
  then have "snd (run_ops (\<lambda>_. record_next C B fetch) (replicate n ()) (rd, u)) = item_results rs n"
    using record_stream.run_honest [of B fetch "lookup t'" C rs "(rd, u)" n "()"] fetch serves_no_second_preimage by auto
  with rd d(3) show ?thesis by blast
qed

text \<open>C7: A record reader accepts only a complete and exact framing. Whoever wrote the pages, if over a
  callback that finds no second preimage a fresh reader reports the end of the stream and no error, then
  the authenticated bytes are the header and the frames of the returned records and nothing else, there
  are as many as the root declares, and each has 1 to 49152 bytes.\<close>

theorem records_accepted_exact:
  assumes "tree_leaves C B scope sec S (ro_page root) = Some ls" "no_second_preimage B (on_page fetch) S"
    "record_reader_new scope sec root = (Ok rd :: ('m catalog_error, _) result)"
    "\<forall>r \<in> set (snd (run_ops (\<lambda>_. record_next C B fetch) (replicate n ()) (rd, t))). \<not> is_err r"
    "Ok None \<in> set (snd (run_ops (\<lambda>_. record_next C B fetch) (replicate n ()) (rd, t)))"
  shows "\<exists>rs. concat ls = frames rs \<and> (\<forall>r \<in> set rs. record_ok r) \<and> length rs = ro_records root
    \<and> snd (run_ops (\<lambda>_. record_next C B fetch) (replicate n ()) (rd, t)) = item_results rs n"
  using records_accepted [of C B S "concat ls" rd fetch n t] record_reader_new_inv [OF assms(3,1)] assms(2,4,5)
  by (simp add: frames_def)

section \<open>Instances\<close>

abbreviation sample_records :: "byte list list" where "sample_records \<equiv> [[5], [6, 7]]"

definition sample_bytes :: "byte list" where
  "sample_bytes = HEADER @ [0, 0, 0, 1, 5, 0, 0, 0, 2, 6, 7]"

lemma sample_lengths: "be_bytes 4 (Suc 0) = [0, 0, 0, 1]" "be_bytes 4 2 = [0, 0, 0, 2]"
proof -
  have four: "4 = Suc (Suc (Suc (Suc 0)))" by simp
  show "be_bytes 4 (Suc 0) = [0, 0, 0, 1]" "be_bytes 4 2 = [0, 0, 0, 2]" unfolding four by simp_all
qed

lemma sample_frames: "frames sample_records = sample_bytes"
  by (simp add: frames_def frame_def sample_bytes_def sample_lengths numeral_2_eq_2 [symmetric])

definition sample_record_builder :: "byte list \<Rightarrow> nat \<Rightarrow> bool \<Rightarrow> record_builder" where
  "sample_record_builder l k h =
     \<lparr>rb_pages = sample_builder\<lparr>cb_leaf := l, cb_byte_len := length l\<rparr>, rb_records = k, rb_header_written = h, rb_failed = False\<rparr>"

lemma sample_record_builder_new: "record_builder_new (Guild 1) Packing = Ok (sample_record_builder [] 0 False)"
  by (simp add: record_builder_new_def sample_builder_new sample_record_builder_def sample_builder_def)

lemma sample_push_pages:
  assumes "length l + length bs < 61440"
  shows "push_pages sample_page_codec sample_blake3 sample_sink bs (sample_record_builder l k h, t) =
    ((sample_record_builder (l @ bs) k h, t), Ok ())"
  by (simp add: push_pages_def sample_record_builder_def sample_push [OF assms] del: length_append)

lemma sample_record_push:
  assumes "length l + length r < 61420" "record_ok r" "k < 67108864" "h \<or> l = []"
  shows "record_push_encoded sample_page_codec sample_blake3 sample_sink r (sample_record_builder l k h, t) =
    ((sample_record_builder ((if h then l else HEADER) @ frame r) (Suc k) True, t), Ok ())"
proof -
  let ?p = "push_pages sample_page_codec sample_blake3 sample_sink"
  let ?l = "if h then l else HEADER"
  have head: "(if h then op_result (Ok ()) else op_then (?p HEADER) (\<lambda>_. op_update (\<lambda>(self, t). (self\<lparr>rb_header_written := True\<rparr>, t))))
      (sample_record_builder l k h, t) = ((sample_record_builder ?l k True, t), Ok ())"
    using assms(1,4) sample_push_pages [of "[]" HEADER k False t] by (auto simp: op_then_def op_update_def sample_record_builder_def)
  have "push_frame sample_page_codec sample_blake3 sample_sink r (sample_record_builder l k h, t) =
      ((sample_record_builder (?l @ frame r) (Suc k) True, t), Ok ())"
    using assms(1-3) head sample_push_pages [of ?l "be_bytes 4 (length r)" k True t]
      sample_push_pages [of "?l @ be_bytes 4 (length r)" r k True t]
    by (simp add: push_frame_def record_ok_def frame_def op_then_def sample_record_builder_def)
  then show ?thesis by (simp add: record_push_encoded_def fenced_call_def sample_record_builder_def)
qed

lemma sample_record_pushes:
  "run_ops (record_push_encoded sample_page_codec sample_blake3 sample_sink) sample_records (sample_record_builder [] 0 False, Map.empty) =
    ((sample_record_builder sample_bytes 2 True, Map.empty), [Ok (), Ok ()])"
  using sample_frames
  by (simp add: run_ops.simps sample_record_push record_ok_def frames_def numeral_2_eq_2 [symmetric])

definition sample_record_root :: record_root where
  "sample_record_root = \<lparr>ro_format_version = 1, ro_page = sample_ref sample_bytes, ro_records = 2\<rparr>"

definition sample_record_store :: "page_ref \<Rightarrow> byte list option" where
  "sample_record_store = [sample_ref sample_bytes \<mapsto> 7 # sample_bytes]"

lemma sample_bytes_size: "length sample_bytes = 19" "sample_bytes \<noteq> []"
  by (simp_all add: sample_bytes_def)

lemma sample_record_root_validate: "record_root_validate sample_record_root = Ok ()"
  by (simp add: record_root_validate_def sample_record_root_def ref_validate_def sample_ref_def sample_bytes_size)

lemma sample_record_finish:
  "\<exists>self'. record_finish sample_page_codec sample_blake3 sample_sink (sample_record_builder sample_bytes 2 True, Map.empty) =
    ((self', sample_record_store), Ok sample_record_root)"
  using sample_finish_leaf [of sample_bytes]
  by (simp add: sample_record_root_validate [unfolded sample_record_root_def, simplified] record_finish_def sample_record_builder_def sample_bytes_size sample_record_store_def sample_record_root_def Let_def)

theorem records_roundtrip_witness:
  "\<exists>rd. record_reader_new (Guild 1) Packing sample_record_root = (Ok rd :: (unit catalog_error, _) result) \<and> ro_records sample_record_root = 2
    \<and> snd (run_ops (\<lambda>_. record_next sample_page_codec sample_blake3 (\<lambda>r. sample_fetch sample_record_store [r])) (replicate 3 ()) (rd, ()))
      = [Ok (Some [5]), Ok (Some [6, 7]), Ok None]"
proof -
  obtain self' where fin: "record_finish sample_page_codec sample_blake3 sample_sink (sample_record_builder sample_bytes 2 True, Map.empty) =
    ((self', sample_record_store), Ok sample_record_root)" using sample_record_finish by blast
  show ?thesis
    using records_roundtrip [OF sample_roundtrip sample_sink_lawful sample_record_builder_new sample_record_pushes _ fin
        sample_page_fetch_serves, of 3 "()"]
    by (simp add: item_results_def numeral_2_eq_2 [symmetric] del: run_ops_Cons)
qed

lemma sample_record_tree:
  "tree_leaves sample_page_codec sample_blake3 (Guild 1) Packing sample_record_store (ro_page sample_record_root) = Some [sample_bytes]"
  unfolding sample_record_root_def record_root.simps
  by (rule sample_tree_leaves) (simp_all add: sample_record_store_def sample_bytes_size)

definition sample_record_reader :: record_reader where
  "sample_record_reader = \<lparr>fr_pages = \<lparr>cr_scope = Guild 1, cr_section = Packing, cr_root = sample_ref sample_bytes,
       cr_pending = [sample_ref sample_bytes], cr_path = [], cr_visited = 0, cr_byte_len = 0, cr_failed = False\<rparr>,
     fr_root = sample_record_root, fr_leaf = [], fr_position = 0, fr_records = 0, fr_header_checked = False,
     fr_failed = False, fr_byte_position = 0, fr_last_range = None\<rparr>"

lemma sample_record_reader_new: "record_reader_new (Guild 1) Packing sample_record_root = Ok sample_record_reader"
  by (simp add: record_reader_new_def sample_record_root_validate reader_new_def scope_validate_def ref_validate_def
      sample_record_reader_def) (simp add: sample_record_root_def sample_ref_def sample_bytes_size)

lemma sample_record_run:
  "snd (run_ops (\<lambda>_. record_next sample_page_codec sample_blake3 (\<lambda>r. sample_fetch sample_record_store [r])) (replicate 3 ()) (sample_record_reader, ()))
    = [Ok (Some [5]), Ok (Some [6, 7]), Ok None]"
proof -
  have "records_left sample_page_codec sample_blake3 sample_record_store sample_records sample_record_reader"
    using record_reader_new_inv [OF sample_record_reader_new sample_record_tree] sample_frames
    by (auto simp: records_left_def frames_def record_ok_def sample_record_root_def)
  then show ?thesis
    using record_stream.run_honest [of sample_blake3 "\<lambda>r. sample_fetch sample_record_store [r]" sample_record_store sample_page_codec
        sample_records "(sample_record_reader, ())" 3 "()"] sample_page_fetch_serves [of sample_record_store]
      serves_no_second_preimage [OF sample_page_fetch_serves, of sample_blake3 sample_record_store]
    by (simp add: item_results_def del: run_ops_Cons)
qed

theorem records_accepted_exact_witness:
  "\<exists>rs. sample_bytes = frames rs \<and> length rs = 2"
  using records_accepted_exact [OF sample_record_tree serves_no_second_preimage [OF sample_page_fetch_serves] sample_record_reader_new, of 3 "()"]
  unfolding sample_record_run by (auto simp: sample_record_root_def)

end
