(* ===== verification/Catalog_Path.thy ===== *)
theory Catalog_Path
  imports Catalog_Stream
begin

text \<open>
  Paths from a trusted root to one page, \<open>src/crates/mb-core/src/catalog/path.rs\<close>: a peer serves a single page of
  a catalog to a reader who holds the root, and every step down is checked against the verified parent.
\<close>

section \<open>Operations\<close>

record page_path =
  pp_scope :: catalog_scope
  pp_section :: catalog_section
  pp_pages :: "page_ref list"

fun validate_refs :: "page_ref list \<Rightarrow> ('m catalog_error, unit) result" where
  "validate_refs [] = Ok ()"
| "validate_refs (page # pages) = and_then (ref_validate page) (\<lambda>_. validate_refs pages)"

text \<open>No window of two references skips a height.\<close>

fun descending :: "page_ref list \<Rightarrow> bool" where
  "descending (a # b # pages) \<longleftrightarrow> checked_sub (pr_height a) 1 = Some (pr_height b) \<and> descending (b # pages)"
| "descending pages \<longleftrightarrow> True"

definition path_validate :: "page_path \<Rightarrow> ('m catalog_error, unit) result" where
  "path_validate self =
     and_then (scope_validate (pp_scope self) (pp_section self)) (\<lambda>_.
     if pp_pages self = [] \<or> CATALOG_MAX_HEIGHT + 1 < length (pp_pages self) then Err Bounds
     else and_then (validate_refs (pp_pages self)) (\<lambda>_.
     if \<not> descending (pp_pages self) then Err InvalidPage else Ok ()))"

text \<open>The loop of \<open>read\<close> from the reference at the head of the list.\<close>

fun path_read_loop ::
    "'m page_codec \<Rightarrow> blake3 \<Rightarrow> ('t, 'e) page_fetch \<Rightarrow> catalog_scope \<Rightarrow> catalog_section \<Rightarrow> page_ref list \<Rightarrow> ('t, ('m, 'e) stream_error, byte list) op" where
  "path_read_loop C B fetch scope sec [] t = (t, Err (Catalog InvalidPage))"
| "path_read_loop C B fetch scope sec (page # pages) t =
     (case fetch page t of
        (t', Inl e) \<Rightarrow> (t', Inl (map_stop Storage e))
      | (t', Inr bytes) \<Rightarrow>
          (case ref_verify_page C B page scope sec bytes of
             Inl e \<Rightarrow> (t', Inl (map_stop Catalog e))
           | Inr contents \<Rightarrow>
               (case pages of
                  [] \<Rightarrow> (t', Ok bytes)
                | child # _ \<Rightarrow>
                    (case contents of
                       Leaf _ \<Rightarrow> (t', Err (Catalog InvalidPage))
                     | Index children \<Rightarrow>
                         if child \<in> set children then path_read_loop C B fetch scope sec pages t'
                         else (t', Err (Catalog InvalidPage))))))"

definition path_read ::
    "'m page_codec \<Rightarrow> blake3 \<Rightarrow> ('t, 'e) page_fetch \<Rightarrow> page_path \<Rightarrow> ('t, ('m, 'e) stream_error, byte list) op" where
  "path_read C B fetch self =
     op_then (op_result (map_err Catalog (path_validate self))) (\<lambda>_.
     path_read_loop C B fetch (pp_scope self) (pp_section self) (pp_pages self))"

section \<open>Correctness\<close>

text \<open>A step of an honest tree: the stored page, and the leaves of a child inside those of its parent.\<close>

lemma tree_leaves_child:
  assumes "tree_leaves C B scope sec S r = Some ls" "S r = Some enc" "verify_page C B r scope sec enc = Ok p" "pg_body p = Index cs" "c \<in> set cs"
  shows "\<exists>l pre post. tree_leaves C B scope sec S c = Some l \<and> ls = pre @ l @ post"
proof -
  obtain lss where lss: "map (tree_leaves C B scope sec S) cs = map Some lss" "ls = concat lss"
    using assms(1) by (rule tree_leaves_SomeE) (use assms(2-4) in auto)
  obtain i where i: "i < length cs" "cs ! i = c" using assms(5) by (auto simp: in_set_conv_nth)
  have "i < length lss" "tree_leaves C B scope sec S c = Some (lss ! i)" using lss(1) i by (auto simp: map_eq_Some_nth)
  moreover have "concat lss = concat (take i lss) @ lss ! i @ concat (drop (Suc i) lss)"
    using id_take_nth_drop [OF calculation(1)] by (metis concat.simps(2) concat_append)
  ultimately show ?thesis using lss(2) by blast
qed

lemma fetched_page:
  assumes "tree_leaves C B scope sec S r = Some ls" "no_second_preimage B (on_page fetch) S"
    "fetch r t = (t', Ok bytes)" "verify_page C B r scope sec bytes = Ok p"
  shows "S r = Some bytes"
proof -
  obtain enc where enc: "S r = Some enc" "\<exists>q. verify_page C B r scope sec enc = Ok q" using assms(1) by (cases rule: tree_leaves_SomeE) auto
  have "page_hash B bytes = page_hash B enc" using verify_page_OkD(3) [OF assms(4)] enc(2) verify_page_OkD(3) by metis
  then have "bytes = enc" using assms(2) [unfolded no_second_preimage_def, rule_format, of "[r]" enc t t' bytes] assms(3) enc(1) by simp
  then show ?thesis using enc(1) by simp
qed

lemma path_read_loop_authentic:
  assumes "no_second_preimage B (on_page fetch) S" "path_read_loop C B fetch scope sec pages t = (t', Inr bytes)"
    "tree_leaves C B scope sec S (hd pages) = Some ls"
  shows "S (last pages) = Some bytes \<and> (\<exists>l pre post. tree_leaves C B scope sec S (last pages) = Some l \<and> ls = pre @ l @ post)"
  using assms(2,3)
proof (induction pages arbitrary: t ls)
  case (Cons r pages)
  obtain t1 b p where f: "fetch r t = (t1, Ok b)" "verify_page C B r scope sec b = Ok p"
    using Cons.prems(1) by (auto simp: ref_verify_page_def and_then_Ok_iff split: prod.splits sum.splits)
  have tree: "tree_leaves C B scope sec S r = Some ls" using Cons.prems(2) by simp
  note S = fetched_page [OF tree assms(1) f]
  show ?case
  proof (cases pages)
    case Nil
    then show ?thesis using Cons.prems(1) f S tree by (auto simp: ref_verify_page_def intro: exI [of _ "[]"])
  next
    case (Cons child rest)
    then obtain cs where cs: "pg_body p = Index cs" "child \<in> set cs" "path_read_loop C B fetch scope sec pages t1 = (t', Inr bytes)"
      using Cons.prems(1) f by (auto simp: ref_verify_page_def split: page_body.splits if_splits)
    obtain l pre post where l: "tree_leaves C B scope sec S child = Some l" "ls = pre @ l @ post"
      using tree_leaves_child [OF tree S f(2) cs(1,2)] by blast
    moreover obtain l' pre' post' where "S (last pages) = Some bytes" "tree_leaves C B scope sec S (last pages) = Some l'" "l = pre' @ l' @ post'"
      using Cons.IH [OF cs(3), of l] l(1) Cons by auto
    ultimately have "S (last (r # pages)) = Some bytes" "tree_leaves C B scope sec S (last (r # pages)) = Some l'"
      "ls = (pre @ pre') @ l' @ (post' @ post)" using Cons by simp_all
    then show ?thesis by blast
  qed
qed simp

section \<open>Properties\<close>

text \<open>C9: A path read returns only a page of the trusted tree. If the first reference is a root of the author's
  store and the callback finds no second preimage, then bytes returned by \<open>read\<close> are the stored page of the
  last reference, and its leaves are a segment of the leaves of the root: a path cannot lead out of the
  tree it starts in.\<close>

theorem path_read_authentic:
  assumes "no_second_preimage B (on_page fetch) S"
    "tree_leaves C B (pp_scope path) (pp_section path) S (hd (pp_pages path)) = Some ls"
    "path_read C B fetch path t = (t', Ok bytes)"
  shows "S (last (pp_pages path)) = Some bytes \<and>
    (\<exists>l pre post. tree_leaves C B (pp_scope path) (pp_section path) S (last (pp_pages path)) = Some l \<and> ls = pre @ l @ post)"
  using path_read_loop_authentic [OF assms(1) _ assms(2)] assms(3) by (auto simp: path_read_def op_then_Inr)

section \<open>Instances\<close>

text \<open>A tree of one index page over two leaves, and the path to its second leaf.\<close>

definition sample_index_page :: page where
  "sample_index_page = \<lparr>pg_format_version = 1, pg_scope = Guild 1, pg_section = Packing, pg_height = 1,
     pg_body = Index [sample_ref [1, 2], sample_ref [3]]\<rparr>"

definition sample_tree_codec :: "unit page_codec" where
  "sample_tree_codec = \<lparr>
     pc_encode = \<lambda>p. if p = sample_index_page then Inr [8] else pc_encode sample_page_codec p,
     pc_decode = \<lambda>bs. if bs = [8] then Inr sample_index_page else pc_decode sample_page_codec bs,
     pc_too_long = ()\<rparr>"

definition sample_index_ref :: page_ref where
  "sample_index_ref = \<lparr>pr_hash = page_hash sample_blake3 [8], pr_encoded_len = 1, pr_height = 1, pr_byte_len = 3, pr_page_occurrences = 3\<rparr>"

definition sample_tree_store :: "page_ref \<Rightarrow> byte list option" where
  "sample_tree_store = [sample_index_ref \<mapsto> [8], sample_ref [1, 2] \<mapsto> [7, 1, 2], sample_ref [3] \<mapsto> [7, 3]]"

definition sample_path :: page_path where
  "sample_path = \<lparr>pp_scope = Guild 1, pp_section = Packing, pp_pages = [sample_index_ref, sample_ref [3]]\<rparr>"

lemma sample_tree_roundtrip: "codec_roundtrip sample_tree_codec"
  using sample_roundtrip
  by (auto simp: codec_roundtrip_def sample_tree_codec_def) (auto simp: sample_page_codec_def split: page_body.splits if_splits)

lemma sample_tree_encode:
  "length bs \<le> 61440 \<Longrightarrow> page_encode sample_tree_codec sample_blake3 (sample_page bs) = Ok (sample_ref bs, 7 # bs)"
  "page_encode sample_tree_codec sample_blake3 sample_index_page = Ok (sample_index_ref, [8])"
proof -
  have "sample_page bs \<noteq> sample_index_page" by (simp add: sample_page_def sample_index_page_def)
  then show "length bs \<le> 61440 \<Longrightarrow> page_encode sample_tree_codec sample_blake3 (sample_page bs) = Ok (sample_ref bs, 7 # bs)"
    using sample_encode [of bs] by (simp add: page_encode_def sample_tree_codec_def)
  show "page_encode sample_tree_codec sample_blake3 sample_index_page = Ok (sample_index_ref, [8])"
    by (simp add: page_encode_def page_counts_def scope_validate_def sample_index_page_def sample_tree_codec_def sample_index_ref_def
        sample_ref_def ref_validate_def uadd_def checked_add_def)
qed

lemma sample_tree_verify:
  "length bs \<le> 61440 \<Longrightarrow> verify_page sample_tree_codec sample_blake3 (sample_ref bs) (Guild 1) Packing (7 # bs) = Ok (sample_page bs)"
  "verify_page sample_tree_codec sample_blake3 sample_index_ref (Guild 1) Packing [8] = Ok sample_index_page"
  using verify_page_encoded [OF sample_tree_roundtrip sample_tree_encode(1)] verify_page_encoded [OF sample_tree_roundtrip sample_tree_encode(2)]
  by (simp_all add: sample_page_def sample_index_page_def)

lemma sample_tree_store_simps [simp]:
  "sample_tree_store sample_index_ref = Some [8]" "sample_tree_store (sample_ref [1, 2]) = Some [7, 1, 2]"
  "sample_tree_store (sample_ref [3]) = Some [7, 3]"
  by (simp_all add: sample_tree_store_def sample_index_ref_def sample_ref_def)

lemma sample_tree_denotes:
  "tree_leaves sample_tree_codec sample_blake3 (Guild 1) Packing sample_tree_store sample_index_ref = Some [[1, 2], [3]]"
proof -
  have "tree_leaves sample_tree_codec sample_blake3 (Guild 1) Packing sample_tree_store (sample_ref bs) = Some [bs]"
    if "bs = [1, 2] \<or> bs = [3]" for bs
    using that by (intro tree_leaves_leafI [OF _ sample_tree_verify(1)]) (auto simp: sample_page_def)
  then have d: "denotes (tree_leaves sample_tree_codec sample_blake3 (Guild 1) Packing sample_tree_store)
      [sample_ref [1, 2], sample_ref [3]] [[1, 2], [3]]"
    by (auto simp: denotes_def intro: exI [of _ "[[[1, 2]], [[3]]]"])
  show ?thesis
    by (rule tree_leaves_stored_index [OF _ sample_tree_verify(2) _ d]) (simp_all add: sample_index_page_def)
qed

theorem path_read_authentic_witness:
  "sample_tree_store (sample_ref [3]) = Some [7, 3] \<and>
    (\<exists>l pre post. tree_leaves sample_tree_codec sample_blake3 (Guild 1) Packing sample_tree_store (sample_ref [3]) = Some l
      \<and> [[1, 2], [3]] = pre @ l @ post)"
proof -
  have "path_read sample_tree_codec sample_blake3 (\<lambda>r. sample_fetch sample_tree_store [r]) sample_path () = ((), Ok [7, 3])"
    using sample_tree_verify(1) [of "[3]"] sample_tree_verify(2)
    by (simp add: path_read_def path_validate_def sample_path_def scope_validate_def verify_page_OkD(1) [OF sample_tree_verify(1)]
        verify_page_OkD(1) [OF sample_tree_verify(2)] ref_verify_page_def sample_fetch_def checked_sub_def sample_index_page_def)
      (simp add: sample_ref_def sample_index_ref_def)
  from path_read_authentic [OF serves_no_second_preimage [OF sample_page_fetch_serves] _ this, of "[[1, 2], [3]]"] sample_tree_denotes
  show ?thesis by (simp add: sample_path_def)
qed

end
