(* ===== verification/Catalog_Splice.thy ===== *)
theory Catalog_Splice
  imports Catalog_Path
begin

text \<open>
  Path-copying byte edits of a catalog, \<open>src/crates/mb-core/src/catalog/splice.rs\<close>: replace a range of the
  stream by at most one leaf of bytes. Only the pages on the paths to the ends of the range are fetched
  and written again; the other subtrees keep their addresses. \<open>edited\<close> is the specification.
\<close>

section \<open>Operations\<close>

record edit =
  ed_scope :: catalog_scope
  ed_section :: catalog_section
  ed_start :: nat
  ed_end :: nat
  ed_replacement :: "byte list"

text \<open>Both callbacks change the same environment.\<close>

type_synonym ('t, 'm, 'e, 'a) edit_op = "('t, ('m, 'e) stream_error, 'a) op"

definition edit_emit ::
    "'m page_codec \<Rightarrow> blake3 \<Rightarrow> ('t, 'e) page_sink \<Rightarrow> edit \<Rightarrow> nat \<Rightarrow> page_body \<Rightarrow> page_ref option \<Rightarrow> ('t, 'm, 'e, page_ref) edit_op" where
  "edit_emit C B sink self height body original t =
     (if CATALOG_MAX_HEIGHT < height then (t, Err (Catalog Bounds))
      else case page_encode C B \<lparr>pg_format_version = 1, pg_scope = ed_scope self, pg_section = ed_section self,
             pg_height = height, pg_body = body\<rparr> of
        Inl e \<Rightarrow> (t, Inl (map_stop Catalog e))
      | Inr (reference, bytes) \<Rightarrow>
          if Some reference \<noteq> original then
            (case sink reference bytes t of
               (t', Inl e) \<Rightarrow> (t', Inl (map_stop Storage e))
             | (t', Inr _) \<Rightarrow> (t', Ok reference))
          else (t, Ok reference))"

text \<open>The loops over \<open>chunks\<close> that emit the pages of one level.\<close>

primrec edit_emits ::
    "'m page_codec \<Rightarrow> blake3 \<Rightarrow> ('t, 'e) page_sink \<Rightarrow> edit \<Rightarrow> nat \<Rightarrow> page_body list \<Rightarrow> page_ref option \<Rightarrow> ('t, 'm, 'e, page_ref list) edit_op" where
  "edit_emits C B sink self height [] original = op_result (Ok [])"
| "edit_emits C B sink self height (body # bodies) original =
     op_then (edit_emit C B sink self height body original) (\<lambda>reference.
     op_then (edit_emits C B sink self height bodies original) (\<lambda>references. op_result (Ok (reference # references))))"

definition edit_leaf :: "edit \<Rightarrow> page_ref \<Rightarrow> nat \<Rightarrow> bool \<Rightarrow> byte list \<Rightarrow> (('m, 'e) stream_error, byte list) result" where
  "edit_leaf self reference offset inserts bytes =
     (let start = min (ed_start self - offset) (pr_byte_len reference);
          stop = min (ed_end self - offset) (pr_byte_len reference);
          inserted = (if inserts then ed_replacement self else []) in
      if length bytes < start \<or> length bytes < stop then panic
      else Ok (take start bytes @ inserted @ drop stop bytes))"

text \<open>The loop over the children of an index page, with the recursive call as an argument. The results are
  the changed references, the position reached and whether the replacement has been inserted.\<close>

primrec visit_children ::
    "edit \<Rightarrow> bool \<Rightarrow> (page_ref \<Rightarrow> nat \<Rightarrow> bool \<Rightarrow> ('t, 'm, 'e, page_ref list) edit_op) \<Rightarrow> page_ref list \<Rightarrow> nat \<Rightarrow> bool
      \<Rightarrow> ('t, 'm, 'e, page_ref list \<times> nat \<times> bool) edit_op" where
  "visit_children self inserts call [] position inserted = op_result (Ok ([], position, inserted))"
| "visit_children self inserts call (child # children) position inserted =
     (case checked_add 64 position (pr_byte_len child) of
        None \<Rightarrow> op_result (Err (Catalog Bounds))
      | Some child_end \<Rightarrow>
          (let child_inserts = (inserts \<and> \<not> inserted \<and> (ed_start self < child_end \<or> children = [])) in
           op_then (call child position child_inserts) (\<lambda>changed.
           op_then (visit_children self inserts call children child_end (inserted \<or> child_inserts)) (\<lambda>(rest, p, i).
           op_result (Ok (changed @ rest, p, i))))))"

lemma visit_children_cong [fundef_cong]:
  assumes "self = self'" "inserts = inserts'" "children = children'" "position = position'" "inserted = inserted'"
    "\<And>c p i t. c \<in> set children' \<Longrightarrow> call c p i t = call' c p i t"
  shows "visit_children self inserts call children position inserted = visit_children self' inserts' call' children' position' inserted'"
proof -
  have "visit_children self inserts call cs p i t = visit_children self inserts call' cs p i t"
    if "set cs \<subseteq> set children'" for cs p i t
    using that
  proof (induction cs arbitrary: p i t)
    case (Cons c cs)
    then show ?case using assms(6) by (auto simp: op_then_def Let_def split: option.splits prod.splits sum.splits)
  qed simp
  then show ?thesis using assms(1-5) by blast
qed

function edit_visit ::
    "'m page_codec \<Rightarrow> blake3 \<Rightarrow> ('t, 'e) page_fetch \<Rightarrow> ('t, 'e) page_sink \<Rightarrow> edit \<Rightarrow> page_ref \<Rightarrow> nat \<Rightarrow> bool \<Rightarrow> ('t, 'm, 'e, page_ref list) edit_op" where
  "edit_visit C B fetch sink self reference offset inserts t =
     (case checked_add 64 offset (pr_byte_len reference) of
        None \<Rightarrow> (t, Err (Catalog Bounds))
      | Some stop \<Rightarrow>
          if \<not> inserts \<and> ed_start self \<le> offset \<and> stop \<le> ed_end self then (t, Ok [])
          else if \<not> inserts \<and> (stop \<le> ed_start self \<or> ed_end self \<le> offset) then (t, Ok [reference])
          else case fetch reference t of
            (t', Inl e) \<Rightarrow> (t', Inl (map_stop Storage e))
          | (t', Inr encoded) \<Rightarrow>
              (case verify_page C B reference (ed_scope self) (ed_section self) encoded of
                 Inl e \<Rightarrow> (t', Inl (map_stop Catalog e))
               | Inr page \<Rightarrow>
                   (case pg_body page of
                      Leaf bytes \<Rightarrow>
                        (case edit_leaf self reference offset inserts bytes of
                           Inl e \<Rightarrow> (t', Inl e)
                         | Inr changed \<Rightarrow>
                             edit_emits C B sink self 0 (map Leaf (chunks CATALOG_LEAF_BYTES changed)) (Some reference) t')
                    | Index children \<Rightarrow>
                        (case visit_children self inserts (\<lambda>c p i s. edit_visit C B fetch sink self c p i s) children offset False t' of
                           (t'', Inl e) \<Rightarrow> (t'', Inl e)
                         | (t'', Inr (changed, position, inserted)) \<Rightarrow>
                             if position \<noteq> stop \<or> inserts \<and> \<not> inserted then (t'', Err (Catalog InvalidPage))
                             else edit_emits C B sink self (pr_height reference) (map Index (chunks CATALOG_FANOUT changed)) (Some reference) t''))))"
  by pat_completeness auto
termination
  by (relation "measure (\<lambda>(C, B, fetch, sink, self, reference, offset, inserts, t). pr_height reference)")
    (auto dest!: verified_index)

declare edit_visit.simps [simp del]

definition splice ::
    "'m page_codec \<Rightarrow> blake3 \<Rightarrow> ('t, 'e) page_fetch \<Rightarrow> ('t, 'e) page_sink \<Rightarrow> page_ref \<Rightarrow> catalog_scope \<Rightarrow> catalog_section \<Rightarrow>
      nat \<Rightarrow> nat \<Rightarrow> byte list \<Rightarrow> ('t, 'm, 'e, page_ref) edit_op" where
  "splice C B fetch sink self scope sec lo hi replacement =
     op_then (op_result (map_err Catalog (and_then (ref_validate self) (\<lambda>_. scope_validate scope sec)))) (\<lambda>_.
     if hi < lo \<or> pr_byte_len self < hi \<or> CATALOG_LEAF_BYTES < length replacement then op_result (Err (Catalog Bounds))
     else let len = pr_byte_len self - (hi - lo) + length replacement in
       if CATALOG_MAX_STREAM_BYTES < len then op_result (Err (Catalog Bounds))
       else if lo = hi \<and> replacement = [] then op_result (Ok self)
       else let edit = \<lparr>ed_scope = scope, ed_section = sec, ed_start = lo, ed_end = hi, ed_replacement = replacement\<rparr> in
         op_then (edit_visit C B fetch sink edit self 0 True) (\<lambda>roots.
         op_then
           (if roots = [] then edit_emit C B sink edit 0 (Leaf []) None
            else if length roots = 1 then op_result (Ok (hd roots))
            else edit_emit C B sink edit (pr_height self + 1) (Index roots) None) (\<lambda>root.
         op_result (if pr_byte_len root \<noteq> len then Err (Catalog InvalidPage) else Ok root))))"

section \<open>Specification\<close>

text \<open>The part of an edit that falls on the bytes \<open>data\<close> at \<open>offset\<close>.\<close>

definition edited :: "edit \<Rightarrow> bool \<Rightarrow> nat \<Rightarrow> byte list \<Rightarrow> byte list" where
  "edited self inserts offset data =
     take (ed_start self - offset) data @ (if inserts then ed_replacement self else []) @ drop (ed_end self - offset) data"

lemma edited_split:
  assumes "ed_start self \<le> ed_end self"
  shows "edited self False p (a @ b) = edited self False p a @ edited self False (p + length a) b"
    "ed_start self < p + length a \<Longrightarrow> edited self True p (a @ b) = edited self True p a @ edited self False (p + length a) b"
    "p + length a \<le> ed_start self \<Longrightarrow> edited self True p (a @ b) = edited self False p a @ edited self True (p + length a) b"
proof -
  show "edited self False p (a @ b) = edited self False p a @ edited self False (p + length a) b"
    using assms by (cases "ed_start self \<le> p + length a") (simp_all add: edited_def)
qed (use assms in \<open>simp_all add: edited_def\<close>)

lemma edited_outside:
  assumes "ed_start self \<le> ed_end self"
  shows "ed_start self \<le> p \<Longrightarrow> p + length data \<le> ed_end self \<Longrightarrow> edited self False p data = []"
    "p + length data \<le> ed_start self \<or> ed_end self \<le> p \<Longrightarrow> edited self False p data = data"
  using assms by (auto simp: edited_def)

lemma edit_leaf_edited:
  "edit_leaf self r offset inserts bytes = Inr changed \<Longrightarrow> pr_byte_len r = length bytes \<Longrightarrow> changed = edited self inserts offset bytes"
  by (auto simp: edit_leaf_def edited_def Let_def min_def split: if_splits)

text \<open>The pages an edit visits and the pages it makes of them. \<open>children_calls\<close> lists the recursive calls of a
  \<open>visit_children\<close> run with the states they start in, \<open>edit_opens\<close> says that a page is neither dropped nor
  kept as it is, and \<open>edit_rewrites\<close> collects over the visit of \<open>r\<close> the new pages with the reference of the
  page each of them takes the place of.\<close>

definition edit_page :: "edit \<Rightarrow> nat \<Rightarrow> page_body \<Rightarrow> page" where
  "edit_page self height body =
     \<lparr>pg_format_version = 1, pg_scope = ed_scope self, pg_section = ed_section self, pg_height = height, pg_body = body\<rparr>"

definition edit_opens :: "edit \<Rightarrow> page_ref \<Rightarrow> nat \<Rightarrow> bool \<Rightarrow> bool" where
  "edit_opens self r p i \<longleftrightarrow> \<not> (\<not> i \<and> ed_start self \<le> p \<and> p + pr_byte_len r \<le> ed_end self)
     \<and> \<not> (\<not> i \<and> (p + pr_byte_len r \<le> ed_start self \<or> ed_end self \<le> p))"

primrec children_calls ::
    "edit \<Rightarrow> bool \<Rightarrow> (page_ref \<Rightarrow> nat \<Rightarrow> bool \<Rightarrow> ('t, 'm, 'e, page_ref list) edit_op) \<Rightarrow> page_ref list \<Rightarrow> nat \<Rightarrow> bool \<Rightarrow> 't
      \<Rightarrow> (page_ref \<times> nat \<times> bool \<times> 't) list" where
  "children_calls self inserts call [] position inserted t = []"
| "children_calls self inserts call (child # children) position inserted t =
     (let child_end = position + pr_byte_len child;
          child_inserts = (inserts \<and> \<not> inserted \<and> (ed_start self < child_end \<or> children = [])) in
      (child, position, child_inserts, t) #
        children_calls self inserts call children child_end (inserted \<or> child_inserts) (fst (call child position child_inserts t)))"

inductive edit_rewrites ::
    "'m page_codec \<Rightarrow> blake3 \<Rightarrow> ('t, 'e) page_fetch \<Rightarrow> ('t, 'e) page_sink \<Rightarrow> edit \<Rightarrow> page_ref \<Rightarrow> nat \<Rightarrow> bool \<Rightarrow> 't \<Rightarrow> page_ref \<Rightarrow> page \<Rightarrow> bool"
  for C :: "'m page_codec" and B :: blake3 and fetch :: "('t, 'e) page_fetch" and sink :: "('t, 'e) page_sink" and self :: edit where
  rewrites_leaf:
    "edit_opens self r p i \<Longrightarrow> fetch r t = (t1, Ok enc) \<Longrightarrow> verify_page C B r (ed_scope self) (ed_section self) enc = Ok page \<Longrightarrow>
     pg_body page = Leaf bytes \<Longrightarrow> edit_leaf self r p i bytes = (Ok changed :: (('m, 'e) stream_error, _) result) \<Longrightarrow>
     bs \<in> set (chunks CATALOG_LEAF_BYTES changed) \<Longrightarrow> edit_rewrites C B fetch sink self r p i t r (edit_page self 0 (Leaf bs))"
| rewrites_index:
    "edit_opens self r p i \<Longrightarrow> fetch r t = (t1, Ok enc) \<Longrightarrow> verify_page C B r (ed_scope self) (ed_section self) enc = Ok page \<Longrightarrow>
     pg_body page = Index cs \<Longrightarrow> visit_children self i (edit_visit C B fetch sink self) cs p False t1 = (t2, Ok (changed, p', i')) \<Longrightarrow>
     refs \<in> set (chunks CATALOG_FANOUT changed) \<Longrightarrow> edit_rewrites C B fetch sink self r p i t r (edit_page self (pr_height r) (Index refs))"
| rewrites_child:
    "edit_opens self r p i \<Longrightarrow> fetch r t = (t1, Ok enc) \<Longrightarrow> verify_page C B r (ed_scope self) (ed_section self) enc = Ok page \<Longrightarrow>
     pg_body page = Index cs \<Longrightarrow> (c, q, j, u) \<in> set (children_calls self i (edit_visit C B fetch sink self) cs p False t1) \<Longrightarrow>
     edit_rewrites C B fetch sink self c q j u old new \<Longrightarrow> edit_rewrites C B fetch sink self r p i t old new"

inductive_cases edit_rewritesE: "edit_rewrites C B fetch sink self r p i t old new"

text \<open>A page that encodes to the reference of the page it takes the place of is that page, so it need not be
  written: none of the pages this visit makes collides with the one it replaces.\<close>

definition reusable :: "'m page_codec \<Rightarrow> blake3 \<Rightarrow> (page_ref \<Rightarrow> byte list option) \<Rightarrow> page_ref option \<Rightarrow> page \<Rightarrow> bool" where
  "reusable C B S original page \<longleftrightarrow> (\<forall>q b. original = Some q \<longrightarrow> page_encode C B page = Ok (q, b) \<longrightarrow> S q = Some b)"

definition edit_collision_free ::
    "'m page_codec \<Rightarrow> blake3 \<Rightarrow> ('t, 'e) page_fetch \<Rightarrow> ('t, 'e) page_sink \<Rightarrow> (page_ref \<Rightarrow> byte list option) \<Rightarrow> edit \<Rightarrow> page_ref \<Rightarrow> nat \<Rightarrow> bool \<Rightarrow> 't \<Rightarrow> bool" where
  "edit_collision_free C B fetch sink S self r p i t \<longleftrightarrow>
     (\<forall>old new. edit_rewrites C B fetch sink self r p i t old new \<longrightarrow> reusable C B S (Some old) new)"

definition keeps_store :: "('t, 'e) page_fetch \<Rightarrow> ('t \<Rightarrow> page_ref \<Rightarrow> byte list option) \<Rightarrow> bool" where
  "keeps_store fetch lookup \<longleftrightarrow> (\<forall>r t t' x. fetch r t = (t', x) \<longrightarrow> lookup t \<subseteq>\<^sub>m lookup t')"

section \<open>Emitting pages\<close>

lemma edit_emit_stored:
  assumes C: "codec_roundtrip C" and sink: "lawful_sink sink lookup" and S: "reusable C B S original (edit_page self height body)" "S \<subseteq>\<^sub>m lookup t"
    and run: "edit_emit C B sink self height body original t = (t', Inr r)"
  shows "lookup t \<subseteq>\<^sub>m lookup t' \<and> (\<exists>bs p. lookup t' r = Some bs \<and> verify_page C B r (ed_scope self) (ed_section self) bs = Ok p \<and> pg_body p = body)"
proof -
  obtain bs where e: "page_encode C B (edit_page self height body) = Ok (r, bs)"
    using run by (auto simp: edit_emit_def edit_page_def split: if_splits sum.splits prod.splits)
  have "lookup t \<subseteq>\<^sub>m lookup t' \<and> lookup t' r = Some bs"
  proof (cases "Some r = original")
    case True
    then have "S r = Some bs" using S(1) e by (auto simp: reusable_def)
    moreover have "t' = t" using run e True by (auto simp: edit_emit_def edit_page_def split: if_splits)
    ultimately show ?thesis using S(2) by (auto simp: map_le_def dom_def)
  next
    case False
    then have "sink r bs t = (t', Ok ())" using run e by (auto simp: edit_emit_def edit_page_def split: if_splits sum.splits prod.splits)
    then show ?thesis using lawful_sinkD [OF sink] by blast
  qed
  then show ?thesis using verify_page_encoded [OF C e] by (auto simp: edit_page_def)
qed

text \<open>The leaves under a page with the given body.\<close>

definition body_leaves :: "(page_ref \<Rightarrow> byte list list option) \<Rightarrow> page_body \<Rightarrow> byte list list \<Rightarrow> bool" where
  "body_leaves L body ls \<longleftrightarrow> (case body of Leaf bs \<Rightarrow> ls = [bs] | Index cs \<Rightarrow> denotes L cs ls)"

lemma body_leaves_tree:
  "S r = Some bs \<Longrightarrow> verify_page C B r scope sec bs = Ok p \<Longrightarrow> body_leaves (tree_leaves C B scope sec S) (pg_body p) ls
    \<Longrightarrow> tree_leaves C B scope sec S r = Some ls"
  by (cases "pg_body p") (auto simp: body_leaves_def tree_leaves_leafI tree_leaves_stored_index)

lemma body_leaves_mono:
  "body_leaves (tree_leaves C B scope sec S) body ls \<Longrightarrow> S \<subseteq>\<^sub>m S' \<Longrightarrow> body_leaves (tree_leaves C B scope sec S') body ls"
  by (auto simp: body_leaves_def denotes_tree_mono split: page_body.splits)

lemma edit_emit_denotes:
  assumes "codec_roundtrip C" "lawful_sink sink lookup" "reusable C B S original (edit_page self height body)" "S \<subseteq>\<^sub>m lookup t"
    "edit_emit C B sink self height body original t = (t', Inr r)"
    "body_leaves (tree_leaves C B (ed_scope self) (ed_section self) (lookup t)) body ls"
  shows "lookup t \<subseteq>\<^sub>m lookup t' \<and> tree_leaves C B (ed_scope self) (ed_section self) (lookup t') r = Some ls"
proof -
  obtain bs p where "lookup t \<subseteq>\<^sub>m lookup t'" "lookup t' r = Some bs" "verify_page C B r (ed_scope self) (ed_section self) bs = Ok p" "pg_body p = body"
    using edit_emit_stored [OF assms(1-5)] by blast
  then show ?thesis using body_leaves_tree [of "lookup t'" r bs C B] body_leaves_mono [OF assms(6)] by auto
qed

lemma edit_emits_denotes:
  assumes "codec_roundtrip C" "lawful_sink sink lookup"
    and "\<forall>body \<in> set bodies. reusable C B S original (edit_page self height body)" "S \<subseteq>\<^sub>m lookup t"
    "edit_emits C B sink self height bodies original t = (t', Inr rs)"
    "list_all2 (body_leaves (tree_leaves C B (ed_scope self) (ed_section self) (lookup t))) bodies lss"
  shows "lookup t \<subseteq>\<^sub>m lookup t' \<and> denotes (tree_leaves C B (ed_scope self) (ed_section self) (lookup t')) rs (concat lss)"
  using assms(3-6)
proof (induction bodies arbitrary: t rs lss)
  case Nil
  then show ?case by simp
next
  case (Cons body bodies)
  obtain ls lss' where ls: "lss = ls # lss'" "body_leaves (tree_leaves C B (ed_scope self) (ed_section self) (lookup t)) body ls"
    "list_all2 (body_leaves (tree_leaves C B (ed_scope self) (ed_section self) (lookup t))) bodies lss'"
    using Cons.prems(4) by (auto simp: list_all2_Cons1)
  obtain t1 r rs' where r: "edit_emit C B sink self height body original t = (t1, Inr r)"
    "edit_emits C B sink self height bodies original t1 = (t', Inr rs')" "rs = r # rs'"
    using Cons.prems(3) by (auto simp: op_then_Inr)
  have e: "lookup t \<subseteq>\<^sub>m lookup t1 \<and> tree_leaves C B (ed_scope self) (ed_section self) (lookup t1) r = Some ls"
    using edit_emit_denotes [OF assms(1,2) _ Cons.prems(2) r(1) ls(2)] Cons.prems(1) by simp
  have "list_all2 (body_leaves (tree_leaves C B (ed_scope self) (ed_section self) (lookup t1))) bodies lss'"
    using ls(3) by (rule list_all2_mono) (use e body_leaves_mono in blast)
  moreover have "S \<subseteq>\<^sub>m lookup t1" using map_le_trans [OF Cons.prems(2)] e by blast
  ultimately have "lookup t1 \<subseteq>\<^sub>m lookup t'" "denotes (tree_leaves C B (ed_scope self) (ed_section self) (lookup t')) rs' (concat lss')"
    using Cons.IH [OF _ _ r(2)] Cons.prems(1) by simp_all
  then show ?case using e r(3) ls(1) map_le_trans [of "lookup t" "lookup t1" "lookup t'"] tree_leaves_mono
    denotes_append [of _ "[r]" rs'] by fastforce
qed

section \<open>Visiting pages\<close>

definition streams :: "(page_ref \<Rightarrow> byte list list option) \<Rightarrow> page_ref list \<Rightarrow> byte list \<Rightarrow> bool" where
  "streams L rs data \<longleftrightarrow> (\<exists>ls. denotes L rs ls \<and> concat ls = data)"

lemma streams_append: "streams L rs a \<Longrightarrow> streams L rs' b \<Longrightarrow> streams L (rs @ rs') (a @ b)"
  unfolding streams_def denotes_append by (metis concat_append)

lemma streams_mono:
  "streams (tree_leaves C B scope sec S) rs d \<Longrightarrow> S \<subseteq>\<^sub>m S' \<Longrightarrow> streams (tree_leaves C B scope sec S') rs d"
  unfolding streams_def using denotes_tree_mono by blast

lemma body_leaves_chunks:
  "list_all2 (body_leaves L) (map Leaf bss) (map (\<lambda>c. [c]) bss)"
  by (induction bss) (simp_all add: body_leaves_def)

lemma body_leaves_index_chunks:
  assumes "0 < n" "denotes L rs ls"
  shows "\<exists>lss. list_all2 (body_leaves L) (map Index (chunks n rs)) lss \<and> concat lss = ls"
  using assms
proof (induction n rs arbitrary: ls rule: chunks.induct)
  case (2 n x xs)
  obtain a b where ab: "denotes L (take n (x # xs)) a" "denotes L (drop n (x # xs)) b" "ls = a @ b"
    using 2(3) denotes_append [of L "take n (x # xs)" "drop n (x # xs)" ls] by (auto simp del: take.simps drop.simps)
  obtain lss where "list_all2 (body_leaves L) (map Index (chunks n (drop n (x # xs)))) lss" "concat lss = b"
    using 2(1) [OF _ _ ab(2)] 2(2) by blast
  moreover have "body_leaves L (Index (take n (x # xs))) a" using ab(1) by (simp add: body_leaves_def)
  ultimately show ?case using ab(3) 2(2) by (intro exI [of _ "a # lss"]) simp
qed simp

lemma visit_children_edited:
  assumes ed: "ed_start ed \<le> ed_end ed"
    and call: "\<And>c q j u u' rs. c \<in> set cs \<Longrightarrow> (c, q, j, u) \<in> set (children_calls ed inserts call cs p inserted t) \<Longrightarrow>
      S \<subseteq>\<^sub>m lookup u \<Longrightarrow> call c q j u = (u', Inr rs) \<Longrightarrow>
      lookup u \<subseteq>\<^sub>m lookup u' \<and> streams (tree_leaves C B scope sec (lookup u')) rs (edited ed j q (data c))"
    and len: "\<And>c. c \<in> set cs \<Longrightarrow> pr_byte_len c = length (data c)"
    and S: "S \<subseteq>\<^sub>m lookup t" and run: "visit_children ed inserts call cs p inserted t = (t', Inr (rs, p', i'))"
    and last: "cs \<noteq> [] \<or> \<not> (inserts \<and> \<not> inserted)"
  shows "lookup t \<subseteq>\<^sub>m lookup t' \<and> streams (tree_leaves C B scope sec (lookup t')) rs (edited ed (inserts \<and> \<not> inserted) p (concat (map data cs)))"
  using call len S run last
proof (induction cs arbitrary: t p inserted rs)
  case Nil
  then show ?case by (auto simp: streams_def edited_def)
next
  case (Cons c cs)
  let ?T = "\<lambda>t. tree_leaves C B scope sec (lookup t)" and ?e = "p + length (data c)"
  define i where "i \<longleftrightarrow> inserts \<and> \<not> inserted \<and> (ed_start ed < ?e \<or> cs = [])"
  have len: "pr_byte_len c = length (data c)" using Cons.prems(2) by simp
  obtain t1 r1 r2 where v: "call c p i t = (t1, Inr r1)" "visit_children ed inserts call cs ?e (inserted \<or> i) t1 = (t', Inr (r2, p', i'))" "rs = r1 @ r2"
    using Cons.prems(4) len by (auto simp: op_then_Inr Let_def i_def split: option.splits)
  have 1: "lookup t \<subseteq>\<^sub>m lookup t1" "streams (?T t1) r1 (edited ed i p (data c))"
    using Cons.prems(1) [OF _ _ Cons.prems(3) v(1)] len by (simp_all add: Let_def i_def)
  have 2: "lookup t1 \<subseteq>\<^sub>m lookup t' \<and> streams (?T t') r2 (edited ed (inserts \<and> \<not> (inserted \<or> i)) ?e (concat (map data cs)))"
  proof (rule Cons.IH)
    show "S \<subseteq>\<^sub>m lookup t1" by (rule map_le_trans [OF Cons.prems(3) 1(1)])
    show "cs \<noteq> [] \<or> \<not> (inserts \<and> \<not> (inserted \<or> i))" by (auto simp: i_def)
    show "lookup u \<subseteq>\<^sub>m lookup u' \<and> streams (?T u') ss (edited ed j q (data d))"
      if "d \<in> set cs" "(d, q, j, u) \<in> set (children_calls ed inserts call cs ?e (inserted \<or> i) t1)" "S \<subseteq>\<^sub>m lookup u"
        "call d q j u = (u', Inr ss)" for d q j u u' ss
      using Cons.prems(1) [OF _ _ that(3,4)] that(1,2) v(1) len by (simp add: Let_def i_def)
  qed (use Cons.prems(2) v(2) in simp_all)
  have "streams (?T t') rs (edited ed i p (data c) @ edited ed (inserts \<and> \<not> (inserted \<or> i)) ?e (concat (map data cs)))"
    using streams_append [OF streams_mono [OF 1(2)]] 2 v(3) by blast
  moreover have "edited ed i p (data c) @ edited ed (inserts \<and> \<not> (inserted \<or> i)) ?e (concat (map data cs)) =
      edited ed (inserts \<and> \<not> inserted) p (concat (map data (c # cs)))"
    using edited_split [OF ed, of p "data c" "concat (map data cs)"]
    by (cases "inserts \<and> \<not> inserted"; cases "ed_start ed < ?e"; cases "cs = []") (auto simp: i_def edited_def)
  ultimately show ?case using 1(1) 2 map_le_trans by auto
qed

text \<open>The page a visit reads is the stored one.\<close>

lemma edit_visit_fetched:
  fixes C :: "'m page_codec" and fetch :: "('t, 'e) page_fetch"
  assumes "keeps_store fetch lookup" "no_second_preimage B (on_page fetch) S" "tree_leaves C B (ed_scope ed) (ed_section ed) S r = Some ls"
    "edit_opens ed r p i" "edit_visit C B fetch sink ed r p i t = (t', Inr rs)"
  obtains t1 enc page where "fetch r t = (t1, Ok enc)" "lookup t \<subseteq>\<^sub>m lookup t1" "S r = Some enc"
    "verify_page C B r (ed_scope ed) (ed_section ed) enc = Ok page"
    "case pg_body page of
       Leaf bytes \<Rightarrow> \<exists>changed. edit_leaf ed r p i bytes = (Ok changed :: (('m, 'e) stream_error, _) result)
         \<and> edit_emits C B sink ed 0 (map Leaf (chunks 61440 changed)) (Some r) t1 = (t', Inr rs)
     | Index cs \<Rightarrow> \<exists>t2 changed p' i'. visit_children ed i (edit_visit C B fetch sink ed) cs p False t1 = (t2, Inr (changed, p', i'))
         \<and> edit_emits C B sink ed (pr_height r) (map Index (chunks 128 changed)) (Some r) t2 = (t', Inr rs)"
proof -
  obtain enc where enc: "S r = Some enc" using assms(3) by (cases rule: tree_leaves_SomeE) auto
  obtain stop where stop: "checked_add 64 p (pr_byte_len r) = Some stop" "stop = p + pr_byte_len r"
    using assms(5) by (subst (asm) edit_visit.simps) (auto split: option.splits)
  note opens = assms(4) [unfolded edit_opens_def]
  obtain t1 x where f: "fetch r t = (t1, x)" by (rule prod.exhaust)
  obtain b where b: "x = Ok b"
    using opens assms(5) stop f by (subst (asm) edit_visit.simps) (auto split: sum.splits)
  obtain page where page: "verify_page C B r (ed_scope ed) (ed_section ed) b = Ok page"
    using opens assms(5) stop f b by (subst (asm) edit_visit.simps) (auto split: sum.splits)
  have same: "b = enc" using fetched_page [OF assms(3,2) f [unfolded b] page] enc by simp
  show thesis
  proof (rule that [OF _ _ enc])
    show "fetch r t = (t1, Ok enc)" using f b same by simp
    show "lookup t \<subseteq>\<^sub>m lookup t1" using assms(1) f by (auto simp: keeps_store_def)
    show "verify_page C B r (ed_scope ed) (ed_section ed) enc = Ok page" using page same by simp
    show "case pg_body page of
       Leaf bytes \<Rightarrow> \<exists>changed. edit_leaf ed r p i bytes = (Ok changed :: (('m, 'e) stream_error, _) result)
         \<and> edit_emits C B sink ed 0 (map Leaf (chunks 61440 changed)) (Some r) t1 = (t', Inr rs)
     | Index cs \<Rightarrow> \<exists>t2 changed p' i'. visit_children ed i (edit_visit C B fetch sink ed) cs p False t1 = (t2, Inr (changed, p', i'))
         \<and> edit_emits C B sink ed (pr_height r) (map Index (chunks 128 changed)) (Some r) t2 = (t', Inr rs)"
      using opens assms(5) stop f b page by (subst (asm) edit_visit.simps) (auto split: page_body.splits sum.splits prod.splits if_splits)
  qed
qed

lemma edit_leaf_page_edited:
  fixes C :: "'m page_codec" and sink :: "('t, 'e) page_sink"
  assumes C: "codec_roundtrip C" and sink: "lawful_sink sink lookup" and S: "S \<subseteq>\<^sub>m lookup t"
    and page: "verify_page C B r (ed_scope ed) (ed_section ed) enc = Ok page" "pg_body page = Leaf bytes"
    and new: "\<And>bs. bs \<in> set (chunks 61440 changed) \<Longrightarrow> reusable C B S (Some r) (edit_page ed 0 (Leaf bs))"
    and ch: "edit_leaf ed r p i bytes = (Ok changed :: (('m, 'e) stream_error, _) result)"
      "edit_emits C B sink ed 0 (map Leaf (chunks 61440 changed)) (Some r) t = (t', Inr rs)"
  shows "lookup t \<subseteq>\<^sub>m lookup t' \<and> streams (tree_leaves C B (ed_scope ed) (ed_section ed) (lookup t')) rs (edited ed i p bytes)"
proof -
  have "changed = edited ed i p bytes" using edit_leaf_edited [OF ch(1)] verified_leaf [OF page] by simp
  moreover have "lookup t \<subseteq>\<^sub>m lookup t' \<and> denotes (tree_leaves C B (ed_scope ed) (ed_section ed) (lookup t')) rs (chunks 61440 changed)"
    using edit_emits_denotes [OF C sink _ S ch(2) body_leaves_chunks] new by (simp add: concat_map_singleton)
  ultimately show ?thesis by (auto simp: streams_def)
qed

lemma edit_index_page_edited:
  assumes C: "codec_roundtrip C" and sink: "lawful_sink sink lookup" and S: "S \<subseteq>\<^sub>m lookup t" and ed: "ed_start ed \<le> ed_end ed"
    and page: "S r = Some enc" "verify_page C B r (ed_scope ed) (ed_section ed) enc = Ok page" "pg_body page = Index cs"
    and tree: "tree_leaves C B (ed_scope ed) (ed_section ed) S r = Some ls"
    and call: "\<And>c l q j u u' rs. c \<in> set cs \<Longrightarrow> (c, q, j, u) \<in> set (children_calls ed i call cs p False t) \<Longrightarrow>
      tree_leaves C B (ed_scope ed) (ed_section ed) S c = Some l \<Longrightarrow> S \<subseteq>\<^sub>m lookup u \<Longrightarrow> call c q j u = (u', Inr rs) \<Longrightarrow>
      lookup u \<subseteq>\<^sub>m lookup u' \<and> streams (tree_leaves C B (ed_scope ed) (ed_section ed) (lookup u')) rs (edited ed j q (concat l))"
    and new: "\<And>refs. refs \<in> set (chunks 128 changed) \<Longrightarrow> reusable C B S (Some r) (edit_page ed (pr_height r) (Index refs))"
    and ch: "visit_children ed i call cs p False t = (t1, Inr (changed, p', i'))"
      "edit_emits C B sink ed (pr_height r) (map Index (chunks 128 changed)) (Some r) t1 = (t', Inr rs)"
  shows "lookup t \<subseteq>\<^sub>m lookup t' \<and> streams (tree_leaves C B (ed_scope ed) (ed_section ed) (lookup t')) rs (edited ed i p (concat ls))"
proof -
  let ?T = "\<lambda>S. tree_leaves C B (ed_scope ed) (ed_section ed) S"
  define data where "data c = concat (the (?T S c))" for c
  obtain lss where lss: "map (?T S) cs = map Some lss" "ls = concat lss"
    using tree by (rule tree_leaves_SomeE) (use page in auto)
  have child: "\<exists>l. ?T S c = Some l \<and> concat l = data c" if "c \<in> set cs" for c
    using lss(1) that by (auto simp: map_eq_Some_nth data_def in_set_conv_nth)
  have "map data cs = map concat lss" using lss(1) by (intro nth_equalityI) (auto simp: map_eq_Some_nth data_def)
  moreover have "concat (map concat kss) = concat (concat kss)" for kss :: "byte list list list" by (induction kss) simp_all
  ultimately have d: "concat (map data cs) = concat ls" by (simp add: lss(2))
  have 1: "lookup t \<subseteq>\<^sub>m lookup t1 \<and> streams (?T (lookup t1)) changed (edited ed (i \<and> \<not> False) p (concat (map data cs)))"
  proof (rule visit_children_edited [where S = S and call = call])
    show "pr_byte_len c = length (data c)" if "c \<in> set cs" for c using child [OF that] tree_leaves_sizes by metis
    show "lookup u \<subseteq>\<^sub>m lookup u' \<and> streams (?T (lookup u')) ss (edited ed j q (data c))"
      if "c \<in> set cs" "(c, q, j, u) \<in> set (children_calls ed i call cs p False t)" "S \<subseteq>\<^sub>m lookup u" "call c q j u = (u', Inr ss)"
      for c q j u u' ss
      using child [OF that(1)] call [OF that(1,2) _ that(3,4)] by metis
  qed (use ed S ch(1) verified_index [OF page(2,3)] in simp_all)
  then obtain l where l: "denotes (?T (lookup t1)) changed l" "concat l = edited ed i p (concat ls)" by (auto simp: streams_def d)
  obtain kss where kss: "list_all2 (body_leaves (?T (lookup t1))) (map Index (chunks 128 changed)) kss" "concat kss = l"
    using body_leaves_index_chunks [OF _ l(1), of 128] by auto
  have "S \<subseteq>\<^sub>m lookup t1" using map_le_trans [OF S] 1 by blast
  from edit_emits_denotes [OF C sink _ this ch(2) kss(1)] new kss(2) l(2) 1 show ?thesis
    using map_le_trans [of "lookup t" "lookup t1" "lookup t'"] by (auto simp: streams_def)
qed

lemma edit_visit_edited:
  fixes C :: "'m page_codec" and fetch :: "('t, 'e) page_fetch"
  assumes C: "codec_roundtrip C" and sink: "lawful_sink sink lookup"
    and fetch: "keeps_store fetch lookup" "no_second_preimage B (on_page fetch) S" and ed: "ed_start ed \<le> ed_end ed"
    and tree: "tree_leaves C B (ed_scope ed) (ed_section ed) S r = Some ls" "S \<subseteq>\<^sub>m lookup t"
    and run: "edit_visit C B fetch sink ed r p i t = (t', Inr rs)" and free: "edit_collision_free C B fetch sink S ed r p i t"
  shows "lookup t \<subseteq>\<^sub>m lookup t' \<and> streams (tree_leaves C B (ed_scope ed) (ed_section ed) (lookup t')) rs (edited ed i p (concat ls))"
  using tree run free
proof (induction "pr_height r" arbitrary: r ls p i t t' rs rule: less_induct)
  case less
  let ?T = "\<lambda>t. tree_leaves C B (ed_scope ed) (ed_section ed) (lookup t)" and ?d = "concat ls"
  have len: "pr_byte_len r = length ?d" using tree_leaves_sizes [OF less.prems(1)] by simp
  have small: "p + length ?d < 2 ^ 64"
    using less.prems(3) len by (subst (asm) edit_visit.simps) (auto simp: checked_add_def split: if_splits)
  consider "\<not> i" "ed_start ed \<le> p" "p + length ?d \<le> ed_end ed" | "\<not> i" "p + length ?d \<le> ed_start ed \<or> ed_end ed \<le> p"
      "\<not> (ed_start ed \<le> p \<and> p + length ?d \<le> ed_end ed)"
    | "edit_opens ed r p i" unfolding edit_opens_def len by blast
  then show ?case
  proof cases
    case 1
    then have "t' = t" "rs = []" using less.prems(3) len small by (subst (asm) edit_visit.simps, simp add: checked_add_def)+
    then show ?thesis using edited_outside(1) [OF ed 1(2,3)] 1(1) by (simp add: streams_def)
  next
    case 2
    then have "t' = t" "rs = [r]" using less.prems(3) len small by (subst (asm) edit_visit.simps, simp add: checked_add_def)+
    then show ?thesis using edited_outside(2) [OF ed 2(2)] 2(1) tree_leaves_mono [OF less.prems(1,2)] by (simp add: streams_def)
  next
    case 3
    obtain t1 enc page where fr: "fetch r t = (t1, Ok enc)" and f: "lookup t \<subseteq>\<^sub>m lookup t1" "S r = Some enc" "verify_page C B r (ed_scope ed) (ed_section ed) enc = Ok page"
      "case pg_body page of
         Leaf bytes \<Rightarrow> \<exists>changed. edit_leaf ed r p i bytes = (Ok changed :: (('m, 'e) stream_error, _) result)
           \<and> edit_emits C B sink ed 0 (map Leaf (chunks 61440 changed)) (Some r) t1 = (t', Inr rs)
       | Index cs \<Rightarrow> \<exists>t2 changed p' i'. visit_children ed i (edit_visit C B fetch sink ed) cs p False t1 = (t2, Inr (changed, p', i'))
           \<and> edit_emits C B sink ed (pr_height r) (map Index (chunks 128 changed)) (Some r) t2 = (t', Inr rs)"
      using edit_visit_fetched [OF fetch less.prems(1) 3 less.prems(3)] by auto
    note new = less.prems(4) [unfolded edit_collision_free_def, rule_format]
    note S1 = map_le_trans [OF less.prems(2) f(1)]
    show ?thesis
    proof (cases "pg_body page")
      case (Leaf bytes)
      have "?d = bytes" using less.prems(1) tree_leaves_leafI [of S r enc, OF f(2,3) Leaf] by auto
      moreover obtain changed where ch: "edit_leaf ed r p i bytes = (Ok changed :: (('m, 'e) stream_error, _) result)"
        "edit_emits C B sink ed 0 (map Leaf (chunks 61440 changed)) (Some r) t1 = (t', Inr rs)" using f(4) Leaf by auto
      moreover have "reusable C B S (Some r) (edit_page ed 0 (Leaf bs))" if "bs \<in> set (chunks 61440 changed)" for bs
        by (rule new, rule rewrites_leaf [where fetch = fetch, OF 3 fr f(3) Leaf ch(1)]) (use that in simp)
      ultimately show ?thesis using edit_leaf_page_edited [OF C sink S1 f(3) Leaf _ ch] map_le_trans [OF f(1)] by auto
    next
      case (Index cs)
      have lower: "pr_height c < pr_height r" if "c \<in> set cs" for c using verified_index [OF f(3) Index] that by (metis lessI)
      obtain t2 changed p' i' where ch: "visit_children ed i (edit_visit C B fetch sink ed) cs p False t1 = (t2, Inr (changed, p', i'))"
        "edit_emits C B sink ed (pr_height r) (map Index (chunks 128 changed)) (Some r) t2 = (t', Inr rs)" using f(4) Index by auto
      have call: "lookup u \<subseteq>\<^sub>m lookup u' \<and> streams (?T u') ss (edited ed j q (concat l))"
        if "c \<in> set cs" "(c, q, j, u) \<in> set (children_calls ed i (edit_visit C B fetch sink ed) cs p False t1)"
          "tree_leaves C B (ed_scope ed) (ed_section ed) S c = Some l" "S \<subseteq>\<^sub>m lookup u" "edit_visit C B fetch sink ed c q j u = (u', Inr ss)"
        for c l q j u u' ss
        using less.hyps [OF lower [OF that(1)] that(3-5)] new rewrites_child [where fetch = fetch, OF 3 fr f(3) Index that(2)]
        by (auto simp: edit_collision_free_def)
      have "reusable C B S (Some r) (edit_page ed (pr_height r) (Index refs))" if "refs \<in> set (chunks 128 changed)" for refs
        by (rule new, rule rewrites_index [where fetch = fetch, OF 3 fr f(3) Index ch(1)]) (use that in simp)
      from edit_index_page_edited [OF C sink S1 ed f(2,3) Index less.prems(1) call this ch] map_le_trans [OF f(1)]
      show ?thesis by auto
    qed
  qed
qed

section \<open>Properties\<close>

text \<open>The page \<open>splice\<close> makes of the changed references.\<close>

lemma splice_root:
  assumes C: "codec_roundtrip C" and sink: "lawful_sink sink lookup" and S: "S \<subseteq>\<^sub>m lookup t"
    and roots: "streams (tree_leaves C B (ed_scope ed) (ed_section ed) (lookup t)) roots data"
    and run: "(if roots = [] then edit_emit C B sink ed 0 (Leaf []) None
       else if length roots = 1 then op_result (Ok (hd roots))
       else edit_emit C B sink ed h (Index roots) None) t = (t', Inr root)"
  shows "lookup t \<subseteq>\<^sub>m lookup t' \<and> streams (tree_leaves C B (ed_scope ed) (ed_section ed) (lookup t')) [root] data"
proof -
  let ?T = "tree_leaves C B (ed_scope ed) (ed_section ed) (lookup t)"
  obtain ls where ls: "denotes ?T roots ls" "concat ls = data" using roots by (auto simp: streams_def)
  have fresh: "reusable C B S None page" for page by (simp add: reusable_def)
  note emit = edit_emit_denotes [OF C sink fresh S, where self = ed and r = root and t' = t']
  consider "roots = []" | r where "roots = [r]" | "roots \<noteq> []" "length roots \<noteq> 1" by (cases roots) auto
  then show ?thesis
  proof cases
    case 1
    then have "body_leaves ?T (Leaf []) [[]]" "data = []" using ls by (simp_all add: body_leaves_def)
    then show ?thesis using emit [of 0 "Leaf []" "[[]]"] run 1 by (auto simp: streams_def)
  next
    case 2
    then show ?thesis using run roots by simp
  next
    case 3
    then show ?thesis using emit [of h "Index roots" ls] run ls by (auto simp: streams_def body_leaves_def)
  qed
qed

text \<open>C8: \<open>splice\<close> edits the stream. If it returns a root, over a lawful sink and a callback that finds no second
  preimage and deletes nothing, then the new root denotes the old bytes with the range replaced, all pages
  it needs are in the store, and no earlier page is lost. Since a page with the reference of the page it
  replaces is not written again, the pages this edit makes must not collide with those they replace.\<close>

theorem splice_edits:
  fixes C :: "'m page_codec"
  assumes C: "codec_roundtrip C" and sink: "lawful_sink sink lookup" and S: "S \<subseteq>\<^sub>m lookup t"
    and free: "edit_collision_free C B fetch sink S
      \<lparr>ed_scope = scope, ed_section = sec, ed_start = lo, ed_end = hi, ed_replacement = replacement\<rparr> self 0 True t"
    and fetch: "keeps_store fetch lookup" "no_second_preimage B (on_page fetch) S"
    and tree: "tree_leaves C B scope sec S self = Some ls"
    and run: "splice C B fetch sink self scope sec lo hi replacement t = (t', Ok root)"
  shows "lookup t \<subseteq>\<^sub>m lookup t' \<and> (\<exists>ls'. tree_leaves C B scope sec (lookup t') root = Some ls'
    \<and> concat ls' = take lo (concat ls) @ replacement @ drop hi (concat ls))"
proof (cases "lo = hi \<and> replacement = []")
  case True
  then have "t' = t" "root = self" using run by (auto simp: splice_def op_then_Inr Let_def split: if_splits)
  then show ?thesis using True tree_leaves_mono [OF tree S] by auto
next
  case False
  let ?ed = "\<lparr>ed_scope = scope, ed_section = sec, ed_start = lo, ed_end = hi, ed_replacement = replacement\<rparr>"
  obtain roots t1 where v: "lo \<le> hi" "edit_visit C B fetch sink ?ed self 0 True t = (t1, Inr roots)"
    "(if roots = [] then edit_emit C B sink ?ed 0 (Leaf []) None
      else if length roots = 1 then op_result (Ok (hd roots))
      else edit_emit C B sink ?ed (pr_height self + 1) (Index roots) None) t1 = (t', Inr root)"
    using run False unfolding splice_def by (auto simp: op_then_Inr Let_def split: if_splits)
  have 1: "lookup t \<subseteq>\<^sub>m lookup t1 \<and> streams (tree_leaves C B scope sec (lookup t1)) roots (edited ?ed True 0 (concat ls))"
    using edit_visit_edited [OF C sink fetch _ _ S v(2) free] v(1) tree by simp
  have "lookup t1 \<subseteq>\<^sub>m lookup t' \<and> streams (tree_leaves C B scope sec (lookup t')) [root] (edited ?ed True 0 (concat ls))"
    using splice_root [OF C sink _ _ v(3), of S "edited ?ed True 0 (concat ls)"] map_le_trans [OF S] 1 by simp
  then show ?thesis using 1 map_le_trans [of "lookup t" "lookup t1" "lookup t'"] by (auto simp: streams_def edited_def)
qed

section \<open>Instances\<close>

definition sample_edit_store :: "page_ref \<Rightarrow> byte list option" where
  "sample_edit_store = [sample_ref [3] \<mapsto> [7, 3]]"

definition sample_edit_fetch :: "(page_ref \<Rightarrow> byte list option, unit) page_fetch" where
  "sample_edit_fetch r t = (t, case sample_edit_store r of None \<Rightarrow> Err () | Some enc \<Rightarrow> Ok enc)"

lemma sample_edit_tree: "tree_leaves sample_page_codec sample_blake3 (Guild 1) Packing sample_edit_store (sample_ref [3]) = Some [[3]]"
  by (rule sample_tree_leaves) (simp_all add: sample_edit_store_def)

lemma sample_edit_page: "verify_page sample_page_codec sample_blake3 (sample_ref [3]) (Guild 1) Packing [7, 3] = Ok (sample_page [3])"
  using verify_page_encoded [OF sample_roundtrip sample_encode [of "[3]"]] by (simp add: sample_page_def)

lemma sample_edit_collision_free:
  "edit_collision_free sample_page_codec sample_blake3 sample_edit_fetch sample_sink sample_edit_store
    \<lparr>ed_scope = Guild 1, ed_section = Packing, ed_start = 1, ed_end = 1, ed_replacement = [9]\<rparr> (sample_ref [3]) 0 True t"
proof -
  have "sample_ref [3, 9] \<noteq> sample_ref [3]" by (simp add: sample_ref_def)
  then have "reusable sample_page_codec sample_blake3 sample_edit_store (Some (sample_ref [3])) (sample_page [3, 9])"
    using sample_encode [of "[3, 9]"] by (simp add: reusable_def)
  moreover have "old = sample_ref [3] \<and> new = sample_page [3, 9]"
    if "edit_rewrites sample_page_codec sample_blake3 sample_edit_fetch sample_sink
      \<lparr>ed_scope = Guild 1, ed_section = Packing, ed_start = 1, ed_end = 1, ed_replacement = [9]\<rparr> (sample_ref [3]) 0 True t old new" for old new
  proof -
    have fetch: "sample_edit_fetch (sample_ref [3]) t = (t1, Ok enc) \<longleftrightarrow> t1 = t \<and> enc = [7, 3]" for t1 enc
      by (auto simp: sample_edit_fetch_def sample_edit_store_def)
    have body: "pg_body (sample_page [3]) = Leaf [3]" "pr_byte_len (sample_ref [3]) = 1" by (simp_all add: sample_page_def sample_ref_def)
    show ?thesis using that
      by (rule edit_rewritesE)
        (auto simp: fetch sample_edit_page body edit_leaf_def chunks_short Let_def edit_page_def sample_page_def)
  qed
  ultimately show ?thesis by (auto simp: edit_collision_free_def)
qed

lemma sample_edit_run:
  "splice sample_page_codec sample_blake3 sample_edit_fetch sample_sink (sample_ref [3]) (Guild 1) Packing 1 1 [9] sample_edit_store =
    (sample_edit_store(sample_ref [3, 9] \<mapsto> [7, 3, 9]), Ok (sample_ref [3, 9]))"
proof -
  note v = sample_edit_page
  have ne: "sample_ref [3, 9] \<noteq> sample_ref [3]" by (simp add: sample_ref_def)
  have "edit_visit sample_page_codec sample_blake3 sample_edit_fetch sample_sink
      \<lparr>ed_scope = Guild 1, ed_section = Packing, ed_start = 1, ed_end = 1, ed_replacement = [9]\<rparr> (sample_ref [3]) 0 True sample_edit_store =
    (sample_edit_store(sample_ref [3, 9] \<mapsto> [7, 3, 9]), Ok [sample_ref [3, 9]])"
    using v ne sample_encode [of "[3, 9]"]
    by (subst edit_visit.simps)
      (simp add: checked_add_def sample_edit_fetch_def sample_edit_store_def sample_ref_def [of "[3]"] sample_page_def edit_leaf_def Let_def
        chunks_short op_then_def edit_emit_def sample_sink_def)
  then show ?thesis
    by (simp add: splice_def ref_validate_def scope_validate_def sample_ref_def op_then_def Let_def)
qed

theorem splice_edits_witness:
  "\<exists>ls'. tree_leaves sample_page_codec sample_blake3 (Guild 1) Packing (sample_edit_store(sample_ref [3, 9] \<mapsto> [7, 3, 9])) (sample_ref [3, 9]) = Some ls'
    \<and> concat ls' = [3, 9]"
proof -
  have "keeps_store sample_edit_fetch (\<lambda>t. t)" by (simp add: keeps_store_def sample_edit_fetch_def)
  moreover have "no_second_preimage sample_blake3 (on_page sample_edit_fetch) sample_edit_store"
    by (auto simp: no_second_preimage_def sample_edit_fetch_def)
  ultimately show ?thesis
    using splice_edits [OF sample_roundtrip sample_sink_lawful _ sample_edit_collision_free _ _ sample_edit_tree sample_edit_run] by simp
qed

end
