(* ===== verification/BTree.thy ===== *)
theory BTree
  imports Prelude
begin

text \<open>
  \<open>BTreeSet\<close> and \<open>BTreeMap\<close> of the Rust standard library, as the lists an in-order iteration gives: strictly
  increasing elements, and entries with strictly increasing keys.
\<close>

section \<open>Sets\<close>

definition bset_insert :: "'a::linorder \<Rightarrow> 'a list \<Rightarrow> 'a list" where
  "bset_insert x xs = insort_insert x xs"

definition bset_remove :: "'a \<Rightarrow> 'a list \<Rightarrow> 'a list" where
  "bset_remove x xs = filter (\<lambda>y. y \<noteq> x) xs"

definition bset_first :: "'a list \<Rightarrow> 'a option" where
  "bset_first xs = (case xs of [] \<Rightarrow> None | x # _ \<Rightarrow> Some x)"

definition bset_of :: "'a::linorder list \<Rightarrow> 'a list" where
  "bset_of xs = foldr bset_insert xs []"

lemma set_bset_insert [simp]: "set (bset_insert x xs) = insert x (set xs)"
  by (simp add: bset_insert_def set_insort_insert)

lemma set_bset_remove [simp]: "set (bset_remove x xs) = set xs - {x}"
  by (auto simp: bset_remove_def)

lemma set_bset_of [simp]: "set (bset_of xs) = set xs"
  by (induction xs) (simp_all add: bset_of_def)

lemma bset_first_simps [simp]: "bset_first [] = None" "bset_first (x # xs) = Some x"
  by (simp_all add: bset_first_def)

lemma bset_first_Some [simp]: "bset_first xs = Some x \<longleftrightarrow> (\<exists>ys. xs = x # ys)"
  by (cases xs) simp_all

section \<open>Maps\<close>

type_synonym ('k, 'v) btree_map = "('k \<times> 'v) list"

definition bmap_ok :: "('k::linorder, 'v) btree_map \<Rightarrow> bool" where
  "bmap_ok m \<longleftrightarrow> sorted_wrt (<) (map fst m)"

fun bmap_insert :: "'k::linorder \<Rightarrow> 'v \<Rightarrow> ('k, 'v) btree_map \<Rightarrow> ('k, 'v) btree_map" where
  "bmap_insert k v [] = [(k, v)]"
| "bmap_insert k v ((k', v') # m) =
     (if k < k' then (k, v) # (k', v') # m else if k = k' then (k, v) # m else (k', v') # bmap_insert k v m)"

definition bmap_remove :: "'k \<Rightarrow> ('k, 'v) btree_map \<Rightarrow> ('k, 'v) btree_map" where
  "bmap_remove k m = filter (\<lambda>(k', _). k' \<noteq> k) m"

definition bmap_of :: "('k::linorder \<times> 'v) list \<Rightarrow> ('k, 'v) btree_map" where
  "bmap_of xs = fold (\<lambda>(k, v). bmap_insert k v) xs []"

lemma map_of_bmap_insert [simp]: "map_of (bmap_insert k v m) = (map_of m)(k \<mapsto> v)"
  by (induction m) (auto simp: fun_eq_iff)

lemma map_of_bmap_remove [simp]: "map_of (bmap_remove k m) = (map_of m)(k := None)"
  by (induction m) (auto simp: fun_eq_iff bmap_remove_def)

lemma keys_bmap_insert [simp]: "fst ` set (bmap_insert k v m) = insert k (fst ` set m)"
  by (induction k v m rule: bmap_insert.induct) (simp_all add: insert_commute)

lemma bmap_ok_Nil [simp]: "bmap_ok []"
  by (simp add: bmap_ok_def)

lemma bmap_ok_insert [simp, intro]: "bmap_ok m \<Longrightarrow> bmap_ok (bmap_insert k v m)"
proof (induction m)
  case (Cons e m)
  obtain k' v' where e: "e = (k', v')" by force
  have above: "\<forall>x \<in> fst ` set m. k' < x" using Cons.prems e by (auto simp: bmap_ok_def)
  have keys: "fst ` set (bmap_insert k v m) = insert k (fst ` set m)" by simp
  show ?case
  proof (cases "k < k' \<or> k = k'")
    case True
    then show ?thesis using Cons.prems e above by (auto simp: bmap_ok_def)
  next
    case False
    then have "\<forall>x \<in> fst ` set (bmap_insert k v m). k' < x" unfolding keys using above by auto
    then show ?thesis using False e Cons by (auto simp: bmap_ok_def)
  qed
qed (simp add: bmap_ok_def)

lemma bmap_ok_remove [simp, intro]: "bmap_ok m \<Longrightarrow> bmap_ok (bmap_remove k m)"
  by (induction m) (auto simp: bmap_ok_def bmap_remove_def)

lemma bmap_ok_distinct: "bmap_ok m \<Longrightarrow> distinct (map fst m)"
  by (simp add: bmap_ok_def strict_sorted_iff)

lemma bmap_ok_lookup: "bmap_ok m \<Longrightarrow> (k, v) \<in> set m \<longleftrightarrow> map_of m k = Some v"
  using bmap_ok_distinct by (auto dest: map_of_SomeD)

lemma bmap_of_snoc: "bmap_of (xs @ [(k, v)]) = bmap_insert k v (bmap_of xs)"
  by (simp add: bmap_of_def)

lemma bmap_ok_of [simp]: "bmap_ok (bmap_of xs)"
proof (induction xs rule: rev_induct)
  case (snoc x xs)
  then show ?case by (cases x) (simp add: bmap_of_snoc)
qed (simp add: bmap_of_def)

lemma map_of_bmap_of: "map_of (bmap_of xs) = map_of (rev xs)"
proof (induction xs rule: rev_induct)
  case (snoc x xs)
  then show ?case by (cases x) (simp add: bmap_of_snoc)
qed (simp add: bmap_of_def)

lemma keys_bmap_of [simp]: "fst ` set (bmap_of xs) = fst ` set xs"
proof (induction xs rule: rev_induct)
  case (snoc x xs)
  then show ?case by (cases x) (simp add: bmap_of_snoc)
qed (simp add: bmap_of_def)

end
