(* ===== verification/Keys.thy ===== *)
theory Keys
  imports Prelude
begin

text \<open>
  Key derivation, signing and sealing: \<open>src/crates/mb-core/src/keys.rs\<close> and \<open>recovery.rs\<close>. The
  primitives (HKDF, Argon2id, Ed25519, X25519, the two AEAD ciphers and the strength
  estimator) are third-party code and the fields of the parameter \<open>crypto\<close>; the random bytes an
  operation draws are its arguments. The laws the code relies on are the predicates
  \<open>ed25519_correct\<close>, \<open>x25519_correct\<close> and \<open>aead_correct\<close>. Strings of the source are lists of
  characters here, byte string literals their ASCII codes.
\<close>

section \<open>Parameters\<close>

type_synonym node_id = digest
type_synonym secret = digest

record aead =
  encrypt :: "digest \<Rightarrow> byte list \<Rightarrow> byte list \<Rightarrow> byte list \<Rightarrow> byte list option"
  decrypt :: "digest \<Rightarrow> byte list \<Rightarrow> byte list \<Rightarrow> byte list \<Rightarrow> byte list option"

record crypto =
  hkdf_sha256 :: "byte list \<Rightarrow> byte list \<Rightarrow> byte list \<Rightarrow> digest"
  argon2id :: "byte list \<Rightarrow> byte list \<Rightarrow> digest"
  strength_acceptable :: "nat list \<Rightarrow> bool"
  ed_public :: "secret \<Rightarrow> digest"
  ed_sign :: "secret \<Rightarrow> byte list \<Rightarrow> byte list"
  ed_valid :: "digest \<Rightarrow> bool"
  ed_weak :: "digest \<Rightarrow> bool"
  ed_verify_strict :: "digest \<Rightarrow> byte list \<Rightarrow> byte list \<Rightarrow> bool"
  x_public :: "secret \<Rightarrow> digest"
  x_diffie_hellman :: "secret \<Rightarrow> digest \<Rightarrow> digest"
  x_contributory :: "digest \<Rightarrow> bool"
  chacha20 :: aead
  xchacha20 :: aead

definition ascii :: "string \<Rightarrow> byte list" where
  "ascii s = map of_char s"

section \<open>Recovery strings\<close>

datatype seed_parse_error = InvalidUtf8 | Length | NonPrintable | TooWeak | Generation

text \<open>A \<open>char\<close> is its code point. \<open>char::is_whitespace\<close> is the Unicode property \<open>White_Space\<close>.\<close>

definition is_whitespace :: "nat \<Rightarrow> bool" where
  "is_whitespace c \<longleftrightarrow> c \<in> {9..13} \<or> c \<in> {0x2000..0x200A}
     \<or> c \<in> {0x20, 0x85, 0xA0, 0x1680, 0x2028, 0x2029, 0x202F, 0x205F, 0x3000}"

definition is_ascii_graphic :: "nat \<Rightarrow> bool" where
  "is_ascii_graphic c \<longleftrightarrow> 33 \<le> c \<and> c \<le> 126"

definition normalize_recovery_string :: "nat list \<Rightarrow> (seed_parse_error, nat list) result" where
  "normalize_recovery_string value =
     (let normalized = filter (\<lambda>c. \<not> is_whitespace c) value in
      if \<not> (8 \<le> length normalized \<and> length normalized \<le> 1024) then Err Length
      else if \<not> list_all is_ascii_graphic normalized then Err NonPrintable
      else Ok normalized)"

text \<open>The normalised string is ASCII, so its UTF-8 bytes are its characters.\<close>

definition seed_from_recovery_string :: "crypto \<Rightarrow> blake3 \<Rightarrow> nat list \<Rightarrow> (seed_parse_error, secret) result" where
  "seed_from_recovery_string K B value =
     and_then (normalize_recovery_string value) (\<lambda>normalized.
     if \<not> strength_acceptable K normalized then Err TooWeak
     else
      (let bytes = map word_of_nat normalized;
           salt_material = digest_bytes (derive_key B ''mutualbackup recovery string argon2 salt v1'' bytes) in
       Ok (argon2id K bytes (take 16 salt_material))))"

section \<open>Key material\<close>

record key_material =
  km_signing :: secret
  km_recovery_secret :: secret
  km_storage_key :: secret

definition derive_with_context :: "crypto \<Rightarrow> byte list \<Rightarrow> byte list \<Rightarrow> byte list \<Rightarrow> digest" where
  "derive_with_context K key salt context = hkdf_sha256 K salt key context"

definition derive :: "crypto \<Rightarrow> secret \<Rightarrow> byte list \<Rightarrow> digest" where
  "derive K seed purpose = derive_with_context K (digest_bytes seed) (ascii ''mutualbackup/v1'') purpose"

definition from_seed :: "crypto \<Rightarrow> secret \<Rightarrow> key_material" where
  "from_seed K seed = \<lparr>
     km_signing = derive K seed (ascii ''identity/ed25519''),
     km_recovery_secret = derive K seed (ascii ''recovery/x25519''),
     km_storage_key = derive K seed (ascii ''local/storage-root'')\<rparr>"

definition key_node_id :: "crypto \<Rightarrow> key_material \<Rightarrow> node_id" where
  "key_node_id K keys = ed_public K (km_signing keys)"

definition recovery_public_key :: "crypto \<Rightarrow> key_material \<Rightarrow> digest" where
  "recovery_public_key K keys = x_public K (km_recovery_secret keys)"

text \<open>\<open>RecoveryPublicKey::is_contributory\<close> probes the key with the secret \<open>[0x5a; 32]\<close>.\<close>

definition is_contributory :: "crypto \<Rightarrow> digest \<Rightarrow> bool" where
  "is_contributory K pk \<longleftrightarrow> x_contributory K (x_diffie_hellman K (digest_of (replicate 32 0x5a)) pk)"

definition database_key :: "crypto \<Rightarrow> key_material \<Rightarrow> byte list \<Rightarrow> digest" where
  "database_key K keys database_id =
     derive_with_context K (digest_bytes (km_storage_key keys)) (ascii ''local/database/v1'') database_id"

definition guild_data_key :: "crypto \<Rightarrow> key_material \<Rightarrow> digest \<Rightarrow> digest" where
  "guild_data_key K keys guild_id =
     derive_with_context K (digest_bytes (km_signing keys)) (ascii ''guild/data/v1'') (digest_bytes guild_id)"

definition guild_content_id_key :: "crypto \<Rightarrow> key_material \<Rightarrow> digest \<Rightarrow> digest" where
  "guild_content_id_key K keys guild_id =
     derive_with_context K (digest_bytes (km_signing keys)) (ascii ''guild/content-id/v2'') (digest_bytes guild_id)"

definition signing_payload :: "byte list \<Rightarrow> byte list \<Rightarrow> byte list" where
  "signing_payload domain bytes = be_bytes 4 (length domain mod 2 ^ 32) @ domain @ bytes"

definition sign :: "crypto \<Rightarrow> key_material \<Rightarrow> byte list \<Rightarrow> byte list \<Rightarrow> byte list" where
  "sign K keys domain bytes = ed_sign K (km_signing keys) (signing_payload domain bytes)"

section \<open>Wrapped database keys\<close>

datatype database_key_error = InvalidEnvelope | Encryption

record wrapped_database_key =
  wk_format_version :: nat
  wk_nonce :: "byte list"
  wk_ciphertext :: "byte list"

definition wrapping_key :: "crypto \<Rightarrow> key_material \<Rightarrow> byte list \<Rightarrow> digest" where
  "wrapping_key K keys database_id =
     derive_with_context K (digest_bytes (km_storage_key keys)) (ascii ''local/database-key-wrap/v1'') database_id"

definition wrap_database_key ::
    "crypto \<Rightarrow> key_material \<Rightarrow> byte list \<Rightarrow> byte list \<Rightarrow> digest \<Rightarrow> (database_key_error, wrapped_database_key) result" where
  "wrap_database_key K keys nonce database_id key =
     (case encrypt (chacha20 K) (wrapping_key K keys database_id) nonce database_id (digest_bytes key) of
        None \<Rightarrow> Err Encryption
      | Some ciphertext \<Rightarrow> Ok \<lparr>wk_format_version = 1, wk_nonce = nonce, wk_ciphertext = ciphertext\<rparr>)"

definition unwrap_database_key ::
    "crypto \<Rightarrow> key_material \<Rightarrow> byte list \<Rightarrow> wrapped_database_key \<Rightarrow> (database_key_error, digest) result" where
  "unwrap_database_key K keys database_id envelope =
     (if wk_format_version envelope \<noteq> 1 \<or> length (wk_ciphertext envelope) \<noteq> 48 then Err InvalidEnvelope
      else case decrypt (chacha20 K) (wrapping_key K keys database_id) (wk_nonce envelope) database_id (wk_ciphertext envelope) of
        None \<Rightarrow> Err InvalidEnvelope
      | Some plaintext \<Rightarrow> if length plaintext \<noteq> 32 then Err InvalidEnvelope else Ok (digest_of plaintext))"

section \<open>Sealed recovery records\<close>

datatype recovery_crypto_error = Version | Encrypt | Authentication

record sealed_recovery_record =
  sr_format_version :: nat
  sr_ephemeral_public_key :: digest
  sr_nonce :: "byte list"
  sr_ciphertext :: "byte list"

definition associated_data :: "digest \<Rightarrow> digest \<Rightarrow> byte list" where
  "associated_data ephemeral recipient =
     ascii ''mutualbackup/recovery-record/v1'' @ digest_bytes ephemeral @ digest_bytes recipient"

definition recovery_aead_key :: "crypto \<Rightarrow> digest \<Rightarrow> digest \<Rightarrow> digest \<Rightarrow> digest" where
  "recovery_aead_key K shared_secret ephemeral recipient =
     hkdf_sha256 K (ascii ''mutualbackup recovery record v1'') (digest_bytes shared_secret) (associated_data ephemeral recipient)"

definition seal_recovery_record ::
    "crypto \<Rightarrow> secret \<Rightarrow> byte list \<Rightarrow> digest \<Rightarrow> byte list \<Rightarrow> (recovery_crypto_error, sealed_recovery_record) result" where
  "seal_recovery_record K ephemeral_secret nonce recipient plaintext =
     (let ephemeral = x_public K ephemeral_secret;
          shared_secret = x_diffie_hellman K ephemeral_secret recipient in
      if \<not> x_contributory K shared_secret then Err Authentication
      else case encrypt (xchacha20 K) (recovery_aead_key K shared_secret ephemeral recipient) nonce
          (associated_data ephemeral recipient) plaintext of
        None \<Rightarrow> Err Encrypt
      | Some ciphertext \<Rightarrow> Ok \<lparr>sr_format_version = 1, sr_ephemeral_public_key = ephemeral, sr_nonce = nonce,
          sr_ciphertext = ciphertext\<rparr>)"

definition open_recovery_record_with_secret ::
    "crypto \<Rightarrow> secret \<Rightarrow> digest \<Rightarrow> sealed_recovery_record \<Rightarrow> (recovery_crypto_error, byte list) result" where
  "open_recovery_record_with_secret K secret recipient_public record =
     (if sr_format_version record \<noteq> 1 then Err Version
      else
       (let ephemeral = sr_ephemeral_public_key record;
            shared_secret = x_diffie_hellman K secret ephemeral in
        if \<not> x_contributory K shared_secret then Err Authentication
        else ok_or (decrypt (xchacha20 K) (recovery_aead_key K shared_secret ephemeral recipient_public) (sr_nonce record)
          (associated_data ephemeral recipient_public) (sr_ciphertext record)) Authentication))"

definition open_recovery_record ::
    "crypto \<Rightarrow> key_material \<Rightarrow> sealed_recovery_record \<Rightarrow> (recovery_crypto_error, byte list) result" where
  "open_recovery_record K keys record =
     open_recovery_record_with_secret K (km_recovery_secret keys) (recovery_public_key K keys) record"

section \<open>Laws of the primitives\<close>

definition aead_correct :: "aead \<Rightarrow> bool" where
  "aead_correct A \<longleftrightarrow> (\<forall>k n a m c. encrypt A k n a m = Some c \<longrightarrow> decrypt A k n a c = Some m \<and> length c = length m + 16)"

definition x25519_correct :: "crypto \<Rightarrow> bool" where
  "x25519_correct K \<longleftrightarrow> (\<forall>a b. x_diffie_hellman K a (x_public K b) = x_diffie_hellman K b (x_public K a))"

definition ed25519_correct :: "crypto \<Rightarrow> bool" where
  "ed25519_correct K \<longleftrightarrow> (\<forall>s m. ed_verify_strict K (ed_public K s) m (ed_sign K s m)
     \<and> length (ed_sign K s m) = 64 \<and> ed_valid K (ed_public K s))"

lemma aead_correctD:
  assumes "aead_correct A" "encrypt A k n a m = Some c"
  shows "decrypt A k n a c = Some m" "length c = length m + 16"
  using assms by (auto simp: aead_correct_def)

lemma aead_decrypt_unique:
  assumes "aead_correct A" "encrypt A k n a m = Some c" "encrypt A k n a m' = Some c"
  shows "m = m'"
  using aead_correctD(1) [OF assms(1,2)] aead_correctD(1) [OF assms(1,3)] by simp

section \<open>Domain separation\<close>

lemma signing_payload_inject:
  assumes "length d < 2 ^ 32" "length d' < 2 ^ 32"
  shows "signing_payload d b = signing_payload d' b' \<longleftrightarrow> d = d' \<and> b = b'"
proof
  assume eq: "signing_payload d b = signing_payload d' b'"
  then have "be_bytes 4 (length d) = be_bytes 4 (length d')" "d @ b = d' @ b'"
    using assms by (simp_all add: signing_payload_def)
  moreover from this(1) have "length d = length d'" using be_bytes_inj [of "length d" 4 "length d'"] assms by simp
  ultimately show "d = d' \<and> b = b'" by simp
qed simp

section \<open>Properties\<close>

text \<open>The seed depends on the recovery string only up to whitespace: the same error or the same
  seed results whatever white space is inserted or removed. A seed is derived exactly from strings
  of 8 to 1024 printable ASCII characters (white space not counted) that the estimator accepts.\<close>

theorem recovery_string_whitespace_insensitive:
  assumes "filter (\<lambda>c. \<not> is_whitespace c) v = filter (\<lambda>c. \<not> is_whitespace c) w"
  shows "seed_from_recovery_string K B v = seed_from_recovery_string K B w \<and>
    (is_err (seed_from_recovery_string K B v) \<longleftrightarrow>
      \<not> (let n = filter (\<lambda>c. \<not> is_whitespace c) w in
         length n \<in> {8..1024} \<and> set n \<subseteq> {33..126} \<and> strength_acceptable K n))"
  using assms
  by (auto simp: seed_from_recovery_string_def normalize_recovery_string_def result_simps Let_def is_err_def
      is_ascii_graphic_def list_all_iff split: if_splits)

lemma sealed_record_opens:
  assumes "aead_correct (xchacha20 K)" "x25519_correct K"
    and "seal_recovery_record K ephemeral nonce (recovery_public_key K keys) plaintext = Ok record"
  shows "open_recovery_record K keys record = Ok plaintext"
  using assms(3) aead_correctD(1) [OF assms(1)] assms(2) [unfolded x25519_correct_def]
  by (auto simp: seal_recovery_record_def open_recovery_record_def open_recovery_record_with_secret_def
      recovery_public_key_def ok_or_def Let_def split: if_splits option.splits)

text \<open>A record sealed to a recovery public key is opened by the key's owner, for every
  ephemeral secret and nonce the sealing drew: opening returns the sealed plaintext.\<close>

theorem seal_open_roundtrip:
  assumes "aead_correct (xchacha20 K)" "x25519_correct K"
    and "seal_recovery_record K ephemeral nonce (recovery_public_key K keys) plaintext = Ok record"
  shows "open_recovery_record K keys record = Ok plaintext"
  using assms by (rule sealed_record_opens)

text \<open>C40: A wrapped database key is unwrapped to the same key under the same database identifier, and
  two wrappings with one nonce and identifier that are equal wrap the same key.\<close>

theorem wrap_unwrap_roundtrip:
  assumes "aead_correct (chacha20 K)" "wrap_database_key K keys nonce database_id key = Ok envelope"
  shows "unwrap_database_key K keys database_id envelope = Ok key \<and>
    (wrap_database_key K keys nonce database_id key' = Ok envelope \<longrightarrow> key' = key)"
proof -
  obtain c where c: "encrypt (chacha20 K) (wrapping_key K keys database_id) nonce database_id (digest_bytes key) = Some c"
    "envelope = \<lparr>wk_format_version = 1, wk_nonce = nonce, wk_ciphertext = c\<rparr>"
    using assms(2) by (auto simp: wrap_database_key_def split: option.splits)
  have "unwrap_database_key K keys database_id envelope = Ok key"
    using aead_correctD [OF assms(1) c(1)] by (simp add: unwrap_database_key_def c(2))
  moreover have "key' = key" if "wrap_database_key K keys nonce database_id key' = Ok envelope"
  proof -
    have "encrypt (chacha20 K) (wrapping_key K keys database_id) nonce database_id (digest_bytes key') = Some c"
      using that by (auto simp: wrap_database_key_def c(2) split: option.splits)
    from aead_decrypt_unique [OF assms(1) c(1) this] show ?thesis by simp
  qed
  ultimately show ?thesis by blast
qed

text \<open>A concrete instance of the parameters: the ciphers append sixteen zero bytes, the shared
  secret is the sum of the two keys, and a signature is the last byte of the payload and the key.\<close>

definition sample_aead :: aead where
  "sample_aead = \<lparr>encrypt = \<lambda>k n a m. Some (m @ zeros 16),
     decrypt = \<lambda>k n a c. if drop (length c - 16) c = zeros 16 then Some (take (length c - 16) c) else None\<rparr>"

definition sample_crypto :: crypto where
  "sample_crypto = \<lparr>hkdf_sha256 = \<lambda>salt key info. 1, argon2id = \<lambda>p salt. 2, strength_acceptable = \<lambda>n. 8 \<le> length n,
     ed_public = \<lambda>s. s, ed_sign = \<lambda>s m. ucast s # last m # zeros 62, ed_valid = \<lambda>p. True, ed_weak = \<lambda>p. False,
     ed_verify_strict = \<lambda>p m sig. sig = ucast p # last m # zeros 62,
     x_public = \<lambda>s. s, x_diffie_hellman = \<lambda>s p. s + p, x_contributory = \<lambda>s. s \<noteq> 0,
     chacha20 = sample_aead, xchacha20 = sample_aead\<rparr>"

lemma sample_crypto_simps [simp]:
  "ed_public sample_crypto s = s" "ed_sign sample_crypto s m = ucast s # last m # zeros 62"
  "ed_valid sample_crypto p" "\<not> ed_weak sample_crypto p"
  "ed_verify_strict sample_crypto p m sig \<longleftrightarrow> sig = ucast p # last m # zeros 62"
  "x_public sample_crypto s = s" "x_diffie_hellman sample_crypto s p = s + p" "x_contributory sample_crypto s \<longleftrightarrow> s \<noteq> 0"
  "chacha20 sample_crypto = sample_aead" "xchacha20 sample_crypto = sample_aead" "hkdf_sha256 sample_crypto salt key info = 1"
  by (simp_all add: sample_crypto_def)

lemma sample_crypto_correct: "aead_correct sample_aead" "x25519_correct sample_crypto" "ed25519_correct sample_crypto"
  by (auto simp: aead_correct_def sample_aead_def x25519_correct_def ed25519_correct_def add.commute)

lemma sample_encrypt: "encrypt sample_aead k n a m = Some (m @ zeros 16)"
  by (simp add: sample_aead_def)

definition sample_keys :: "digest \<Rightarrow> key_material" where
  "sample_keys k = \<lparr>km_signing = k, km_recovery_secret = k, km_storage_key = k\<rparr>"

theorem recovery_string_whitespace_insensitive_witness:
  "seed_from_recovery_string sample_crypto sample_blake3 [97, 98, 99, 100, 101, 102, 103, 32, 104] =
    seed_from_recovery_string sample_crypto sample_blake3 [97, 98, 9, 99, 100, 101, 102, 103, 104]"
  by (rule recovery_string_whitespace_insensitive [THEN conjunct1]) (simp add: is_whitespace_def)

theorem seal_open_roundtrip_witness:
  "open_recovery_record sample_crypto (sample_keys 4) \<lparr>sr_format_version = 1, sr_ephemeral_public_key = 3,
    sr_nonce = zeros 24, sr_ciphertext = [1, 2] @ zeros 16\<rparr> = Ok [1, 2]"
  using seal_open_roundtrip [of sample_crypto 3 "zeros 24"] sample_crypto_correct
  by (simp add: seal_recovery_record_def recovery_public_key_def sample_keys_def sample_encrypt)

theorem wrap_unwrap_roundtrip_witness:
  "unwrap_database_key sample_crypto (sample_keys 4) [9] \<lparr>wk_format_version = 1, wk_nonce = zeros 12,
    wk_ciphertext = digest_bytes 5 @ zeros 16\<rparr> = Ok 5"
  using wrap_unwrap_roundtrip [of sample_crypto "sample_keys 4" "zeros 12" "[9]" 5] sample_crypto_correct
  by (simp add: wrap_database_key_def sample_encrypt)

end
