(* ===== verification/Packing_Slots.thy ===== *)
theory Packing_Slots
  imports BTree Keys "HOL-Library.Product_Lexorder"
begin

text \<open>
  The slot allocator of \<open>src/crates/mb-core/src/packing.rs\<close>. It places source chunks into free slots of packed
  sectors and prefers sectors that mix owners. The indexes over the sectors (\<open>mixed\<close>, \<open>single\<close>,
  \<open>single_fillable\<close>, \<open>empty\<close>) always agree with the slots, so that a chunk always finds a free slot and no
  assigned slot is ever moved.
\<close>

section \<open>Chunk identifiers\<close>

datatype source_chunk_id =
  SourceChunkId (ci_owner: node_id) (ci_protected_root: digest) (ci_object_id: digest) (ci_chunk_index: nat)

text \<open>The derived order compares the fields from the first to the last.\<close>

definition chunk_key :: "source_chunk_id \<Rightarrow> node_id \<times> digest \<times> digest \<times> nat" where
  "chunk_key i = (ci_owner i, ci_protected_root i, ci_object_id i, ci_chunk_index i)"

lemma chunk_key_inj: "chunk_key a = chunk_key b \<Longrightarrow> a = b"
  by (cases a; cases b) (simp add: chunk_key_def)

instantiation source_chunk_id :: linorder
begin

definition less_eq_source_chunk_id :: "source_chunk_id \<Rightarrow> source_chunk_id \<Rightarrow> bool" where
  "a \<le> b \<longleftrightarrow> chunk_key a \<le> chunk_key b"

definition less_source_chunk_id :: "source_chunk_id \<Rightarrow> source_chunk_id \<Rightarrow> bool" where
  "a < b \<longleftrightarrow> chunk_key a < chunk_key b"

instance
  by standard (auto simp: less_eq_source_chunk_id_def less_source_chunk_id_def dest: chunk_key_inj)

end

section \<open>Allocator\<close>

record packing_sector_state =
  ss_owners :: "node_id list"
  ss_free :: "nat list"

record stable_slot_allocator =
  al_slots_per_sector :: nat
  al_assignments :: "source_chunk_id option list"
  al_sectors :: "packing_sector_state list"
  al_mixed :: "nat list"
  al_single :: "(node_id, nat list) btree_map"
  al_single_fillable :: "(node_id, nat list) btree_map"
  al_empty :: "nat list"

definition insert_index :: "(node_id, nat list) btree_map \<Rightarrow> node_id \<Rightarrow> nat \<Rightarrow> (node_id, nat list) btree_map" where
  "insert_index m owner s = bmap_insert owner (bset_insert s (case map_of m owner of None \<Rightarrow> [] | Some ss \<Rightarrow> ss)) m"

definition remove_index :: "(node_id, nat list) btree_map \<Rightarrow> node_id \<Rightarrow> nat \<Rightarrow> (node_id, nat list) btree_map" where
  "remove_index m owner s =
     (case map_of m owner of
        None \<Rightarrow> m
      | Some ss \<Rightarrow> let ss' = bset_remove s ss in if ss' = [] then bmap_remove owner m else bmap_insert owner ss' m)"

definition add_classification :: "nat \<Rightarrow> stable_slot_allocator \<Rightarrow> ('e, stable_slot_allocator) result" where
  "add_classification s self =
     and_then (index (al_sectors self) s) (\<lambda>state.
     if ss_free state = [] then Ok self
     else case ss_owners state of
       [] \<Rightarrow> Ok (self\<lparr>al_empty := bset_insert s (al_empty self)\<rparr>)
     | [owner] \<Rightarrow>
         Ok (self\<lparr>al_single := insert_index (al_single self) owner s,
                al_single_fillable := (if 1 < length (ss_free state) then insert_index (al_single_fillable self) owner s
                                       else al_single_fillable self)\<rparr>)
     | _ \<Rightarrow> Ok (self\<lparr>al_mixed := bset_insert s (al_mixed self)\<rparr>))"

definition remove_classification :: "nat \<Rightarrow> stable_slot_allocator \<Rightarrow> ('e, stable_slot_allocator) result" where
  "remove_classification s self =
     and_then (index (al_sectors self) s) (\<lambda>state.
     if ss_free state = [] then Ok self
     else case ss_owners state of
       [] \<Rightarrow> Ok (self\<lparr>al_empty := bset_remove s (al_empty self)\<rparr>)
     | [owner] \<Rightarrow>
         Ok (self\<lparr>al_single := remove_index (al_single self) owner s,
                al_single_fillable := (if 1 < length (ss_free state) then remove_index (al_single_fillable self) owner s
                                       else al_single_fillable self)\<rparr>)
     | _ \<Rightarrow> Ok (self\<lparr>al_mixed := bset_remove s (al_mixed self)\<rparr>))"

text \<open>The state of one sector, from its slots and the index of the first.\<close>

definition sector_state :: "nat \<Rightarrow> source_chunk_id option list \<Rightarrow> packing_sector_state" where
  "sector_state start slots =
     \<lparr>ss_owners = bset_of (map ci_owner (List.map_filter id slots)),
      ss_free = map fst (filter (\<lambda>(_, a). a = None) (enumerate start slots))\<rparr>"

fun new_sectors :: "nat list \<Rightarrow> stable_slot_allocator \<Rightarrow> ('e, stable_slot_allocator) result" where
  "new_sectors [] self = Ok self"
| "new_sectors (s # ss) self =
     (let n = al_slots_per_sector self; start = s * n in
      and_then (slice (al_assignments self) start (start + n)) (\<lambda>slots.
      and_then (add_classification s (self\<lparr>al_sectors := al_sectors self @ [sector_state start slots]\<rparr>)) (new_sectors ss)))"

definition allocator_new :: "source_chunk_id option list \<Rightarrow> nat \<Rightarrow> ('e, stable_slot_allocator) result" where
  "allocator_new assignments slots_per_sector =
     (if slots_per_sector = 0 then panic
      else new_sectors [0..<length assignments div slots_per_sector]
        \<lparr>al_slots_per_sector = slots_per_sector, al_assignments = assignments, al_sectors = [], al_mixed = [],
         al_single = [], al_single_fillable = [], al_empty = []\<rparr>)"

definition other_owner_sector :: "stable_slot_allocator \<Rightarrow> node_id \<Rightarrow> nat option" where
  "other_owner_sector self owner =
     (case (case find (\<lambda>(k, _). k < owner) (al_single self) of
              None \<Rightarrow> find (\<lambda>(k, _). owner < k) (al_single self) | Some e \<Rightarrow> Some e) of
        None \<Rightarrow> None | Some (_, sectors) \<Rightarrow> bset_first sectors)"

definition append_empty_sector :: "stable_slot_allocator \<Rightarrow> ('e, stable_slot_allocator \<times> nat) result" where
  "append_empty_sector self =
     (let s = length (al_sectors self); start = length (al_assignments self); n = al_slots_per_sector self in
      and_then (add_classification s (self\<lparr>al_assignments := al_assignments self @ replicate n None,
        al_sectors := al_sectors self @ [\<lparr>ss_owners = [], ss_free = [start..<start + n]\<rparr>]\<rparr>)) (\<lambda>self'.
      Ok (self', s)))"

definition choose_sector :: "stable_slot_allocator \<Rightarrow> node_id \<Rightarrow> nat option" where
  "choose_sector self owner =
     (case bset_first (al_mixed self) of Some s \<Rightarrow> Some s | None \<Rightarrow>
     (case other_owner_sector self owner of Some s \<Rightarrow> Some s | None \<Rightarrow>
     (case (case map_of (al_single_fillable self) owner of None \<Rightarrow> None | Some sectors \<Rightarrow> bset_first sectors) of Some s \<Rightarrow> Some s | None \<Rightarrow>
     bset_first (al_empty self))))"

definition assign_in :: "source_chunk_id \<Rightarrow> nat \<Rightarrow> stable_slot_allocator \<Rightarrow> ('e, stable_slot_allocator) result" where
  "assign_in i s self =
     and_then (remove_classification s self) (\<lambda>self1.
     and_then (index (al_sectors self1) s) (\<lambda>state.
     and_then (expect (bset_first (ss_free state))) (\<lambda>flat.
     if length (al_assignments self1) \<le> flat then panic
     else add_classification s (self1\<lparr>
       al_sectors := (al_sectors self1)[s := \<lparr>ss_owners = bset_insert (ci_owner i) (ss_owners state), ss_free = bset_remove flat (ss_free state)\<rparr>],
       al_assignments := (al_assignments self1)[flat := Some i]\<rparr>))))"

definition assign :: "source_chunk_id \<Rightarrow> stable_slot_allocator \<Rightarrow> ('e, stable_slot_allocator) result" where
  "assign i self =
     (case choose_sector self (ci_owner i) of
        Some s \<Rightarrow> assign_in i s self
      | None \<Rightarrow> and_then (append_empty_sector self) (\<lambda>(self', s). assign_in i s self'))"

section \<open>Invariant\<close>

definition indexed :: "(node_id, nat list) btree_map \<Rightarrow> node_id \<Rightarrow> nat \<Rightarrow> bool" where
  "indexed m owner s \<longleftrightarrow> (\<exists>ss. map_of m owner = Some ss \<and> s \<in> set ss)"

lemma indexed_insert_index [simp]: "indexed (insert_index m owner s) k x \<longleftrightarrow> indexed m k x \<or> k = owner \<and> x = s"
  by (cases "map_of m owner") (auto simp: indexed_def insert_index_def)

lemma indexed_remove_index [simp]: "indexed (remove_index m owner s) k x \<longleftrightarrow> indexed m k x \<and> \<not> (k = owner \<and> x = s)"
proof (cases "map_of m owner")
  case (Some ss)
  have "bset_remove s ss = [] \<longleftrightarrow> set ss \<subseteq> {s}" using set_bset_remove [of s ss] by (metis Diff_eq_empty_iff set_empty)
  then show ?thesis using Some by (auto simp: indexed_def remove_index_def Let_def)
qed (auto simp: indexed_def remove_index_def)

lemma bmap_ok_index [simp]: "bmap_ok m \<Longrightarrow> bmap_ok (insert_index m owner s)" "bmap_ok m \<Longrightarrow> bmap_ok (remove_index m owner s)"
  by (auto simp: insert_index_def remove_index_def Let_def split: option.splits)

text \<open>The indexes list exactly the sectors with a free slot, by the number of their owners. Sectors of \<open>X\<close>
  are between \<open>remove_classification\<close> and \<open>add_classification\<close>.\<close>

definition class_at :: "stable_slot_allocator \<Rightarrow> nat \<Rightarrow> bool \<Rightarrow> bool" where
  "class_at a s here \<longleftrightarrow>
     (let owners = ss_owners (al_sectors a ! s); free = ss_free (al_sectors a ! s); h = (here \<and> free \<noteq> []) in
        (s \<in> set (al_mixed a) \<longleftrightarrow> h \<and> 2 \<le> length owners) \<and> (s \<in> set (al_empty a) \<longleftrightarrow> h \<and> owners = [])
      \<and> (\<forall>owner. indexed (al_single a) owner s \<longleftrightarrow> h \<and> owners = [owner])
      \<and> (\<forall>owner. indexed (al_single_fillable a) owner s \<longleftrightarrow> h \<and> 1 < length free \<and> owners = [owner]))"

definition classified :: "nat set \<Rightarrow> stable_slot_allocator \<Rightarrow> bool" where
  "classified X a \<longleftrightarrow> bmap_ok (al_single a) \<and> bmap_ok (al_single_fillable a)
     \<and> (\<forall>s. class_at a s (s < length (al_sectors a) \<and> s \<notin> X))"

definition slots_ok :: "stable_slot_allocator \<Rightarrow> bool" where
  "slots_ok a \<longleftrightarrow> 0 < al_slots_per_sector a
   \<and> length (al_assignments a) = length (al_sectors a) * al_slots_per_sector a
   \<and> (\<forall>s < length (al_sectors a). set (ss_free (al_sectors a ! s)) =
        {i. s * al_slots_per_sector a \<le> i \<and> i < Suc s * al_slots_per_sector a \<and> al_assignments a ! i = None})"

definition allocator_inv :: "stable_slot_allocator \<Rightarrow> bool" where
  "allocator_inv a \<longleftrightarrow> classified {} a \<and> slots_ok a"

lemma slots_ok_indexes [simp]:
  "slots_ok (a\<lparr>al_mixed := x\<rparr>) = slots_ok a" "slots_ok (a\<lparr>al_single := y\<rparr>) = slots_ok a"
  "slots_ok (a\<lparr>al_single_fillable := y\<rparr>) = slots_ok a" "slots_ok (a\<lparr>al_empty := x\<rparr>) = slots_ok a"
  by (simp_all add: slots_ok_def)

lemma classified_assignments [simp]: "classified X (a\<lparr>al_assignments := xs\<rparr>) = classified X a"
  by (simp add: classified_def class_at_def)

lemma slots_ok_cong:
  "al_assignments a = al_assignments b \<Longrightarrow> al_sectors a = al_sectors b \<Longrightarrow> al_slots_per_sector a = al_slots_per_sector b \<Longrightarrow> slots_ok a = slots_ok b"
  by (simp add: slots_ok_def)

text \<open>What the two classification steps keep.\<close>

lemma owners_cases:
  obtains "xs = []" | x where "xs = [x]" | x y zs where "xs = x # y # zs"
  by (metis list.exhaust)

lemma classified_step:
  assumes "classified X a" "bmap_ok (al_single a')" "bmap_ok (al_single_fillable a')" "length (al_sectors a') = length (al_sectors a)"
    "\<And>s'. s' \<noteq> s \<Longrightarrow> s' \<in> Y \<longleftrightarrow> s' \<in> X" "class_at a' s (s < length (al_sectors a') \<and> s \<notin> Y)"
    "\<And>s' h. s' \<noteq> s \<Longrightarrow> class_at a' s' h = class_at a s' h"
  shows "classified Y a'"
  unfolding classified_def
proof (intro conjI allI)
  fix s'
  show "class_at a' s' (s' < length (al_sectors a') \<and> s' \<notin> Y)"
    using assms unfolding classified_def by (cases "s' = s") simp_all
qed (use assms in simp_all)

lemma add_classification_ok:
  assumes "classified X a" "s < length (al_sectors a)" "s \<in> X"
  shows "\<exists>a'. add_classification s a = (Ok a' :: ('e, _) result) \<and> classified (X - {s}) a'
    \<and> al_assignments a' = al_assignments a \<and> al_sectors a' = al_sectors a \<and> al_slots_per_sector a' = al_slots_per_sector a"
proof -
  have at: "class_at a s False" "bmap_ok (al_single a)" "bmap_ok (al_single_fillable a)" using assms by (auto simp: classified_def dest: spec [of _ s])
  show ?thesis
  proof (cases "ss_free (al_sectors a ! s) = []")
    case True
    have "classified (X - {s}) a"
      by (rule classified_step [where s = s, OF assms(1)]) (use at True in \<open>auto simp: class_at_def Let_def\<close>)
    then show ?thesis using True assms(2) by (auto simp: add_classification_def index_def)
  next
    case False
    show ?thesis
    proof (cases "ss_owners (al_sectors a ! s)" rule: owners_cases)
      case 1
      let ?a = "a\<lparr>al_empty := bset_insert s (al_empty a)\<rparr>"
      have "classified (X - {s}) ?a"
        by (rule classified_step [where s = s, OF assms(1)]) (use at 1 False assms(2) in \<open>auto simp: class_at_def Let_def\<close>)
      then show ?thesis using 1 False assms(2) by (auto simp: add_classification_def index_def)
    next
      case (2 x)
      let ?a = "a\<lparr>al_single := insert_index (al_single a) x s, al_single_fillable := (if 1 < length (ss_free (al_sectors a ! s))
          then insert_index (al_single_fillable a) x s else al_single_fillable a)\<rparr>"
      have "classified (X - {s}) ?a"
        by (rule classified_step [where s = s, OF assms(1)]) (use at 2 False assms(2) in \<open>auto simp: class_at_def Let_def\<close>)
      then show ?thesis using 2 False assms(2) by (auto simp: add_classification_def index_def)
    next
      case (3 x y zs)
      let ?a = "a\<lparr>al_mixed := bset_insert s (al_mixed a)\<rparr>"
      have "classified (X - {s}) ?a"
        by (rule classified_step [where s = s, OF assms(1)]) (use at 3 False assms(2) in \<open>auto simp: class_at_def Let_def\<close>)
      then show ?thesis using 3 False assms(2) by (auto simp: add_classification_def index_def)
    qed
  qed
qed

lemma remove_classification_ok:
  assumes "classified X a" "s < length (al_sectors a)" "s \<notin> X"
  shows "\<exists>a'. remove_classification s a = (Ok a' :: ('e, _) result) \<and> classified (insert s X) a'
    \<and> al_assignments a' = al_assignments a \<and> al_sectors a' = al_sectors a \<and> al_slots_per_sector a' = al_slots_per_sector a"
proof -
  have at: "class_at a s True" "bmap_ok (al_single a)" "bmap_ok (al_single_fillable a)" using assms by (auto simp: classified_def dest: spec [of _ s])
  show ?thesis
  proof (cases "ss_free (al_sectors a ! s) = []")
    case True
    have "classified (insert s X) a"
      by (rule classified_step [where s = s, OF assms(1)]) (use at True in \<open>auto simp: class_at_def Let_def\<close>)
    then show ?thesis using True assms(2) by (auto simp: remove_classification_def index_def)
  next
    case False
    show ?thesis
    proof (cases "ss_owners (al_sectors a ! s)" rule: owners_cases)
      case 1
      let ?a = "a\<lparr>al_empty := bset_remove s (al_empty a)\<rparr>"
      have "classified (insert s X) ?a"
        by (rule classified_step [where s = s, OF assms(1)]) (use at 1 False assms(2) in \<open>auto simp: class_at_def Let_def\<close>)
      then show ?thesis using 1 False assms(2) by (auto simp: remove_classification_def index_def)
    next
      case (2 x)
      let ?a = "a\<lparr>al_single := remove_index (al_single a) x s, al_single_fillable := (if 1 < length (ss_free (al_sectors a ! s))
          then remove_index (al_single_fillable a) x s else al_single_fillable a)\<rparr>"
      have "classified (insert s X) ?a"
        by (rule classified_step [where s = s, OF assms(1)]) (use at 2 False assms(2) in \<open>auto simp: class_at_def Let_def\<close>)
      then show ?thesis using 2 False assms(2) by (auto simp: remove_classification_def index_def)
    next
      case (3 x y zs)
      let ?a = "a\<lparr>al_mixed := bset_remove s (al_mixed a)\<rparr>"
      have "classified (insert s X) ?a"
        by (rule classified_step [where s = s, OF assms(1)]) (use at 3 False assms(2) in \<open>auto simp: class_at_def Let_def\<close>)
      then show ?thesis using 3 False assms(2) by (auto simp: remove_classification_def index_def)
    qed
  qed
qed

section \<open>Operations keep the invariant\<close>

lemma classifiedD: "classified X a \<Longrightarrow> class_at a s (s < length (al_sectors a) \<and> s \<notin> X)"
  by (simp add: classified_def)

lemma class_atD:
  assumes "classified X a"
  shows "s \<in> set (al_mixed a) \<or> s \<in> set (al_empty a) \<or> indexed (al_single a) owner s \<or> indexed (al_single_fillable a) owner s \<Longrightarrow>
    s < length (al_sectors a) \<and> ss_free (al_sectors a ! s) \<noteq> []"
proof -
  have "class_at a s (s < length (al_sectors a) \<and> s \<notin> X)" using assms by (simp add: classified_def)
  then show "s \<in> set (al_mixed a) \<or> s \<in> set (al_empty a) \<or> indexed (al_single a) owner s \<or> indexed (al_single_fillable a) owner s \<Longrightarrow>
    s < length (al_sectors a) \<and> ss_free (al_sectors a ! s) \<noteq> []"
    unfolding class_at_def Let_def by blast
qed

lemma other_owner_sector_indexed:
  assumes "bmap_ok (al_single a)" "other_owner_sector a owner = Some s"
  shows "\<exists>k. indexed (al_single a) k s"
proof -
  obtain k ss where e: "(k, ss) \<in> set (al_single a)" "bset_first ss = Some s"
    using assms(2) by (auto simp: other_owner_sector_def find_Some_iff split: option.splits) (metis nth_mem)+
  then show ?thesis using assms(1) by (fastforce simp: indexed_def bmap_ok_lookup)
qed

lemma choose_sector_free:
  assumes "classified X a" "choose_sector a owner = Some s"
  shows "s < length (al_sectors a) \<and> ss_free (al_sectors a ! s) \<noteq> []"
proof -
  have ok: "bmap_ok (al_single a)" using assms(1) by (simp add: classified_def)
  have "s \<in> set (al_mixed a) \<or> s \<in> set (al_empty a) \<or> (\<exists>k. indexed (al_single a) k s) \<or> indexed (al_single_fillable a) owner s"
    using assms(2) other_owner_sector_indexed [OF ok] by (auto simp: choose_sector_def indexed_def split: option.splits)
  then show ?thesis using class_atD [OF assms(1)] by blast
qed

lemma classified_append:
  assumes "classified {} a"
  shows "classified {length (al_sectors a)} (a\<lparr>al_sectors := al_sectors a @ [st]\<rparr>)"
proof -
  let ?b = "a\<lparr>al_sectors := al_sectors a @ [st]\<rparr>"
  have "class_at ?b s (s < Suc (length (al_sectors a)) \<and> s \<noteq> length (al_sectors a))" for s
  proof (cases "s < length (al_sectors a)")
    case True
    then show ?thesis using classifiedD [OF assms, of s] by (simp add: class_at_def nth_append)
  next
    case False
    then show ?thesis using classifiedD [OF assms, of s] by (auto simp: class_at_def Let_def)
  qed
  then show ?thesis using assms by (simp add: classified_def)
qed

lemma append_empty_sector_ok:
  assumes "allocator_inv a"
  shows "\<exists>a'. append_empty_sector a = (Ok (a', length (al_sectors a)) :: ('e, _) result) \<and> allocator_inv a'
    \<and> al_assignments a' = al_assignments a @ replicate (al_slots_per_sector a) None
    \<and> al_slots_per_sector a' = al_slots_per_sector a
    \<and> length (al_sectors a) < length (al_sectors a') \<and> ss_free (al_sectors a' ! length (al_sectors a)) \<noteq> []"
proof -
  let ?n = "al_slots_per_sector a" and ?s = "length (al_sectors a)"
  let ?b = "a\<lparr>al_assignments := al_assignments a @ replicate ?n None,
    al_sectors := al_sectors a @ [\<lparr>ss_owners = [], ss_free = [length (al_assignments a)..<length (al_assignments a) + ?n]\<rparr>]\<rparr>"
  have ok: "classified {} a" "slots_ok a" using assms by (auto simp: allocator_inv_def)
  have "classified {} (a\<lparr>al_assignments := al_assignments a @ replicate ?n None\<rparr>)"
    using ok(1) by (simp add: classified_def class_at_def indexed_def)
  from classified_append [OF this] have "classified {?s} ?b" by simp
  from add_classification_ok [OF this, of ?s]
  obtain a' where a': "add_classification ?s ?b = (Ok a' :: ('e, _) result)" "classified {} a'" "al_assignments a' = al_assignments ?b"
    "al_sectors a' = al_sectors ?b" "al_slots_per_sector a' = ?n" by auto
  have "set (ss_free (al_sectors ?b ! s)) = {i. s * ?n \<le> i \<and> i < Suc s * ?n \<and> al_assignments ?b ! i = None}" if "s < Suc ?s" for s
  proof (cases "s < ?s")
    case True
    then have "Suc s * ?n \<le> length (al_assignments a)" using ok(2) by (simp add: slots_ok_def del: mult_Suc)
    then show ?thesis using True ok(2) by (auto simp: slots_ok_def nth_append)
  next
    case False
    then have "s = ?s" using that by simp
    then show ?thesis using ok(2) by (auto simp: slots_ok_def nth_append)
  qed
  then have "slots_ok ?b" using ok(2) by (simp add: slots_ok_def)
  then have "slots_ok a'" using slots_ok_cong [of a' ?b] a'(3-5) by simp
  moreover have "0 < ?n" using ok(2) by (simp add: slots_ok_def)
  ultimately show ?thesis using a' unfolding append_empty_sector_def allocator_inv_def Let_def by simp
qed

lemma assign_in_ok:
  assumes "allocator_inv a" "s < length (al_sectors a)" "ss_free (al_sectors a ! s) \<noteq> []"
  shows "\<exists>a' f. assign_in i s a = (Ok a' :: ('e, _) result) \<and> allocator_inv a' \<and> f < length (al_assignments a)
    \<and> al_assignments a ! f = None \<and> al_assignments a' = (al_assignments a)[f := Some i] \<and> al_slots_per_sector a' = al_slots_per_sector a"
proof -
  let ?n = "al_slots_per_sector a" and ?st = "al_sectors a ! s"
  have ok: "classified {} a" "slots_ok a" using assms(1) by (auto simp: allocator_inv_def)
  obtain b where b: "remove_classification s a = (Ok b :: ('e, _) result)" "classified {s} b" "al_assignments b = al_assignments a"
    "al_sectors b = al_sectors a" "al_slots_per_sector b = ?n" using remove_classification_ok [OF ok(1) assms(2)] by auto
  obtain f fs where f: "ss_free ?st = f # fs" using assms(3) by (cases "ss_free ?st") auto
  have free: "set (ss_free ?st) = {i. s * ?n \<le> i \<and> i < Suc s * ?n \<and> al_assignments a ! i = None}"
    using ok(2) assms(2) by (simp add: slots_ok_def)
  have at: "s * ?n \<le> f" "f < Suc s * ?n" "al_assignments a ! f = None" using free f by auto
  have "Suc s * ?n \<le> length (al_assignments a)" using ok(2) assms(2) by (simp add: slots_ok_def del: mult_Suc)
  then have len: "f < length (al_assignments a)" using at(2) by simp
  let ?st' = "\<lparr>ss_owners = bset_insert (ci_owner i) (ss_owners ?st), ss_free = bset_remove f (ss_free ?st)\<rparr>"
  let ?c = "b\<lparr>al_sectors := (al_sectors b)[s := ?st'], al_assignments := (al_assignments b)[f := Some i]\<rparr>"
  have "classified {s} ?c"
    by (rule classified_step [where s = s, OF b(2)]) (use b(2) classifiedD [OF b(2), of s] in \<open>auto simp: classified_def class_at_def Let_def\<close>)
  from add_classification_ok [OF this, of s]
  obtain a' where a': "add_classification s ?c = (Ok a' :: ('e, _) result)" "classified {} a'" "al_assignments a' = (al_assignments a)[f := Some i]"
    "al_sectors a' = (al_sectors a)[s := ?st']" "al_slots_per_sector a' = ?n" using assms(2) b by auto
  have "set (ss_free (al_sectors a' ! r)) = {i. r * ?n \<le> i \<and> i < Suc r * ?n \<and> al_assignments a' ! i = None}" if r: "r < length (al_sectors a)" for r
  proof (cases "r = s")
    case True
    then show ?thesis using free r len a'(3,4) by (auto simp: nth_list_update)
  next
    case False
    have "Suc r * ?n \<le> s * ?n \<or> Suc s * ?n \<le> r * ?n" using False by (metis Suc_leI linorder_neqE_nat mult_le_mono1)
    then have "f \<noteq> i" if "r * ?n \<le> i" "i < Suc r * ?n" for i using at(1,2) that by linarith
    then show ?thesis using False r ok(2) a'(3,4) by (auto simp: slots_ok_def nth_list_update)
  qed
  then have "slots_ok a'" using ok(2) a'(3-5) by (simp add: slots_ok_def)
  moreover have "assign_in i s a = (Ok a' :: ('e, _) result)" using b a'(1) assms(2) f len by (simp add: assign_in_def index_def)
  ultimately show ?thesis using a' at(3) len by (auto simp: allocator_inv_def)
qed

lemma assign_ok:
  assumes "allocator_inv a"
  shows "\<exists>a' k f. assign i a = (Ok a' :: ('e, _) result) \<and> allocator_inv a' \<and> f < length (al_assignments a) + k
    \<and> (al_assignments a @ replicate k None) ! f = None \<and> al_assignments a' = (al_assignments a @ replicate k None)[f := Some i]
    \<and> al_slots_per_sector a' = al_slots_per_sector a"
proof (cases "choose_sector a (ci_owner i)")
  case (Some s)
  have "s < length (al_sectors a)" "ss_free (al_sectors a ! s) \<noteq> []"
    using choose_sector_free [OF _ Some] assms by (auto simp: allocator_inv_def)
  from assign_in_ok [OF assms this, of i] obtain a' f where "assign_in i s a = (Ok a' :: ('e, _) result)" "allocator_inv a'"
    "f < length (al_assignments a)" "al_assignments a ! f = None" "al_assignments a' = (al_assignments a)[f := Some i]"
    "al_slots_per_sector a' = al_slots_per_sector a" by blast
  then show ?thesis using Some by (intro exI [of _ a'] exI [of _ 0] exI [of _ f]) (simp add: assign_def)
next
  case None
  obtain b where b: "append_empty_sector a = (Ok (b, length (al_sectors a)) :: ('e, _) result)" "allocator_inv b"
    "al_assignments b = al_assignments a @ replicate (al_slots_per_sector a) None" "al_slots_per_sector b = al_slots_per_sector a"
    "length (al_sectors a) < length (al_sectors b)" "ss_free (al_sectors b ! length (al_sectors a)) \<noteq> []"
    using append_empty_sector_ok [OF assms] by blast
  from assign_in_ok [OF b(2,5,6), of i] obtain a' f where "assign_in i (length (al_sectors a)) b = (Ok a' :: ('e, _) result)" "allocator_inv a'"
    "f < length (al_assignments b)" "al_assignments b ! f = None" "al_assignments a' = (al_assignments b)[f := Some i]"
    "al_slots_per_sector a' = al_slots_per_sector b" by blast
  then show ?thesis using None b(1,3,4) by (intro exI [of _ a'] exI [of _ "al_slots_per_sector a"] exI [of _ f]) (simp add: assign_def)
qed

text \<open>Building the allocator: after \<open>k\<close> sectors the indexes agree with them.\<close>

definition building :: "source_chunk_id option list \<Rightarrow> nat \<Rightarrow> nat \<Rightarrow> stable_slot_allocator \<Rightarrow> bool" where
  "building xs n k a \<longleftrightarrow> al_assignments a = xs \<and> al_slots_per_sector a = n \<and> length (al_sectors a) = k \<and> classified {} a
   \<and> (\<forall>s < k. set (ss_free (al_sectors a ! s)) = {i. s * n \<le> i \<and> i < Suc s * n \<and> xs ! i = None})"

lemma set_free_sector_state:
  assumes "start + n \<le> length xs"
  shows "set (ss_free (sector_state start (sub xs start n))) = {i. start \<le> i \<and> i < start + n \<and> xs ! i = None}"
proof -
  have len: "length (sub xs start n) = n" using assms by (simp add: sub_def)
  have "sub xs start n ! (i - start) = xs ! i" if "start \<le> i" "i < start + n" for i
    using that assms by (simp add: sub_def)
  then show ?thesis by (auto simp: sector_state_def in_set_enumerate_eq len image_iff intro!: bexI [where x = "(_, None)"])
qed

lemma new_sectors_ok:
  assumes "building xs n k a" "0 < n" "(k + m) * n \<le> length xs"
  shows "\<exists>a'. new_sectors [k..<k + m] a = (Ok a' :: ('e, _) result) \<and> building xs n (k + m) a'"
  using assms(1,3)
proof (induction m arbitrary: k a)
  case (Suc m)
  let ?st = "sector_state (k * n) (sub xs (k * n) n)"
  have b: "al_assignments a = xs" "al_slots_per_sector a = n" "length (al_sectors a) = k" "classified {} a"
    "\<forall>s < k. set (ss_free (al_sectors a ! s)) = {i. s * n \<le> i \<and> i < Suc s * n \<and> xs ! i = None}"
    using Suc.prems(1) by (auto simp: building_def)
  have le: "k * n + n \<le> length xs" using Suc.prems(2) by (simp add: algebra_simps)
  obtain a1 where a1: "add_classification k (a\<lparr>al_sectors := al_sectors a @ [?st]\<rparr>) = (Ok a1 :: ('e, _) result)" "classified {} a1"
    "al_assignments a1 = xs" "al_sectors a1 = al_sectors a @ [?st]" "al_slots_per_sector a1 = n"
    using add_classification_ok [OF classified_append [OF b(4)], of k ?st] b by auto
  have "set (ss_free (al_sectors a1 ! s)) = {i. s * n \<le> i \<and> i < Suc s * n \<and> xs ! i = None}" if "s < Suc k" for s
    using b(3,5) a1(4) set_free_sector_state [OF le] that by (cases "s = k") (auto simp: nth_append)
  then have "building xs n (Suc k) a1" using a1 b(3) by (simp add: building_def)
  from Suc.IH [OF this] Suc.prems(2) obtain a' where "new_sectors [Suc k..<Suc k + m] a1 = (Ok a' :: ('e, _) result)" "building xs n (Suc k + m) a'"
    by auto
  moreover have "[k..<k + Suc m] = k # [Suc k..<Suc k + m]" by (simp add: upt_conv_Cons)
  moreover have "slice xs (k * n) (k * n + n) = (Ok (sub xs (k * n) n) :: ('e, _) result)" using le by (simp add: slice_def)
  ultimately show ?case using a1(1) b(1,2) by (auto simp: Let_def)
qed simp

lemma allocator_new_ok:
  assumes "length xs = k * n" "0 < n"
  shows "\<exists>a. allocator_new xs n = (Ok a :: ('e, _) result) \<and> allocator_inv a \<and> al_assignments a = xs \<and> al_slots_per_sector a = n"
proof -
  let ?a = "\<lparr>al_slots_per_sector = n, al_assignments = xs, al_sectors = [], al_mixed = [], al_single = [], al_single_fillable = [], al_empty = []\<rparr>"
  have "building xs n 0 ?a" by (simp add: building_def classified_def class_at_def indexed_def)
  from new_sectors_ok [OF this assms(2), of k] assms
  obtain a where a: "new_sectors [0..<k] ?a = (Ok a :: ('e, _) result)" "building xs n k a" by auto
  then have "allocator_inv a" using assms by (auto simp: allocator_inv_def building_def slots_ok_def)
  with a assms show ?thesis by (auto simp: allocator_new_def building_def)
qed

end
