(* ===== verification/Coding.thy ===== *)
theory Coding
  imports Prelude
begin

text \<open>
  The Reed-Solomon coding profiles of \<open>src/crates/mb-core/src/coding.rs\<close>. The codec itself is the
  third-party crate \<open>reed_solomon_erasure\<close>: it is the record \<open>reed_solomon\<close>, and the predicate
  \<open>rs_contract\<close> states what the crate documents about one geometry: it works on every byte column
  independently with one linear column code, and any \<open>k\<close> symbols of a column determine it.
\<close>

section \<open>Data\<close>

abbreviation (input) MAX_CODING_SHARDS :: nat where "MAX_CODING_SHARDS \<equiv> 64"
abbreviation (input) MAX_PROFILE_SHARD_SIZE :: nat where "MAX_PROFILE_SHARD_SIZE \<equiv> 4194304"
abbreviation (input) MIN_PROFILE_SHARD_SIZE :: nat where "MIN_PROFILE_SHARD_SIZE \<equiv> 16"

datatype reed_solomon_construction = Galois8Vandermonde

record coding_profile =
  cp_format_version :: nat
  cp_construction :: reed_solomon_construction
  cp_data_shards :: nat
  cp_parity_shards :: nat
  cp_shard_size :: nat

datatype 'x coding_error =
  InvalidProfile | InvalidShardLength | InvalidShardCount | InvalidCodeword | ReedSolomon 'x

type_synonym shard = "byte list"

text \<open>The codec: \<open>ReedSolomon::new\<close> fails or succeeds on a geometry; \<open>encode\<close> and \<open>reconstruct\<close>
  update the shards in place, \<open>verify\<close> only reads them.\<close>

record 'x reed_solomon =
  rs_new :: "nat \<Rightarrow> nat \<Rightarrow> ('x, unit) result"
  rs_encode :: "nat \<Rightarrow> nat \<Rightarrow> shard list \<Rightarrow> ('x, shard list) result"
  rs_reconstruct :: "nat \<Rightarrow> nat \<Rightarrow> shard option list \<Rightarrow> shard option list \<times> ('x, unit) result"
  rs_verify :: "nat \<Rightarrow> nat \<Rightarrow> shard list \<Rightarrow> ('x, bool) result"

section \<open>Operations\<close>

definition profile_new :: "nat \<Rightarrow> nat \<Rightarrow> nat \<Rightarrow> coding_profile" where
  "profile_new data_shards parity_shards shard_size =
     \<lparr>cp_format_version = 1, cp_construction = Galois8Vandermonde, cp_data_shards = data_shards,
      cp_parity_shards = parity_shards, cp_shard_size = shard_size\<rparr>"

definition profile_validate :: "coding_profile \<Rightarrow> ('x coding_error, unit) result" where
  "profile_validate self =
     and_then (ok_or (checked_add 16 (cp_data_shards self) (cp_parity_shards self)) InvalidProfile) (\<lambda>total.
     if cp_format_version self \<noteq> 1 \<or> cp_data_shards self = 0 \<or> cp_parity_shards self = 0
        \<or> MAX_CODING_SHARDS < total \<or> cp_shard_size self < MIN_PROFILE_SHARD_SIZE
        \<or> MAX_PROFILE_SHARD_SIZE < cp_shard_size self \<or> \<not> is_power_of_two (cp_shard_size self)
     then Err InvalidProfile else Ok ())"

definition total_shards :: "coding_profile \<Rightarrow> ('x coding_error, nat) result" where
  "total_shards self =
     and_then (profile_validate self) (\<lambda>_. uadd 16 (cp_data_shards self) (cp_parity_shards self))"

definition encode :: "'x reed_solomon \<Rightarrow> coding_profile \<Rightarrow> shard list \<Rightarrow> ('x coding_error, shard list) result" where
  "encode R profile information =
     and_then (profile_validate profile) (\<lambda>_.
     if length information \<noteq> cp_data_shards profile then Err InvalidShardCount
     else if \<exists>shard \<in> set information. length shard \<noteq> cp_shard_size profile then Err InvalidShardLength
     else
       (let extended = information @ replicate (cp_parity_shards profile) (zeros (cp_shard_size profile)) in
        and_then (map_err ReedSolomon (rs_new R (cp_data_shards profile) (cp_parity_shards profile))) (\<lambda>_.
        map_err ReedSolomon (rs_encode R (cp_data_shards profile) (cp_parity_shards profile) extended))))"

text \<open>\<open>reconstruct\<close> returns the shards after the call together with the result.\<close>

definition reconstruct ::
    "'x reed_solomon \<Rightarrow> coding_profile \<Rightarrow> shard option list \<Rightarrow> shard option list \<times> ('x coding_error, unit) result" where
  "reconstruct R profile shards =
     (case total_shards profile of
        Inl e \<Rightarrow> (shards, Inl e)
      | Inr count \<Rightarrow>
          if length shards \<noteq> count then (shards, Err InvalidShardCount)
          else if \<exists>s \<in> set shards. case s of None \<Rightarrow> False | Some shard \<Rightarrow> length shard \<noteq> cp_shard_size profile
               then (shards, Err InvalidShardLength)
          else (case map_err ReedSolomon (rs_new R (cp_data_shards profile) (cp_parity_shards profile)) of
                  Inl e \<Rightarrow> (shards, Inl e)
                | Inr _ \<Rightarrow>
                    (case rs_reconstruct R (cp_data_shards profile) (cp_parity_shards profile) shards of
                       (shards', r) \<Rightarrow> (shards', map_err ReedSolomon r))))"

definition verify_with ::
    "'x reed_solomon \<Rightarrow> coding_profile \<Rightarrow> shard list \<Rightarrow> ('x coding_error, unit) result" where
  "verify_with R profile shards =
     and_then (map_err ReedSolomon (rs_new R (cp_data_shards profile) (cp_parity_shards profile))) (\<lambda>_.
     and_then (map_err ReedSolomon (rs_verify R (cp_data_shards profile) (cp_parity_shards profile) shards)) (\<lambda>ok.
     if \<not> ok then Err InvalidCodeword else Ok ()))"

definition verify_codeword ::
    "'x reed_solomon \<Rightarrow> coding_profile \<Rightarrow> shard list \<Rightarrow> ('x coding_error, unit) result" where
  "verify_codeword R profile shards =
     and_then (total_shards profile) (\<lambda>count.
     if length shards \<noteq> count then Err InvalidShardCount
     else if \<exists>shard \<in> set shards. length shard \<noteq> cp_shard_size profile then Err InvalidShardLength
     else verify_with R profile shards)"

text \<open>The symbols of \<open>verify_sampled_codeword\<close> are arrays of 16 bytes.\<close>

definition verify_sampled_codeword ::
    "'x reed_solomon \<Rightarrow> coding_profile \<Rightarrow> shard list \<Rightarrow> ('x coding_error, unit) result" where
  "verify_sampled_codeword R profile symbols =
     and_then (total_shards profile) (\<lambda>count.
     if length symbols \<noteq> count then Err InvalidShardCount
     else verify_with R profile symbols)"

text \<open>\<open>information\<close> is an array of three shards, so \<open>information[0]\<close> exists.\<close>

definition encode_3_2 :: "'x reed_solomon \<Rightarrow> shard list \<Rightarrow> ('x coding_error, shard list) result" where
  "encode_3_2 R information =
     and_then (if length (hd information) < 2 ^ 32 then Ok (length (hd information)) else Err InvalidShardLength)
       (\<lambda>shard_size.
     and_then (encode R (profile_new 3 2 shard_size) information) (\<lambda>encoded.
     if length encoded = 5 then Ok encoded else Err InvalidShardCount))"

definition reconstruct_3_2 ::
    "'x reed_solomon \<Rightarrow> shard option list \<Rightarrow> shard option list \<times> ('x coding_error, unit) result" where
  "reconstruct_3_2 R shards =
     (case List.map_filter id shards of
        [] \<Rightarrow> (shards, Err InvalidShardLength)
      | first # _ \<Rightarrow>
          if length first < 2 ^ 32 then reconstruct R (profile_new 3 2 (length first)) shards
          else (shards, Err InvalidShardLength))"

section \<open>The codec's contract\<close>

text \<open>Column \<open>i\<close> of equally long shards, and shards all of whose columns are in a column code.\<close>

definition column :: "shard list \<Rightarrow> nat \<Rightarrow> byte list" where
  "column shards i = map (\<lambda>s. s ! i) shards"

definition shaped :: "nat \<Rightarrow> nat \<Rightarrow> shard list \<Rightarrow> bool" where
  "shaped n len shards \<longleftrightarrow> length shards = n \<and> (\<forall>s \<in> set shards. length s = len)"

definition is_codeword :: "(byte list \<Rightarrow> bool) \<Rightarrow> nat \<Rightarrow> shard list \<Rightarrow> bool" where
  "is_codeword C len shards \<longleftrightarrow> (\<forall>i < len. C (column shards i))"

definition extends :: "shard list \<Rightarrow> shard option list \<Rightarrow> bool" where
  "extends shards partial \<longleftrightarrow> list_all2 (\<lambda>s p. p = None \<or> p = Some s) shards partial"

definition present :: "'a option list \<Rightarrow> nat set" where
  "present partial = {i. i < length partial \<and> partial ! i \<noteq> None}"

definition rs_contract :: "'x reed_solomon \<Rightarrow> nat \<Rightarrow> nat \<Rightarrow> (byte list \<Rightarrow> bool) \<Rightarrow> bool" where
  "rs_contract R k m C \<longleftrightarrow>
     rs_new R k m = Ok ()
   \<and> (\<forall>len info pad. 0 < len \<longrightarrow> shaped k len info \<longrightarrow> shaped m len pad \<longrightarrow>
        (\<exists>parity. rs_encode R k m (info @ pad) = Ok (info @ parity) \<and> shaped m len parity
           \<and> is_codeword C len (info @ parity)))
   \<and> (\<forall>len shards. 0 < len \<longrightarrow> shaped (k + m) len shards \<longrightarrow>
        rs_verify R k m shards = Ok (is_codeword C len shards))
   \<and> (\<forall>len shards partial. 0 < len \<longrightarrow> shaped (k + m) len shards \<longrightarrow> is_codeword C len shards \<longrightarrow>
        extends shards partial \<longrightarrow> k \<le> card (present partial) \<longrightarrow>
        (\<exists>full. rs_reconstruct R k m partial = (map Some full, Ok ()) \<and> shaped (k + m) len full
           \<and> is_codeword C len full \<and> extends full partial))
   \<and> (\<forall>x y. C x \<longrightarrow> C y \<longrightarrow> length x = k + m \<longrightarrow> length y = k + m \<longrightarrow>
        k \<le> card {i. i < k + m \<and> x ! i = y ! i} \<longrightarrow> x = y)"

lemma rs_contractD:
  assumes "rs_contract R k m C"
  shows "rs_new R k m = Ok ()"
    and "\<lbrakk>0 < len; shaped k len info; shaped m len pad\<rbrakk> \<Longrightarrow>
      \<exists>parity. rs_encode R k m (info @ pad) = Ok (info @ parity) \<and> shaped m len parity
        \<and> is_codeword C len (info @ parity)"
    and "\<lbrakk>0 < len; shaped (k + m) len shards\<rbrakk> \<Longrightarrow> rs_verify R k m shards = Ok (is_codeword C len shards)"
    and "\<lbrakk>0 < len; shaped (k + m) len shards; is_codeword C len shards; extends shards partial;
        k \<le> card (present partial)\<rbrakk> \<Longrightarrow>
      \<exists>full. rs_reconstruct R k m partial = (map Some full, Ok ()) \<and> shaped (k + m) len full
        \<and> is_codeword C len full \<and> extends full partial"
    and "\<lbrakk>C x; C y; length x = k + m; length y = k + m; k \<le> card {i. i < k + m \<and> x ! i = y ! i}\<rbrakk> \<Longrightarrow> x = y"
  using assms unfolding rs_contract_def by blast+

section \<open>Codewords\<close>

lemma length_column [simp]: "length (column shards i) = length shards"
  by (simp add: column_def)

lemma extends_present:
  assumes "extends a partial" "i \<in> present partial"
  shows "i < length a \<and> partial ! i = Some (a ! i)"
  using assms by (auto simp: extends_def present_def list_all2_conv_all_nth)

text \<open>The surviving shards determine the codeword.\<close>

lemma codeword_unique:
  assumes R: "rs_contract R k m C"
    and a: "shaped (k + m) len a" "is_codeword C len a" "extends a partial"
    and b: "shaped (k + m) len b" "is_codeword C len b" "extends b partial"
    and enough: "k \<le> card (present partial)"
  shows "a = b"
proof (rule nth_equalityI)
  show eq: "length a = length b" using a(1) b(1) by (simp add: shaped_def)
  fix j assume j: "j < length a"
  have col: "column a i = column b i" if "i < len" for i
  proof (rule rs_contractD(5) [OF R])
    have "present partial \<subseteq> {j. j < k + m \<and> column a i ! j = column b i ! j}"
      using a b extends_present [OF a(3)] extends_present [OF b(3)]
      by (fastforce simp: shaped_def column_def)
    from card_mono [OF _ this] enough show "k \<le> card {j. j < k + m \<and> column a i ! j = column b i ! j}" by simp
  qed (use a b that in \<open>auto simp: is_codeword_def shaped_def\<close>)
  show "a ! j = b ! j"
  proof (rule nth_equalityI)
    show "length (a ! j) = length (b ! j)" using a(1) b(1) j eq by (simp add: shaped_def)
    fix i assume "i < length (a ! j)"
    then have "i < len" using a(1) j by (simp add: shaped_def)
    from arg_cong [OF col [OF this], of "\<lambda>c. c ! j"] show "a ! j ! i = b ! j ! i"
      using j eq by (simp add: column_def)
  qed
qed

lemma profile_validate_OkE:
  assumes "profile_validate p = Ok ()"
  obtains h where "4 \<le> h" "cp_shard_size p = 2 ^ h" "0 < cp_data_shards p" "0 < cp_parity_shards p"
    "cp_data_shards p + cp_parity_shards p \<le> 64"
proof -
  from assms have v: "is_power_of_two (cp_shard_size p)" "16 \<le> cp_shard_size p" "0 < cp_data_shards p"
    "0 < cp_parity_shards p" "cp_data_shards p + cp_parity_shards p \<le> 64"
    by (auto simp: profile_validate_def result_simps split: if_splits)
  obtain h where h: "cp_shard_size p = 2 ^ h" using v(1) by (auto simp: is_power_of_two_iff)
  have "(2::nat) ^ 4 \<le> 2 ^ h" using v(2) h by simp
  then have "4 \<le> h" using power_le_imp_le_exp [of "2::nat" 4 h] by simp
  with v h that show thesis by blast
qed

lemma total_shards_eq:
  assumes "profile_validate p = (Ok () :: ('x coding_error, unit) result)"
  shows "total_shards p = (Ok (cp_data_shards p + cp_parity_shards p) :: ('x coding_error, nat) result)"
  using assms by (auto simp: total_shards_def elim: profile_validate_OkE)

lemma encode_OkE:
  fixes R :: "'x reed_solomon"
  assumes enc: "encode R p info = Ok cw" and R: "rs_contract R (cp_data_shards p) (cp_parity_shards p) C"
  obtains parity where "profile_validate p = (Ok () :: ('x coding_error, unit) result)" "0 < cp_shard_size p"
    "cw = info @ parity" "length info = cp_data_shards p"
    "shaped (cp_data_shards p + cp_parity_shards p) (cp_shard_size p) cw" "is_codeword C (cp_shard_size p) cw"
proof -
  let ?k = "cp_data_shards p" and ?m = "cp_parity_shards p" and ?n = "cp_shard_size p"
  from enc have v: "profile_validate p = (Ok () :: ('x coding_error, unit) result)"
    and shape: "shaped ?k ?n info"
    and run: "rs_encode R ?k ?m (info @ replicate ?m (zeros ?n)) = Ok cw"
    by (auto simp: encode_def result_simps shaped_def Let_def map_err_Ok_iff split: if_splits)
  have n: "0 < ?n" using v by (auto elim: profile_validate_OkE)
  have "shaped ?m ?n (replicate ?m (zeros ?n))" by (auto simp: shaped_def)
  from rs_contractD(2) [OF R n shape this] run that [OF v n] shape show thesis
    by (auto simp: shaped_def)
qed

lemma reconstruct_codeword:
  fixes R :: "'x reed_solomon"
  assumes R: "rs_contract R (cp_data_shards p) (cp_parity_shards p) C"
    and v: "profile_validate p = (Ok () :: ('x coding_error, unit) result)"
    and cw: "shaped (cp_data_shards p + cp_parity_shards p) (cp_shard_size p) cw" "is_codeword C (cp_shard_size p) cw"
    and part: "extends cw partial" "cp_data_shards p \<le> card (present partial)"
  shows "reconstruct R p partial = (map Some cw, Ok ())"
proof -
  have n: "0 < cp_shard_size p" using v by (auto elim: profile_validate_OkE)
  obtain full where full: "rs_reconstruct R (cp_data_shards p) (cp_parity_shards p) partial = (map Some full, Ok ())"
    "shaped (cp_data_shards p + cp_parity_shards p) (cp_shard_size p) full"
    "is_codeword C (cp_shard_size p) full" "extends full partial"
    using rs_contractD(4) [OF R n cw part] by blast
  have "full = cw" using codeword_unique [OF R full(2-4) cw part(1) part(2)] .
  moreover have "length partial = cp_data_shards p + cp_parity_shards p"
    using part(1) cw(1) by (simp add: extends_def shaped_def list_all2_lengthD)
  moreover have "length s = cp_shard_size p" if "Some s \<in> set partial" for s
    using that part(1) cw(1) by (fastforce simp: in_set_conv_nth extends_def list_all2_conv_all_nth shaped_def)
  ultimately show ?thesis
    using full(1) total_shards_eq [OF v] rs_contractD(1) [OF R]
    by (auto simp: reconstruct_def split: option.splits)
qed

lemma verify_with_eq:
  fixes R :: "'x reed_solomon"
  assumes "rs_contract R (cp_data_shards p) (cp_parity_shards p) C" "0 < len"
    "shaped (cp_data_shards p + cp_parity_shards p) len shards"
  shows "verify_with R p shards = (if is_codeword C len shards then Ok () else Err InvalidCodeword)"
  using rs_contractD(1,3) [OF assms(1)] assms(2,3) by (simp add: verify_with_def)

lemma verify_codeword_iff:
  fixes R :: "'x reed_solomon"
  assumes R: "rs_contract R (cp_data_shards p) (cp_parity_shards p) C"
    and v: "profile_validate p = (Ok () :: ('x coding_error, unit) result)"
    and shape: "shaped (cp_data_shards p + cp_parity_shards p) (cp_shard_size p) shards"
  shows "verify_codeword R p shards = Ok () \<longleftrightarrow> is_codeword C (cp_shard_size p) shards"
proof -
  have "0 < cp_shard_size p" using v by (auto elim: profile_validate_OkE)
  then show ?thesis
    using verify_with_eq [OF R _ shape] shape total_shards_eq [OF v]
    by (auto simp: verify_codeword_def shaped_def)
qed

lemma profile_size_leaves:
  assumes "profile_validate p = (Ok () :: ('x coding_error, unit) result)"
  shows "cp_shard_size p = 16 * (cp_shard_size p div 16)"
proof -
  obtain h where h: "4 \<le> h" "cp_shard_size p = 2 ^ h" using assms by (rule profile_validate_OkE)
  then show ?thesis using le_imp_power_dvd [OF h(1), of "2::nat"] by simp
qed

text \<open>One sampled leaf is checked exactly on its sixteen columns.\<close>

lemma verify_sampled_leaf:
  fixes R :: "'x reed_solomon"
  assumes R: "rs_contract R (cp_data_shards p) (cp_parity_shards p) C"
    and v: "profile_validate p = (Ok () :: ('x coding_error, unit) result)"
    and shape: "shaped (cp_data_shards p + cp_parity_shards p) (cp_shard_size p) shards"
    and j: "j < cp_shard_size p div 16"
  shows "verify_sampled_codeword R p (map (\<lambda>s. sub s (16 * j) 16) shards) = Ok () \<longleftrightarrow>
    (\<forall>i < 16. C (column shards (16 * j + i)))"
proof -
  let ?sym = "map (\<lambda>s. sub s (16 * j) 16) shards"
  have j: "16 * j + 16 \<le> cp_shard_size p" using j profile_size_leaves [OF v] by linarith
  then have s16: "shaped (cp_data_shards p + cp_parity_shards p) 16 ?sym"
    using shape by (auto simp: shaped_def)
  have "column ?sym i = column shards (16 * j + i)" if "i < 16" for i
    using shape j that by (simp add: column_def sub_def shaped_def)
  then show ?thesis
    using verify_with_eq [OF R _ s16] s16 total_shards_eq [OF v]
    by (auto simp: verify_sampled_codeword_def is_codeword_def shaped_def)
qed

text \<open>The fixed 3+2 prototype code: any three shards of an encoded codeword reconstruct it, although
  \<open>reconstruct_3_2\<close> infers the shard size from the first surviving shard.\<close>

lemma encode_3_2_reconstruct:
  fixes R :: "'x reed_solomon"
  assumes R: "rs_contract R 3 2 C" and enc: "encode_3_2 R info = Ok cw"
    and part: "extends cw partial" "3 \<le> card (present partial)"
  shows "reconstruct_3_2 R partial = (map Some cw, Ok ())"
proof -
  define p where "p = profile_new 3 2 (length (hd info))"
  have p: "cp_data_shards p = 3" "cp_parity_shards p = 2" "cp_shard_size p = length (hd info)"
    by (simp_all add: p_def profile_new_def)
  have small: "length (hd info) < 2 ^ 32" and e: "encode R p info = Ok cw"
    using enc by (auto simp: encode_3_2_def p_def result_simps split: if_splits)
  have R': "rs_contract R (cp_data_shards p) (cp_parity_shards p) C" using R p by simp
  obtain parity where v: "profile_validate p = (Ok () :: ('x coding_error, unit) result)"
    and cw: "shaped (cp_data_shards p + cp_parity_shards p) (cp_shard_size p) cw" "is_codeword C (cp_shard_size p) cw"
    using encode_OkE [OF e R'] by metis
  have "present partial \<noteq> {}" using part(2) by auto
  then have "List.map_filter id partial \<noteq> []"
    by (auto simp: present_def List.map_filter_def filter_empty_conv) (metis nth_mem option.exhaust)
  then obtain first rest where f: "List.map_filter id partial = first # rest" by (cases "List.map_filter id partial") auto
  then have "first \<in> set (List.map_filter id partial)" by simp
  then have "Some first \<in> set partial" by (auto simp: List.map_filter_def)
  then have "length first = cp_shard_size p"
    using part(1) cw(1) by (fastforce simp: in_set_conv_nth extends_def list_all2_conv_all_nth shaped_def)
  then show ?thesis
    using reconstruct_codeword [OF R' v cw part(1)] part(2) small f p by (simp add: reconstruct_3_2_def p_def)
qed

section \<open>Properties\<close>

text \<open>C35: Any \<open>data_shards\<close> surviving shards restore the whole codeword. For every accepted profile,
  \<open>encode\<close> is systematic and its output passes \<open>verify_codeword\<close>; and whatever shards are erased
  from it, as long as at least \<open>data_shards\<close> survive, \<open>reconstruct\<close> succeeds and leaves exactly
  the encoded codeword in the slots.\<close>

theorem encode_reconstruct:
  fixes R :: "'x reed_solomon"
  assumes R: "rs_contract R (cp_data_shards p) (cp_parity_shards p) C" and enc: "encode R p info = Ok cw"
    and part: "extends cw partial" "cp_data_shards p \<le> card (present partial)"
  shows "reconstruct R p partial = (map Some cw, Ok ()) \<and> verify_codeword R p cw = Ok ()
    \<and> take (cp_data_shards p) cw = info"
proof -
  obtain parity where "profile_validate p = (Ok () :: ('x coding_error, unit) result)"
    "cw = info @ parity" "length info = cp_data_shards p"
    "shaped (cp_data_shards p + cp_parity_shards p) (cp_shard_size p) cw" "is_codeword C (cp_shard_size p) cw"
    using encode_OkE [OF enc R] by metis
  then show ?thesis using reconstruct_codeword [OF R _ _ _ part] verify_codeword_iff [OF R] by auto
qed

text \<open>C36: Sampling is exact. For shards of an accepted profile, the full codeword check succeeds if and
  only if the sampled check succeeds on every aligned 16-byte range of the shards.\<close>

theorem verify_sampled_exact:
  fixes R :: "'x reed_solomon"
  assumes R: "rs_contract R (cp_data_shards p) (cp_parity_shards p) C"
    and v: "profile_validate p = (Ok () :: ('x coding_error, unit) result)"
    and shape: "shaped (cp_data_shards p + cp_parity_shards p) (cp_shard_size p) shards"
  shows "verify_codeword R p shards = Ok () \<longleftrightarrow>
    (\<forall>j < cp_shard_size p div 16. verify_sampled_codeword R p (map (\<lambda>s. sub s (16 * j) 16) shards) = Ok ())"
proof -
  let ?n = "cp_shard_size p"
  have n: "?n = 16 * (?n div 16)" using profile_size_leaves [OF v] .
  note verify_sampled_leaf [OF R v shape]
  moreover have "(\<forall>i < ?n. C (column shards i)) \<longleftrightarrow> (\<forall>j < ?n div 16. \<forall>i < 16. C (column shards (16 * j + i)))"
  proof (intro iffI allI impI)
    fix j i :: nat assume *: "\<forall>i < ?n. C (column shards i)" "j < ?n div 16" "i < 16"
    then have "16 * j + i < ?n" using n by linarith
    with *(1) show "C (column shards (16 * j + i))" by blast
  next
    fix i assume *: "\<forall>j < ?n div 16. \<forall>i < 16. C (column shards (16 * j + i))" "i < ?n"
    have "i div 16 < ?n div 16" using *(2) n by linarith
    moreover have "i mod 16 < 16" "16 * (i div 16) + i mod 16 = i" by simp_all
    ultimately show "C (column shards i)" using *(1) by metis
  qed
  ultimately show ?thesis using verify_codeword_iff [OF R v shape] by (simp add: is_codeword_def)
qed

section \<open>Instances\<close>

text \<open>The repetition code with one data and one parity shard.\<close>

definition sample_codec :: "unit reed_solomon" where
  "sample_codec = \<lparr>rs_new = \<lambda>k m. Ok (), rs_encode = \<lambda>k m shards. Ok (replicate (k + m) (hd shards)),
     rs_reconstruct = \<lambda>k m shards. (replicate (k + m) (if hd shards = None then last shards else hd shards), Ok ()),
     rs_verify = \<lambda>k m shards. Ok (shards = replicate (k + m) (hd shards))\<rparr>"

definition sample_code :: "byte list \<Rightarrow> bool" where
  "sample_code x \<longleftrightarrow> x = replicate 2 (hd x)"

definition sample_profile :: coding_profile where
  "sample_profile = profile_new 1 1 16"

lemma shaped_two: "shaped (Suc (Suc 0)) len shards \<longleftrightarrow> (\<exists>a b. shards = [a, b] \<and> length a = len \<and> length b = len)"
  by (auto simp: shaped_def length_Suc_conv)

lemma shaped_one: "shaped (Suc 0) len shards \<longleftrightarrow> (\<exists>a. shards = [a] \<and> length a = len)"
  by (auto simp: shaped_def length_Suc_conv)

lemma sample_codeword: "length a = len \<Longrightarrow> length b = len \<Longrightarrow> is_codeword sample_code len [a, b] \<longleftrightarrow> a = b"
  by (auto simp: is_codeword_def sample_code_def column_def numeral_2_eq_2 intro: nth_equalityI)

lemma sample_contract: "rs_contract sample_codec 1 1 sample_code"
proof -
  have some: "a \<noteq> None \<or> b \<noteq> None" if "Suc 0 \<le> card (present [a, b])" for a b :: "shard option"
  proof (rule ccontr)
    assume "\<not> (a \<noteq> None \<or> b \<noteq> None)"
    then have "present [a, b] = {}" by (auto simp: present_def nth_Cons split: nat.splits)
    with that show False by simp
  qed
  have rec: "\<exists>full. rs_reconstruct sample_codec 1 1 partial = (map Some full, Ok ()) \<and> shaped (1 + 1) len full
      \<and> is_codeword sample_code len full \<and> extends full partial"
    if r: "shaped (1 + 1) len shards" "is_codeword sample_code len shards" "extends shards partial"
      "1 \<le> card (present partial)" for len shards partial
  proof -
    obtain a where a: "shards = [a, a]" "length a = len"
      using r(1,2) sample_codeword by (auto simp: shaped_two)
    then obtain u v where p: "partial = [u, v]" "u = None \<or> u = Some a" "v = None \<or> v = Some a"
      using r(3) by (auto simp: extends_def list_all2_Cons1)
    then have "rs_reconstruct sample_codec 1 1 partial = (map Some shards, Ok ())"
      using some [of u v] r(4) by (auto simp: sample_codec_def a numeral_2_eq_2)
    then show ?thesis using r by auto
  qed
  have mds: "x = y" if "sample_code x" "sample_code y" "length x = 1 + 1" "length y = 1 + 1"
    "1 \<le> card {i. i < 1 + 1 \<and> x ! i = y ! i}" for x y
  proof -
    have "{i. i < 1 + 1 \<and> x ! i = y ! i} \<noteq> {}" using that(5) by (metis card.empty not_one_le_zero)
    then obtain i where "i < Suc (Suc 0)" "x ! i = y ! i" by auto
    moreover have "x = [hd x, hd x]" "y = [hd y, hd y]"
      using that(1,2) by (simp_all add: sample_code_def numeral_2_eq_2)
    then have "x ! i = hd x" "y ! i = hd y" if "i < Suc (Suc 0)" using that by (metis less_Suc_eq less_one nth_Cons_0 nth_Cons_Suc One_nat_def)+
    ultimately have "hd x = hd y" by simp
    then show ?thesis using \<open>x = [hd x, hd x]\<close> \<open>y = [hd y, hd y]\<close> by simp
  qed
  show ?thesis
    unfolding rs_contract_def
    using rec mds by (auto simp: sample_codec_def shaped_one shaped_two sample_codeword numeral_2_eq_2)
qed

lemma sample_profile_valid: "profile_validate sample_profile = Ok ()"
  using is_power_of_two_power [of 4] by (simp add: profile_validate_def sample_profile_def profile_new_def checked_add_def)

lemma sample_profile_simps [simp]:
  "cp_data_shards sample_profile = 1" "cp_parity_shards sample_profile = 1" "cp_shard_size sample_profile = 16"
  by (simp_all add: sample_profile_def profile_new_def)

theorem encode_reconstruct_witness:
  "reconstruct sample_codec sample_profile [None, Some (replicate 16 7)] =
    (map Some [replicate 16 7, replicate 16 7], Ok ())"
proof -
  have "encode sample_codec sample_profile [replicate 16 7] = Ok [replicate 16 7, replicate 16 7]"
    by (simp add: sample_profile_valid encode_def Let_def sample_codec_def numeral_2_eq_2)
  moreover have "present [None, Some (replicate 16 (7 :: byte))] = {1}"
    by (auto simp: present_def less_Suc_eq)
  ultimately show ?thesis
    using encode_reconstruct [of sample_codec sample_profile sample_code "[replicate 16 7]"
        "[replicate 16 7, replicate 16 7]" "[None, Some (replicate 16 7)]"] sample_contract
    by (simp add: extends_def)
qed

theorem verify_sampled_exact_witness:
  "verify_codeword sample_codec sample_profile [replicate 16 7, replicate 16 7] = Ok () \<longleftrightarrow>
    verify_sampled_codeword sample_codec sample_profile [replicate 16 7, replicate 16 7] = Ok ()"
  using verify_sampled_exact [of sample_codec sample_profile sample_code "[replicate 16 7, replicate 16 7]"]
    sample_contract
  by (simp add: sample_profile_valid shaped_def sub_def)

end
