(* ===== verification/Coding_Group.thy ===== *)
theory Coding_Group
  imports Keys Merkle Coding
begin

text \<open>
  Signed records and variable-geometry coding groups of \<open>src/crates/mb-core/src/model.rs\<close>:
  \<open>SignedRecord\<close>, \<open>CodingGroupV2\<close>, its validation and the two ways to check a group's parity, from
  complete shards or from one authenticated leaf of every shard. The canonical (postcard) encoding
  of a value is third-party code: an encoder is an argument and returns the encoding or postcard's
  error. Failure domains are UTF-8 strings, here with one character per byte.
\<close>

section \<open>Errors and canonical encodings\<close>

type_synonym ('m, 'a) encoder = "'a \<Rightarrow> 'm + byte list"
type_synonym ('m, 'a) decoder = "byte list \<Rightarrow> 'm + 'a"

text \<open>The payload of \<open>ed25519_dalek::SignatureError\<close> is opaque and not modelled.\<close>

datatype ('m, 'x) model_error =
    EncodingTooLarge nat | Encode 'm | Decode 'm | PublicKey | InvalidCheckpoint | InvalidGenesis | InvalidInvite
  | InvalidStorageAcknowledgement | InvalidWriterFence | WeakPublicKey | InvalidRecoveryAuthority
  | NonMemberSigner node_id | InsufficientQuorum nat nat | ReusedFailureDomain string | InvalidCodingRelation
  | CodingFailed "'x coding_error" | MerkleFailed merkle_error

definition canonical_bytes :: "('m, 'a) encoder \<Rightarrow> 'a \<Rightarrow> (('m, 'x) model_error, byte list) result" where
  "canonical_bytes enc v = (case enc v of Inl e \<Rightarrow> Err (Encode e) | Inr bs \<Rightarrow> Ok bs)"

definition decode_canonical :: "('m, 'a) decoder \<Rightarrow> byte list \<Rightarrow> (('m, 'x) model_error, 'a) result" where
  "decode_canonical dec bs = (case dec bs of Inl e \<Rightarrow> Err (Decode e) | Inr v \<Rightarrow> Ok v)"

definition hash_canonical :: "blake3 \<Rightarrow> ('m, 'a) encoder \<Rightarrow> string \<Rightarrow> 'a \<Rightarrow> (('m, 'x) model_error, digest) result" where
  "hash_canonical B enc domain v = and_then (canonical_bytes enc v) (\<lambda>bs. Ok (derive_key B domain bs))"

section \<open>Signed records\<close>

record 'a signed_record =
  sig_signer :: node_id
  sig_value :: 'a
  sig_signature :: "byte list"

record member_signature =
  ms_signer :: node_id
  ms_signature :: "byte list"

definition signed_sign ::
    "crypto \<Rightarrow> ('m, 'a) encoder \<Rightarrow> string \<Rightarrow> 'a \<Rightarrow> key_material \<Rightarrow> (('m, 'x) model_error, 'a signed_record) result" where
  "signed_sign K enc domain v keys =
     and_then (canonical_bytes enc v) (\<lambda>encoded.
     Ok \<lparr>sig_signer = key_node_id K keys, sig_value = v, sig_signature = sign K keys (ascii domain) encoded\<rparr>)"

definition signed_verify ::
    "crypto \<Rightarrow> ('m, 'a) encoder \<Rightarrow> string \<Rightarrow> 'a signed_record \<Rightarrow> (('m, 'x) model_error, unit) result" where
  "signed_verify K enc domain self =
     (if \<not> ed_valid K (sig_signer self) then Err PublicKey
      else if ed_weak K (sig_signer self) then Err WeakPublicKey
      else if length (sig_signature self) \<noteq> 64 then Err PublicKey
      else and_then (canonical_bytes enc (sig_value self)) (\<lambda>bytes.
        if ed_verify_strict K (sig_signer self) (signing_payload (ascii domain) bytes) (sig_signature self)
        then Ok () else Err PublicKey))"

lemma signed_sign_verify:
  assumes "ed25519_correct K" "\<not> ed_weak K (key_node_id K keys)"
    and "signed_sign K enc domain v keys = (Ok r :: (('m, 'x) model_error, _) result)"
  shows "signed_verify K enc domain r = (Ok () :: (('m, 'x) model_error, unit) result)"
    "sig_signer r = key_node_id K keys" "sig_value r = v"
  using assms
  by (auto simp: signed_sign_def signed_verify_def ed25519_correct_def sign_def key_node_id_def result_simps
      canonical_bytes_def split: sum.splits)

section \<open>Coding groups\<close>

record range_sector_ref =
  sec_id :: digest
  sec_commitment :: merkle_commitment
  sec_logical_len :: nat
  sec_virtual_zero :: bool

record information_role_v2 =
  ir_owner :: node_id
  ir_failure_domain :: string
  ir_sector :: range_sector_ref

record parity_role_v2 =
  pa_holder :: node_id
  pa_failure_domain :: string
  pa_row :: nat
  pa_commitment :: merkle_commitment

datatype shard_role_v2 = Information information_role_v2 | Parity parity_role_v2

record coding_group_v2 =
  cg_id :: digest
  cg_format_version :: nat
  cg_guild_id :: digest
  cg_profile :: coding_profile
  cg_roles :: "shard_role_v2 list"

type_synonym 'm group_encoder = "('m, nat \<times> digest \<times> coding_profile \<times> shard_role_v2 list) encoder"

definition coding_group_v2_id ::
    "'m group_encoder \<Rightarrow> blake3 \<Rightarrow> nat \<Rightarrow> digest \<Rightarrow> coding_profile \<Rightarrow> shard_role_v2 list \<Rightarrow> (('m, 'x) model_error, digest) result" where
  "coding_group_v2_id enc B format_version guild_id profile roles =
     hash_canonical B enc ''mutualbackup coding group v2'' (format_version, guild_id, profile, roles)"

definition group_calculate_id ::
    "'m group_encoder \<Rightarrow> blake3 \<Rightarrow> coding_group_v2 \<Rightarrow> (('m, 'x) model_error, digest) result" where
  "group_calculate_id enc B self =
     coding_group_v2_id enc B (cg_format_version self) (cg_guild_id self) (cg_profile self) (cg_roles self)"

text \<open>The checks of one role at one index; the result is the role's failure domain.\<close>

definition group_role_check ::
    "blake3 \<Rightarrow> coding_profile \<Rightarrow> nat \<Rightarrow> shard_role_v2 \<Rightarrow> (('m, 'x) model_error, string) result" where
  "group_role_check B profile i role =
     (case role of
        Information information \<Rightarrow>
          if i < cp_data_shards profile then
            (let sector = ir_sector information in
             and_then (map_err MerkleFailed (validate_commitment (sec_commitment sector))) (\<lambda>_.
             if sec_id sector = 0 \<or> mc_byte_len (sec_commitment sector) \<noteq> cp_shard_size profile
                \<or> cp_shard_size profile < sec_logical_len sector \<or> ir_failure_domain information = []
                \<or> 256 < length (ir_failure_domain information)
             then Err InvalidCheckpoint
             else and_then
               (if sec_virtual_zero sector then
                  (if sec_logical_len sector \<noteq> cp_shard_size profile then Err InvalidCheckpoint
                   else and_then (map_err MerkleFailed (merkle_zero_commitment B (cp_shard_size profile))) (\<lambda>zero.
                     if sec_commitment sector \<noteq> zero then Err InvalidCheckpoint else Ok ()))
                else if sec_logical_len sector = 0 then Err InvalidCheckpoint
                else Ok ())
               (\<lambda>_. Ok (ir_failure_domain information))))
          else Err InvalidCheckpoint
      | Parity parity \<Rightarrow>
          if cp_data_shards profile \<le> i \<and> pa_row parity = (i - cp_data_shards profile) mod 2 ^ 16 then
            and_then (map_err MerkleFailed (validate_commitment (pa_commitment parity))) (\<lambda>_.
            if mc_byte_len (pa_commitment parity) \<noteq> cp_shard_size profile \<or> pa_failure_domain parity = []
               \<or> 256 < length (pa_failure_domain parity)
            then Err InvalidCheckpoint
            else Ok (pa_failure_domain parity))
          else Err InvalidCheckpoint)"

fun group_roles_check ::
    "blake3 \<Rightarrow> coding_profile \<Rightarrow> nat \<Rightarrow> string set \<Rightarrow> shard_role_v2 list \<Rightarrow> (('m, 'x) model_error, unit) result" where
  "group_roles_check B profile i domains [] = Ok ()"
| "group_roles_check B profile i domains (role # roles) =
     and_then (group_role_check B profile i role) (\<lambda>domain.
     if domain \<in> domains then Err (ReusedFailureDomain domain)
     else group_roles_check B profile (Suc i) (insert domain domains) roles)"

definition group_validate ::
    "'m group_encoder \<Rightarrow> blake3 \<Rightarrow> coding_group_v2 \<Rightarrow> (('m, 'x) model_error, unit) result" where
  "group_validate enc B self =
     and_then (map_err CodingFailed (profile_validate (cg_profile self))) (\<lambda>_.
     if cg_format_version self \<notin> {2, 3} \<or> cg_guild_id self = 0 then Err InvalidCheckpoint
     else and_then (map_err CodingFailed (total_shards (cg_profile self))) (\<lambda>total.
     if length (cg_roles self) \<noteq> total then Err InvalidCheckpoint
     else and_then (group_calculate_id enc B self) (\<lambda>id.
     if id \<noteq> cg_id self then Err InvalidCheckpoint
     else group_roles_check B (cg_profile self) 0 {} (cg_roles self))))"

section \<open>Parity verification\<close>

fun check_information_roles ::
    "blake3 \<Rightarrow> (shard_role_v2 \<times> shard) list \<Rightarrow> (('m, 'x) model_error, unit) result" where
  "check_information_roles B [] = Ok ()"
| "check_information_roles B ((role, bytes) # rest) =
     (case role of
        Parity _ \<Rightarrow> Err InvalidCodingRelation
      | Information information \<Rightarrow>
          and_then (map_err MerkleFailed (merkle_commit B bytes)) (\<lambda>c.
          if c \<noteq> sec_commitment (ir_sector information) then Err InvalidCodingRelation
          else check_information_roles B rest))"

definition verify_parity_shard ::
    "'m group_encoder \<Rightarrow> blake3 \<Rightarrow> 'x reed_solomon \<Rightarrow> coding_group_v2 \<Rightarrow> shard list \<Rightarrow> nat \<Rightarrow> shard
      \<Rightarrow> (('m, 'x) model_error, unit) result" where
  "verify_parity_shard enc B R self information shard_index parity =
     and_then (group_validate enc B self) (\<lambda>_.
     if length information \<noteq> cp_data_shards (cg_profile self) then Err InvalidCodingRelation
     else and_then (slice (cg_roles self) 0 (length information)) (\<lambda>roles.
     and_then (check_information_roles B (zip roles information)) (\<lambda>_.
     case (if shard_index < length (cg_roles self) then Some (cg_roles self ! shard_index) else None) of
       Some (Parity parity_role) \<Rightarrow>
         and_then (map_err MerkleFailed (merkle_commit B parity)) (\<lambda>c.
         if c \<noteq> pa_commitment parity_role then Err InvalidCodingRelation
         else and_then (map_err CodingFailed (encode R (cg_profile self) information)) (\<lambda>encoded.
         and_then (index encoded shard_index) (\<lambda>expected.
         if expected \<noteq> parity then Err InvalidCodingRelation else Ok ())))
     | _ \<Rightarrow> Err InvalidCodingRelation)))"

definition role_commitment :: "shard_role_v2 \<Rightarrow> merkle_commitment" where
  "role_commitment role = (case role of Information information \<Rightarrow> sec_commitment (ir_sector information) | Parity parity \<Rightarrow> pa_commitment parity)"

fun sampled_symbols ::
    "blake3 \<Rightarrow> nat \<Rightarrow> (shard_role_v2 \<times> merkle_range_proof) list \<Rightarrow> (('m, 'x) model_error, shard list) result" where
  "sampled_symbols B challenged [] = Ok []"
| "sampled_symbols B challenged ((role, proof) # rest) =
     (if rp_start_leaf proof \<noteq> challenged \<or> length (rp_leaves proof) \<noteq> 1 then Err InvalidCodingRelation
      else and_then (map_err MerkleFailed (merkle_verify_range B (role_commitment role) proof)) (\<lambda>bytes.
      if length bytes \<noteq> 16 then Err InvalidCodingRelation
      else and_then (sampled_symbols B challenged rest) (\<lambda>symbols. Ok (bytes # symbols))))"

definition verify_sampled_openings ::
    "'m group_encoder \<Rightarrow> blake3 \<Rightarrow> 'x reed_solomon \<Rightarrow> coding_group_v2 \<Rightarrow> nat \<Rightarrow> merkle_range_proof list
      \<Rightarrow> (('m, 'x) model_error, unit) result" where
  "verify_sampled_openings enc B R self challenged proofs =
     and_then (group_validate enc B self) (\<lambda>_.
     if length proofs \<noteq> length (cg_roles self) then Err InvalidCodingRelation
     else and_then (sampled_symbols B challenged (zip (cg_roles self) proofs)) (\<lambda>symbols.
     map_err CodingFailed (verify_sampled_codeword R (cg_profile self) symbols)))"

section \<open>Valid groups\<close>

definition role_domain :: "shard_role_v2 \<Rightarrow> string" where
  "role_domain role = (case role of Information information \<Rightarrow> ir_failure_domain information | Parity parity \<Rightarrow> pa_failure_domain parity)"

definition role_at :: "coding_profile \<Rightarrow> nat \<Rightarrow> shard_role_v2 \<Rightarrow> bool" where
  "role_at profile i role \<longleftrightarrow>
     (case role of Information _ \<Rightarrow> i < cp_data_shards profile
      | Parity parity \<Rightarrow> cp_data_shards profile \<le> i \<and> pa_row parity = (i - cp_data_shards profile) mod 2 ^ 16)"

lemma group_role_check_OkD:
  assumes "group_role_check B profile i role = (Ok d :: (('m, 'x) model_error, _) result)"
  shows "d = role_domain role" "role_domain role \<noteq> []" "length (role_domain role) \<le> 256" "role_at profile i role"
    "validate_commitment (role_commitment role) = Ok ()" "mc_byte_len (role_commitment role) = cp_shard_size profile"
  using assms
  by (auto simp: group_role_check_def role_domain_def role_commitment_def role_at_def and_then_Ok_iff map_err_Ok_iff Let_def
      split: shard_role_v2.splits if_splits)

lemma group_roles_check_OkD:
  assumes "group_roles_check B profile i domains roles = (Ok () :: (('m, 'x) model_error, _) result)"
  shows "distinct (map role_domain roles)" "role_domain ` set roles \<inter> domains = {}"
    "j < length roles \<Longrightarrow> \<exists>d. group_role_check B profile (i + j) (roles ! j) = (Ok d :: (('m, 'x) model_error, _) result)"
proof -
  have "distinct (map role_domain roles) \<and> role_domain ` set roles \<inter> domains = {} \<and>
      (\<forall>j < length roles. \<exists>d. group_role_check B profile (i + j) (roles ! j) = (Ok d :: (('m, 'x) model_error, _) result))"
    using assms
  proof (induction B profile i domains roles rule: group_roles_check.induct)
    case (2 B profile i domains role roles)
    obtain d where d: "group_role_check B profile i role = (Ok d :: (('m, 'x) model_error, _) result)" "d \<notin> domains"
      "group_roles_check B profile (Suc i) (insert d domains) roles = (Ok () :: (('m, 'x) model_error, _) result)"
      using "2.prems" by (auto simp: and_then_Ok_iff split: if_splits)
    note IH = "2.IH" [OF d(2,3)]
    have dom: "d = role_domain role" using group_role_check_OkD(1) [OF d(1)] .
    have "\<exists>d'. group_role_check B profile (i + j) ((role # roles) ! j) = (Ok d' :: (('m, 'x) model_error, _) result)"
      if "j < length (role # roles)" for j
      using that IH d(1) by (cases j) auto
    then show ?case using IH d(2) dom by auto
  qed simp
  then show "distinct (map role_domain roles)" "role_domain ` set roles \<inter> domains = {}"
    "j < length roles \<Longrightarrow> \<exists>d. group_role_check B profile (i + j) (roles ! j) = (Ok d :: (('m, 'x) model_error, _) result)"
    by auto
qed

lemma group_validate_OkD:
  assumes "group_validate enc B g = (Ok () :: (('m, 'x) model_error, _) result)"
  shows "profile_validate (cg_profile g) = (Ok () :: ('x coding_error, unit) result)"
    "length (cg_roles g) = cp_data_shards (cg_profile g) + cp_parity_shards (cg_profile g)"
    "distinct (map role_domain (cg_roles g))" "cg_guild_id g \<noteq> 0"
    "group_calculate_id enc B g = (Ok (cg_id g) :: (('m, 'x) model_error, _) result)"
    "i < length (cg_roles g) \<Longrightarrow> role_at (cg_profile g) i (cg_roles g ! i) \<and> role_domain (cg_roles g ! i) \<noteq> []
      \<and> validate_commitment (role_commitment (cg_roles g ! i)) = Ok ()
      \<and> mc_byte_len (role_commitment (cg_roles g ! i)) = cp_shard_size (cg_profile g)"
proof -
  note a = assms [unfolded group_validate_def and_then_Ok_iff map_err_Ok_iff]
  show v: "profile_validate (cg_profile g) = (Ok () :: ('x coding_error, unit) result)"
    using a by simp
  have roles: "group_roles_check B (cg_profile g) 0 {} (cg_roles g) = (Ok () :: (('m, 'x) model_error, _) result)"
    and "length (cg_roles g) = cp_data_shards (cg_profile g) + cp_parity_shards (cg_profile g) \<and> cg_guild_id g \<noteq> 0 \<and>
      group_calculate_id enc B g = (Ok (cg_id g) :: (('m, 'x) model_error, _) result)"
    using a total_shards_eq [OF v] by (auto simp: and_then_Ok_iff map_err_Ok_iff split: if_splits)
  then show "length (cg_roles g) = cp_data_shards (cg_profile g) + cp_parity_shards (cg_profile g)"
    "cg_guild_id g \<noteq> 0" "group_calculate_id enc B g = (Ok (cg_id g) :: (('m, 'x) model_error, _) result)" by simp_all
  show "distinct (map role_domain (cg_roles g))" using group_roles_check_OkD(1) [OF roles] .
  show "i < length (cg_roles g) \<Longrightarrow> role_at (cg_profile g) i (cg_roles g ! i) \<and> role_domain (cg_roles g ! i) \<noteq> []
      \<and> validate_commitment (role_commitment (cg_roles g ! i)) = Ok ()
      \<and> mc_byte_len (role_commitment (cg_roles g ! i)) = cp_shard_size (cg_profile g)"
    using group_roles_check_OkD(3) [OF roles, of i] group_role_check_OkD by fastforce
qed

text \<open>The shards a group's commitments were computed from.\<close>

definition committed :: "blake3 \<Rightarrow> coding_group_v2 \<Rightarrow> shard list \<Rightarrow> bool" where
  "committed B g shards \<longleftrightarrow> length shards = length (cg_roles g) \<and>
     (\<forall>i < length shards. merkle_commit B (shards ! i) = Ok (role_commitment (cg_roles g ! i)))"

lemma merkle_commit_len: "merkle_commit B bytes = Ok c \<Longrightarrow> mc_byte_len c = length bytes"
  by (erule merkle_commit_OkE) (simp add: commitment_of_def)

lemma good_single_leaf: "leaf < len div 16 \<Longrightarrow> len < 2 ^ 32 \<Longrightarrow> \<not> bad_range leaf 1 (len div 16)"
  using is_power_of_two_power [of 0] by (simp add: bad_range_def)

lemma committed_shaped:
  assumes "group_validate enc B g = (Ok () :: (('m, 'x) model_error, _) result)" "committed B g shards"
  shows "shaped (cp_data_shards (cg_profile g) + cp_parity_shards (cg_profile g)) (cp_shard_size (cg_profile g)) shards"
  using assms(2) group_validate_OkD(2,6) [OF assms(1)] merkle_commit_len
  by (fastforce simp: committed_def shaped_def in_set_conv_nth)

lemma sampled_symbols_Ok_iff:
  assumes "length roles = length proofs"
  shows "sampled_symbols B leaf (zip roles proofs) = (Ok symbols :: (('m, 'x) model_error, _) result) \<longleftrightarrow>
    length symbols = length proofs \<and> (\<forall>i < length proofs. rp_start_leaf (proofs ! i) = leaf \<and> length (rp_leaves (proofs ! i)) = 1
      \<and> merkle_verify_range B (role_commitment (roles ! i)) (proofs ! i) = Ok (symbols ! i) \<and> length (symbols ! i) = 16)"
  using assms
proof (induction roles proofs arbitrary: symbols rule: list_induct2)
  case (Cons role roles p proofs)
  show ?case
  proof (cases symbols)
    case (Cons symbol symbols')
    then show ?thesis
      using Cons.IH [of symbols'] by (auto simp: result_simps All_less_Suc2 split: if_splits)
  qed (auto simp: result_simps split: if_splits)
qed auto

lemma sampled_openings_iff:
  fixes enc :: "'m group_encoder" and R :: "'x reed_solomon"
  assumes "group_validate enc B g = (Ok () :: (('m, 'x) model_error, _) result)"
  shows "verify_sampled_openings enc B R g leaf proofs = Ok () \<longleftrightarrow>
    length proofs = length (cg_roles g) \<and> (\<exists>symbols.
      sampled_symbols B leaf (zip (cg_roles g) proofs) = (Ok symbols :: (('m, 'x) model_error, _) result)
      \<and> verify_sampled_codeword R (cg_profile g) symbols = Ok ())"
  using assms by (auto simp: verify_sampled_openings_def result_simps)

lemma check_information_roles_Ok_iff:
  assumes "length roles = length infos"
  shows "check_information_roles B (zip roles infos) = (Ok () :: (('m, 'x) model_error, _) result) \<longleftrightarrow>
    (\<forall>j < length infos. (\<exists>r. roles ! j = Information r) \<and> merkle_commit B (infos ! j) = Ok (role_commitment (roles ! j)))"
  using assms
proof (induction roles infos rule: list_induct2)
  case (Cons role roles bytes infos)
  then show ?case
    by (auto simp: result_simps All_less_Suc2 role_commitment_def split: shard_role_v2.splits if_splits)
qed simp

lemma valid_role_kind:
  assumes "group_validate enc B g = (Ok () :: (('m, 'x) model_error, _) result)" "i < length (cg_roles g)"
  shows "i < cp_data_shards (cg_profile g) \<longleftrightarrow> (\<exists>r. cg_roles g ! i = Information r)"
    "cp_data_shards (cg_profile g) \<le> i \<longleftrightarrow> (\<exists>r. cg_roles g ! i = Parity r)"
  using group_validate_OkD(6) [OF assms] by (auto simp: role_at_def split: shard_role_v2.splits)

section \<open>Properties\<close>

text \<open>C17: A valid group tolerates the loss of any failure domains up to its number of parity shards.
  Validation forces pairwise different domains, so when all shards of at most \<open>parity_shards\<close>
  domains are lost, \<open>reconstruct\<close> restores every shard of the encoded codeword.\<close>

theorem group_survives_domain_loss:
  fixes enc :: "'m group_encoder" and R :: "'x reed_solomon"
  assumes "group_validate enc B g = (Ok () :: (('m, 'x) model_error, _) result)"
    and R: "rs_contract R (cp_data_shards (cg_profile g)) (cp_parity_shards (cg_profile g)) C"
    and cw: "encode R (cg_profile g) information = Ok shards"
    and lost: "finite lost" "card lost \<le> cp_parity_shards (cg_profile g)"
  shows "reconstruct R (cg_profile g)
      (map (\<lambda>(role, s). if role_domain role \<in> lost then None else Some s) (zip (cg_roles g) shards)) = (map Some shards, Ok ())"
proof -
  let ?n = "length (cg_roles g)" and ?k = "cp_data_shards (cg_profile g)" and ?m = "cp_parity_shards (cg_profile g)"
  let ?D = "\<lambda>i. role_domain (cg_roles g ! i)"
  let ?partial = "map (\<lambda>(role, s). if role_domain role \<in> lost then None else Some s) (zip (cg_roles g) shards)"
  note g = group_validate_OkD [OF assms(1)]
  obtain parity where e: "shards = information @ parity" "shaped (?k + ?m) (cp_shard_size (cg_profile g)) shards"
      "is_codeword C (cp_shard_size (cg_profile g)) shards"
    using encode_OkE [OF cw R] by metis
  have n: "length shards = ?n" using e(2) g(2) by (simp add: shaped_def)
  have ext: "extends shards ?partial" using n by (auto simp: extends_def list_all2_conv_all_nth)
  have pres: "present ?partial = {i. i < ?n \<and> ?D i \<notin> lost}" using n by (auto simp: present_def split: if_splits)
  have "inj_on ?D {i. i < ?n}" using g(3) by (auto simp: inj_on_def distinct_conv_nth)
  then have "card {i. i < ?n \<and> ?D i \<in> lost} \<le> card lost"
    by (intro card_inj_on_le [of ?D]) (auto simp: inj_on_def lost(1))
  moreover have "card {i. i < ?n} = card ({i. i < ?n \<and> ?D i \<in> lost} \<union> {i. i < ?n \<and> ?D i \<notin> lost})"
    by (rule arg_cong [of _ _ card]) auto
  then have "?n = card {i. i < ?n \<and> ?D i \<in> lost} + card {i. i < ?n \<and> ?D i \<notin> lost}"
    by (subst (asm) card_Un_disjoint) auto
  ultimately have "?k \<le> card (present ?partial)" using g(2) lost(2) by (simp add: pres)
  then show ?thesis by (rule reconstruct_codeword [OF R g(1) e(2,3) ext])
qed

text \<open>C27: An accepted sample is a true sample. Whatever proofs are presented, if BLAKE3 has no collision
  among the inputs hashed for the commitments and the proofs, \<open>verify_sampled_openings\<close> accepts only
  when the committed shards satisfy the Reed-Solomon equations on the challenged leaf.\<close>

theorem sampled_openings_sound:
  fixes enc :: "'m group_encoder" and R :: "'x reed_solomon"
  assumes valid: "group_validate enc B g = (Ok () :: (('m, 'x) model_error, _) result)" and com: "committed B g shards"
    and acc: "verify_sampled_openings enc B R g leaf proofs = Ok ()"
    and cf: "\<And>i. i < length shards \<Longrightarrow> collision_free B
      (set (commit_queries B (shards ! i)) \<union> set (verify_range_queries B (length (shards ! i)) (proofs ! i)))"
  shows "verify_sampled_codeword R (cg_profile g) (map (\<lambda>s. sub s (16 * leaf) 16) shards) = Ok ()"
proof -
  obtain symbols where s: "length proofs = length (cg_roles g)"
    "sampled_symbols B leaf (zip (cg_roles g) proofs) = (Ok symbols :: (('m, 'x) model_error, _) result)"
    "verify_sampled_codeword R (cg_profile g) symbols = Ok ()"
    using acc unfolding sampled_openings_iff [OF valid] by blast
  note sy = s(2) [unfolded sampled_symbols_Ok_iff [OF s(1) [symmetric]]]
  have "symbols = map (\<lambda>s. sub s (16 * leaf) 16) shards"
  proof (rule nth_equalityI)
    show "length symbols = length (map (\<lambda>s. sub s (16 * leaf) 16) shards)" using sy s(1) com by (simp add: committed_def)
    fix i assume "i < length symbols"
    then have i: "i < length proofs" "i < length shards" using sy s(1) com by (simp_all add: committed_def)
    have "merkle_commit B (shards ! i) = Ok (role_commitment (cg_roles g ! i))" using com i(2) by (simp add: committed_def)
    then have "symbols ! i = sub (shards ! i) (16 * rp_start_leaf (proofs ! i)) (16 * length (rp_leaves (proofs ! i)))"
      using verify_range_sound [OF _ _ cf [OF i(2)]] sy i(1) by blast
    then show "symbols ! i = map (\<lambda>s. sub s (16 * leaf) 16) shards ! i" using sy i by simp
  qed
  then show ?thesis using s(3) by simp
qed

lemma sampled_openings_honest:
  fixes enc :: "'m group_encoder" and R :: "'x reed_solomon"
  assumes valid: "group_validate enc B g = (Ok () :: (('m, 'x) model_error, _) result)" and com: "committed B g shards"
    and leaf: "leaf < cp_shard_size (cg_profile g) div 16"
    and opened: "list_all2 (\<lambda>s p. merkle_open_range B s leaf 1 = Ok p) shards proofs"
  shows "verify_sampled_openings enc B R g leaf proofs = Ok () \<longleftrightarrow>
    verify_sampled_codeword R (cg_profile g) (map (\<lambda>s. sub s (16 * leaf) 16) shards) = Ok ()"
proof -
  let ?symbols = "map (\<lambda>s. sub s (16 * leaf) 16) shards"
  have len: "length proofs = length (cg_roles g)" "length shards = length proofs"
    using opened com by (auto simp: committed_def dest: list_all2_lengthD)
  have "rp_start_leaf (proofs ! i) = leaf \<and> length (rp_leaves (proofs ! i)) = 1
      \<and> merkle_verify_range B (role_commitment (cg_roles g ! i)) (proofs ! i) = Ok (?symbols ! i) \<and> length (?symbols ! i) = 16"
    if i: "i < length proofs" for i
  proof -
    have c: "merkle_commit B (shards ! i) = Ok (role_commitment (cg_roles g ! i))" using com i len by (simp add: committed_def)
    have v: "validate_commitment (role_commitment (cg_roles g ! i)) = Ok ()"
      "length (shards ! i) = cp_shard_size (cg_profile g)"
      using group_validate_OkD(6) [OF valid, of i] i len merkle_commit_len [OF c] by auto
    have "mc_root (role_commitment (cg_roles g ! i)) \<noteq> 0" using v(1) by (auto simp: validate_commitment_def split: if_splits)
    moreover have "\<not> bad_range leaf 1 (length (shards ! i) div 16)"
      using good_single_leaf leaf v(2) c by (metis merkle_commit_OkE)
    ultimately obtain p where p: "merkle_open_range B (shards ! i) leaf 1 = Ok p" "rp_start_leaf p = leaf" "length (rp_leaves p) = 1"
      "merkle_verify_range B (role_commitment (cg_roles g ! i)) p = Ok (sub (shards ! i) (16 * leaf) 16)"
      using open_verify_range [OF c] by fastforce
    have "p = proofs ! i" using p(1) opened i len by (auto simp: list_all2_conv_all_nth)
    moreover have "16 * leaf + 16 \<le> length (shards ! i)"
      using leaf v(2) profile_size_leaves [OF group_validate_OkD(1) [OF valid]] by linarith
    ultimately show ?thesis using p i len by simp
  qed
  then have "sampled_symbols B leaf (zip (cg_roles g) proofs) = (Ok ?symbols :: (('m, 'x) model_error, _) result)"
    using len by (subst sampled_symbols_Ok_iff) auto
  then show ?thesis unfolding sampled_openings_iff [OF valid] using len by auto
qed

text \<open>C28: Honest openings decide the sample. If every holder opens the challenged leaf of its committed
  shard, \<open>verify_sampled_openings\<close> accepts exactly when the shards satisfy the Reed-Solomon equations
  on that leaf; in particular a correctly encoded group is always accepted.\<close>

theorem sampled_openings_exact:
  fixes enc :: "'m group_encoder" and R :: "'x reed_solomon"
  assumes valid: "group_validate enc B g = (Ok () :: (('m, 'x) model_error, _) result)" and com: "committed B g shards"
    and leaf: "leaf < cp_shard_size (cg_profile g) div 16"
    and opened: "list_all2 (\<lambda>s p. merkle_open_range B s leaf 1 = Ok p) shards proofs"
  shows "verify_sampled_openings enc B R g leaf proofs = Ok () \<longleftrightarrow>
    verify_sampled_codeword R (cg_profile g) (map (\<lambda>s. sub s (16 * leaf) 16) shards) = Ok ()"
  using assms by (rule sampled_openings_honest)

text \<open>C29: A complete parity shard is accepted exactly when it is the declared row. For a valid group
  \<open>verify_parity_shard\<close> succeeds if and only if there are \<open>data_shards\<close> information shards, they and
  the parity shard match the group's commitments, the index is a parity index, and encoding the
  information yields the parity shard at that index.\<close>

theorem parity_shard_verified_iff:
  fixes enc :: "'m group_encoder" and R :: "'x reed_solomon"
  assumes valid: "group_validate enc B g = (Ok () :: (('m, 'x) model_error, _) result)"
    and R: "rs_contract R (cp_data_shards (cg_profile g)) (cp_parity_shards (cg_profile g)) C"
  shows "verify_parity_shard enc B R g information i parity = Ok () \<longleftrightarrow>
    length information = cp_data_shards (cg_profile g) \<and> i \<in> {cp_data_shards (cg_profile g)..<length (cg_roles g)}
    \<and> (\<forall>j < length information. merkle_commit B (information ! j) = Ok (role_commitment (cg_roles g ! j)))
    \<and> merkle_commit B parity = Ok (role_commitment (cg_roles g ! i))
    \<and> (\<exists>shards. encode R (cg_profile g) information = Ok shards \<and> shards ! i = parity)"
proof (cases "length information = cp_data_shards (cg_profile g)")
  case True
  let ?k = "cp_data_shards (cg_profile g)"
  note g = group_validate_OkD [OF valid]
  have roles: "slice (cg_roles g) 0 (length information) = (Ok (take ?k (cg_roles g)) :: (('m, 'x) model_error, _) result)"
    using True g(2) by (simp add: slice_def sub_def)
  have info: "check_information_roles B (zip (take ?k (cg_roles g)) information) = (Ok () :: (('m, 'x) model_error, _) result) \<longleftrightarrow>
      (\<forall>j < length information. merkle_commit B (information ! j) = Ok (role_commitment (cg_roles g ! j)))"
  proof -
    have "\<exists>r. cg_roles g ! j = Information r" if "j < ?k" for j
      using valid_role_kind(1) [OF valid, of j] that g(2) by simp
    then show ?thesis
      using check_information_roles_Ok_iff [of "take ?k (cg_roles g)" information B] True g(2) by auto
  qed
  have idx: "index shards i = (Ok (shards ! i) :: (('m, 'x) model_error, _) result)"
    if "encode R (cg_profile g) information = Ok shards" "i < length (cg_roles g)" for shards
    using encode_OkE [OF that(1) R] that(2) g(2) by (metis index_eq shaped_def)
  show ?thesis
  proof (cases "i < length (cg_roles g)")
    case i: True
    show ?thesis
    proof (cases "cg_roles g ! i")
      case (Information r)
      then have "\<not> ?k \<le> i" using valid_role_kind [OF valid i] by auto
      then show ?thesis using i Information valid roles True by (auto simp: verify_parity_shard_def result_simps)
    next
      case (Parity r)
      then have k: "?k \<le> i" using valid_role_kind [OF valid i] by auto
      have c: "role_commitment (cg_roles g ! i) = pa_commitment r" using Parity by (simp add: role_commitment_def)
      show ?thesis unfolding verify_parity_shard_def
        using valid roles True i k idx Parity c by (auto simp: info and_then_Ok_iff map_err_Ok_iff split: if_splits)
    qed
  qed (use valid roles True in \<open>auto simp: verify_parity_shard_def result_simps\<close>)
qed (use valid in \<open>auto simp: verify_parity_shard_def result_simps\<close>)

section \<open>Instances\<close>

text \<open>A group of one information and one parity shard of sixteen bytes.\<close>

definition sample_group_encoder :: "unit group_encoder" where
  "sample_group_encoder = (\<lambda>_. Inr [3])"

definition sample_group_commitment :: merkle_commitment where
  "sample_group_commitment = \<lparr>mc_format_version = 1, mc_leaf_size = 16, mc_byte_len = 16, mc_root = 9\<rparr>"

definition sample_roles :: "shard_role_v2 list" where
  "sample_roles =
     [Information \<lparr>ir_owner = 1, ir_failure_domain = ''a'', ir_sector = \<lparr>sec_id = 6, sec_commitment = sample_group_commitment,
        sec_logical_len = 16, sec_virtual_zero = False\<rparr>\<rparr>,
      Parity \<lparr>pa_holder = 2, pa_failure_domain = ''b'', pa_row = 0, pa_commitment = sample_group_commitment\<rparr>]"

definition sample_group :: coding_group_v2 where
  "sample_group = \<lparr>cg_id = 4, cg_format_version = 2, cg_guild_id = 5, cg_profile = sample_profile, cg_roles = sample_roles\<rparr>"

lemma sample_roles_length: "length sample_roles = 2"
  by (simp add: sample_roles_def)

lemma sixteen_data_len: "validate_data_len 16 = Ok ()"
  using is_power_of_two_power [of 4] by (simp add: validate_data_len_def)

lemma sample_group_valid: "group_validate sample_group_encoder sample_blake3 sample_group = Ok ()"
proof -
  have c: "validate_commitment sample_group_commitment = Ok ()"
    by (simp add: validate_commitment_def sample_group_commitment_def sixteen_data_len)
  have "group_roles_check sample_blake3 sample_profile 0 {} sample_roles = Ok ()"
    by (simp add: sample_roles_def group_role_check_def Let_def c) (simp add: sample_group_commitment_def)
  then show ?thesis
    by (simp add: group_validate_def sample_group_def sample_profile_valid total_shards_eq [OF sample_profile_valid]
        group_calculate_id_def coding_group_v2_id_def hash_canonical_def canonical_bytes_def sample_group_encoder_def
        sample_roles_length)
qed

lemma sample_group_commit: "merkle_commit sample_blake3 (replicate 16 7) = Ok sample_group_commitment"
proof -
  have "length (replicate 16 (7 :: byte)) = 2 ^ 0 * 16" by simp
  from merkle_commit_eq [OF this, of sample_blake3] show ?thesis
    by (simp add: commitment_of_def sample_group_commitment_def bind_root_def hash_leaf_def chunks_short)
qed

lemma sample_group_simps [simp]: "cg_profile sample_group = sample_profile" "cg_roles sample_group = sample_roles"
  by (simp_all add: sample_group_def)

lemma sample_role_commitments [simp]: "role_commitment (sample_roles ! 0) = sample_group_commitment"
    "role_commitment (sample_roles ! Suc 0) = sample_group_commitment"
  by (simp_all add: sample_roles_def role_commitment_def)

lemma sample_committed: "committed sample_blake3 sample_group [replicate 16 7, replicate 16 7]"
  by (simp add: committed_def sample_roles_length sample_group_commit less_Suc_eq)

lemma sample_group_encoded: "encode sample_codec sample_profile [replicate 16 7] = Ok [replicate 16 7, replicate 16 7]"
  by (simp add: sample_profile_valid encode_def Let_def sample_codec_def numeral_2_eq_2)

definition sample_group_proof :: merkle_range_proof where
  "sample_group_proof = \<lparr>rp_format_version = 1, rp_start_leaf = 0, rp_leaves = [replicate 16 7], rp_siblings = []\<rparr>"

lemma sample_group_open: "merkle_open_range sample_blake3 (replicate 16 7) 0 1 = Ok sample_group_proof"
proof -
  have l: "length (replicate 16 (7 :: byte)) = 2 ^ 0 * 16" by simp
  have r: "\<not> bad_range 0 1 (2 ^ 0)" using is_power_of_two_power [of 0] by (simp add: bad_range_def)
  from open_range_eq [OF l _ r, of sample_blake3] show ?thesis
    by (auto simp: sixteen_data_len sample_group_proof_def sub_def chunks_short)
qed

lemma sample_symbols_verify: "verify_sampled_codeword sample_codec sample_profile [replicate 16 7, replicate 16 7] = Ok ()"
  by (simp add: verify_sampled_codeword_def total_shards_eq [OF sample_profile_valid] verify_with_def sample_codec_def numeral_2_eq_2)

theorem group_survives_domain_loss_witness:
  "reconstruct sample_codec sample_profile [None, Some (replicate 16 7)] = (map Some [replicate 16 7, replicate 16 7], Ok ())"
  using group_survives_domain_loss [OF sample_group_valid, of sample_codec sample_code "[replicate 16 7]" _ "{''a''}"]
    sample_contract sample_group_encoded
  by (simp add: sample_roles_def role_domain_def)

theorem sampled_openings_exact_witness:
  "verify_sampled_openings sample_group_encoder sample_blake3 sample_codec sample_group 0 [sample_group_proof, sample_group_proof] = Ok ()"
  using sampled_openings_exact [OF sample_group_valid sample_committed, of 0 "[sample_group_proof, sample_group_proof]" sample_codec]
    sample_group_open sample_symbols_verify by (simp add: sub_def)

lemma sample_group_queries:
  "commit_queries sample_blake3 (replicate 16 7) = [leaf_query (replicate 16 7), root_query 16 8]"
  "verify_range_queries sample_blake3 16 sample_group_proof = [leaf_query (replicate 16 7), root_query 16 8]"
  by (simp_all add: commit_queries_def verify_range_queries_def sample_group_proof_def Let_def chunks_short hash_leaf_def)

theorem sampled_openings_sound_witness:
  "verify_sampled_codeword sample_codec sample_profile [replicate 16 7, replicate 16 7] = Ok ()"
proof -
  have acc: "verify_sampled_openings sample_group_encoder sample_blake3 sample_codec sample_group 0 [sample_group_proof, sample_group_proof] = Ok ()"
    using sampled_openings_honest [OF sample_group_valid sample_committed, of 0 "[sample_group_proof, sample_group_proof]" sample_codec]
      sample_group_open sample_symbols_verify by (simp add: sub_def)
  have "collision_free sample_blake3 {leaf_query (replicate 16 7), root_query 16 8}"
    by (simp add: collision_free_def leaf_query_def root_query_def)
  then have "collision_free sample_blake3 (set (commit_queries sample_blake3 ([replicate 16 7, replicate 16 7] ! i)) \<union>
      set (verify_range_queries sample_blake3 (length ([replicate 16 7, replicate 16 (7 :: byte)] ! i)) ([sample_group_proof, sample_group_proof] ! i)))"
    if "i < length [replicate 16 (7 :: byte), replicate 16 7]" for i
    using that by (auto simp: less_Suc_eq sample_group_queries)
  from sampled_openings_sound [OF sample_group_valid sample_committed acc this] show ?thesis by (simp add: sub_def)
qed

theorem parity_shard_verified_iff_witness:
  "verify_parity_shard sample_group_encoder sample_blake3 sample_codec sample_group [replicate 16 7] 1 (replicate 16 7) = Ok ()"
  using parity_shard_verified_iff [OF sample_group_valid, of sample_codec sample_code "[replicate 16 7]" 1 "replicate 16 7"]
    sample_contract sample_group_encoded sample_group_commit
  by (simp add: sample_roles_length)

end
