(* ===== verification/Canonical.thy ===== *)
theory Canonical
  imports Coding_Group
begin

text \<open>
  Bounded canonical encoding, \<open>src/crates/mb-core/src/canonical.rs\<close>. Postcard drives a \<open>Flavor\<close> with the
  pieces of an encoding; a serializer is modelled by the pieces it writes and the error it ends with,
  if any. \<open>full\<close> is \<open>postcard::Error::SerializeBufferFull\<close>. A running BLAKE3 hash is the list of bytes
  it has absorbed.
\<close>

section \<open>Flavors\<close>

type_synonym ('m, 'a) serializer = "'a \<Rightarrow> byte list list \<times> 'm option"

fun try_extends :: "('f \<Rightarrow> byte list \<Rightarrow> 'm + 'f) \<Rightarrow> 'f \<Rightarrow> byte list list \<Rightarrow> 'm + 'f" where
  "try_extends try_extend flavor [] = Inr flavor"
| "try_extends try_extend flavor (piece # pieces) =
     (case try_extend flavor piece of Inl e \<Rightarrow> Inl e | Inr flavor' \<Rightarrow> try_extends try_extend flavor' pieces)"

definition serialize_with_flavor ::
    "('f \<Rightarrow> byte list \<Rightarrow> 'm + 'f) \<Rightarrow> ('f \<Rightarrow> 'm + 'r) \<Rightarrow> 'f \<Rightarrow> byte list list \<times> 'm option \<Rightarrow> 'm + 'r" where
  "serialize_with_flavor try_extend finalize flavor = (\<lambda>(pieces, failure).
     case try_extends try_extend flavor pieces of
       Inl e \<Rightarrow> Inl e
     | Inr flavor' \<Rightarrow> (case failure of Some e \<Rightarrow> Inl e | None \<Rightarrow> finalize flavor'))"

definition hash_update_extend :: "byte list \<Rightarrow> byte list \<Rightarrow> 'm + byte list" where
  "hash_update_extend absorbed piece = Inr (absorbed @ piece)"

record bounded_size =
  bz_size :: nat
  bz_limit :: nat

definition bounded_size_extend :: "'m \<Rightarrow> bounded_size \<Rightarrow> byte list \<Rightarrow> 'm + bounded_size" where
  "bounded_size_extend full self piece =
     (case checked_add 64 (bz_size self) (length piece) of
        None \<Rightarrow> Inl full
      | Some n \<Rightarrow> if n \<le> bz_limit self then Inr (self\<lparr>bz_size := n\<rparr>) else Inl full)"

record bounded_hash =
  bh_hash :: "byte list"
  bh_remaining :: nat

definition bounded_hash_extend :: "'m \<Rightarrow> bounded_hash \<Rightarrow> byte list \<Rightarrow> 'm + bounded_hash" where
  "bounded_hash_extend full self piece =
     (case checked_sub (bh_remaining self) (length piece) of
        None \<Rightarrow> Inl full
      | Some remaining \<Rightarrow> Inr (self\<lparr>bh_remaining := remaining, bh_hash := bh_hash self @ piece\<rparr>))"

section \<open>Operations\<close>

definition update_canonical_hash ::
    "('m, 'a) serializer \<Rightarrow> byte list \<Rightarrow> 'a \<Rightarrow> (('m, 'x) model_error, byte list) result" where
  "update_canonical_hash ser hasher v =
     (case serialize_with_flavor hash_update_extend Inr hasher (ser v) of Inl e \<Rightarrow> Err (Encode e) | Inr absorbed \<Rightarrow> Ok absorbed)"

definition bounded_error :: "'m \<Rightarrow> nat \<Rightarrow> 'm \<Rightarrow> ('m, 'x) model_error" where
  "bounded_error full limit e = (if e = full then EncodingTooLarge limit else Encode e)"

definition canonical_size_bounded :: "'m \<Rightarrow> ('m, 'a) serializer \<Rightarrow> 'a \<Rightarrow> nat \<Rightarrow> (('m, 'x) model_error, nat) result" where
  "canonical_size_bounded full ser v limit =
     (case serialize_with_flavor (bounded_size_extend full) (\<lambda>self. Inr (bz_size self)) \<lparr>bz_size = 0, bz_limit = limit\<rparr> (ser v) of
        Inl e \<Rightarrow> Err (bounded_error full limit e)
      | Inr n \<Rightarrow> Ok n)"

text \<open>\<open>to_slice v n\<close> is \<open>postcard::to_slice\<close>: the bytes written into a buffer of length \<open>n\<close>.\<close>

definition canonical_bytes_bounded ::
    "'m \<Rightarrow> ('m, 'a) serializer \<Rightarrow> ('a \<Rightarrow> nat \<Rightarrow> 'm + byte list) \<Rightarrow> 'a \<Rightarrow> nat \<Rightarrow> (('m, 'x) model_error, byte list) result" where
  "canonical_bytes_bounded full ser to_slice v limit =
     and_then (canonical_size_bounded full ser v limit) (\<lambda>n.
     case to_slice v n of Inl e \<Rightarrow> Err (Encode e) | Inr written \<Rightarrow> Ok written)"

definition canonical_hash_bounded :: "blake3 \<Rightarrow> 'm \<Rightarrow> ('m, 'a) serializer \<Rightarrow> 'a \<Rightarrow> nat \<Rightarrow> (('m, 'x) model_error, digest) result" where
  "canonical_hash_bounded B full ser v limit =
     (case serialize_with_flavor (bounded_hash_extend full) (\<lambda>self. Inr (plain_hash B (bh_hash self))) \<lparr>bh_hash = [], bh_remaining = limit\<rparr> (ser v) of
        Inl e \<Rightarrow> Err (bounded_error full limit e)
      | Inr h \<Rightarrow> Ok h)"

section \<open>Exactness\<close>

text \<open>The encoding as the rest of the model sees it.\<close>

definition encoding :: "('m, 'a) serializer \<Rightarrow> ('m, 'a) encoder" where
  "encoding ser v = (case snd (ser v) of Some e \<Rightarrow> Inl e | None \<Rightarrow> Inr (concat (fst (ser v))))"

lemma bounded_size_extends:
  assumes "limit < 2 ^ 64"
  shows "try_extends (bounded_size_extend full) \<lparr>bz_size = n, bz_limit = limit\<rparr> pieces =
    (if n + length (concat pieces) \<le> limit \<or> pieces = [] then Inr \<lparr>bz_size = n + length (concat pieces), bz_limit = limit\<rparr> else Inl full)"
  using assms by (induction pieces arbitrary: n) (auto simp: bounded_size_extend_def checked_add_def)

lemma bounded_hash_extends:
  "try_extends (bounded_hash_extend full) \<lparr>bh_hash = h, bh_remaining = r\<rparr> pieces =
    (if length (concat pieces) \<le> r then Inr \<lparr>bh_hash = h @ concat pieces, bh_remaining = r - length (concat pieces)\<rparr> else Inl full)"
  by (induction pieces arbitrary: h r) (auto simp: bounded_hash_extend_def checked_sub_def)

lemma hash_update_extends: "try_extends hash_update_extend h pieces = Inr (h @ concat pieces)"
  by (induction pieces arbitrary: h) (auto simp: hash_update_extend_def)

text \<open>C33: The bounded encoders are exact. A value whose writes fit the limit has exactly its canonical bytes,
  their number and their hash, or the serializer's own error if it ends with one. A value whose writes
  exceed the limit is reported as too large by all three, whatever the serializer would do afterwards.
  Needed of Postcard: it writes an encoding that fits into the buffer unchanged. The streaming hash absorbs exactly the canonical bytes.\<close>

theorem canonical_bounded_exact:
  assumes "limit < 2 ^ 64" "snd (ser v) \<noteq> Some full"
    and to_slice: "\<And>n bs. encoding ser v = Inr bs \<Longrightarrow> length bs \<le> n \<Longrightarrow> to_slice v n = Inr bs"
  shows "if limit < length (concat (fst (ser v)))
    then canonical_size_bounded full ser v limit = (Err (EncodingTooLarge limit) :: (('m, 'x) model_error, _) result)
      \<and> canonical_bytes_bounded full ser to_slice v limit = (Err (EncodingTooLarge limit) :: (('m, 'x) model_error, _) result)
      \<and> canonical_hash_bounded B full ser v limit = (Err (EncodingTooLarge limit) :: (('m, 'x) model_error, _) result)
    else canonical_size_bounded full ser v limit = (and_then (canonical_bytes (encoding ser) v) (\<lambda>bs. Ok (length bs)) :: (('m, 'x) model_error, _) result)
      \<and> canonical_bytes_bounded full ser to_slice v limit = (canonical_bytes (encoding ser) v :: (('m, 'x) model_error, _) result)
      \<and> canonical_hash_bounded B full ser v limit = (and_then (canonical_bytes (encoding ser) v) (\<lambda>bs. Ok (plain_hash B bs)) :: (('m, 'x) model_error, _) result)
      \<and> update_canonical_hash ser h v = (and_then (canonical_bytes (encoding ser) v) (\<lambda>bs. Ok (h @ bs)) :: (('m, 'x) model_error, _) result)"
proof (cases "ser v")
  case (Pair pieces failure)
  then show ?thesis using assms(1,2) to_slice [of "concat pieces"]
    by (cases failure)
      (auto simp: canonical_size_bounded_def canonical_bytes_bounded_def canonical_hash_bounded_def update_canonical_hash_def
        serialize_with_flavor_def bounded_size_extends bounded_hash_extends hash_update_extends bounded_error_def
        canonical_bytes_def encoding_def)
qed

theorem canonical_bounded_exact_witness:
  "canonical_bytes_bounded (9 :: nat) (\<lambda>_ :: unit. ([[1, 2], [3]], None)) (\<lambda>_ _. Inr [1, 2, 3]) () 3 = (Ok [1, 2, 3] :: ((nat, unit) model_error, _) result)"
  using canonical_bounded_exact [where 'x = unit, of 3 "\<lambda>_ :: unit. ([[1, 2], [3]], None)" "()" "9 :: nat" "\<lambda>_ _. Inr [1, 2, 3]" sample_blake3 "[]"]
  by (simp add: canonical_bytes_def encoding_def)

end
