(* ===== verification/Packing.thy ===== *)
theory Packing
  imports Packing_Slots Merkle_Accumulator Canonical
begin

text \<open>
  Packed sectors and packed catalogs, the first half of \<open>src/crates/mb-core/src/packing.rs\<close>: the data, their
  identifiers and the validation of a catalog, with the proofs that bind every packed slot to a Merkle
  commitment of its source object. The fields of Rust type \<open>u16\<close>, \<open>u32\<close> and \<open>u64\<close> are natural numbers, and the
  casts from \<open>usize\<close> to \<open>u32\<close> are written out. Postcard's encodings are serializers, arguments of the definitions.
\<close>

section \<open>Data\<close>

abbreviation (input) MAX_PACKED_CHUNKS :: nat where "MAX_PACKED_CHUNKS \<equiv> 1000000"

definition LEGACY_PACKING_BINDING_DOMAIN :: string where
  "LEGACY_PACKING_BINDING_DOMAIN = ''mutualbackup/legacy-packing-binding/v1''"

definition LEGACY_PACKING_ATTESTATION_DOMAIN :: string where
  "LEGACY_PACKING_ATTESTATION_DOMAIN = ''mutualbackup/legacy-packing-attestation/v1''"

datatype ('m, 'x) packing_error =
    InvalidPackingProfile | InvalidInput | InvalidCatalog | ProfileChanged | TooManyChunks | MissingObject
  | PackingModel "('m, 'x) model_error"

record packing_profile =
  pf_format_version :: nat
  pf_sector_size :: nat
  pf_slot_size :: nat

definition packing_profile_validate :: "packing_profile \<Rightarrow> (('m, 'x) packing_error, unit) result" where
  "packing_profile_validate self =
     (if pf_format_version self \<noteq> 1
         \<or> pf_sector_size self < MERKLE_LEAF_SIZE
         \<or> MAX_PROFILE_SHARD_SIZE < pf_sector_size self
         \<or> \<not> is_power_of_two (pf_sector_size self)
         \<or> pf_slot_size self < MERKLE_LEAF_SIZE
         \<or> pf_sector_size self < pf_slot_size self
         \<or> \<not> is_power_of_two (pf_slot_size self)
         \<or> pf_sector_size self mod pf_slot_size self \<noteq> 0
      then Err InvalidPackingProfile else Ok ())"

definition slots_per_sector :: "packing_profile \<Rightarrow> (('m, 'x) packing_error, nat) result" where
  "slots_per_sector self = and_then (packing_profile_validate self) (\<lambda>_. Ok (pf_sector_size self div pf_slot_size self))"

record packing_input =
  in_owner :: node_id
  in_protected_root :: digest
  in_object_id :: digest
  in_source_commitment :: "merkle_commitment option"
  in_bytes :: "byte list"

record authenticated_packing_source =
  as_owner :: node_id
  as_protected_root :: digest
  as_object_id :: digest
  as_source_commitment :: merkle_commitment

record packed_source_chunk =
  pc_id :: source_chunk_id
  pc_source_offset :: nat
  pc_logical_len :: nat
  pc_content_hash :: digest

datatype packed_slot = DataSlot packed_source_chunk | VirtualZero "packed_source_chunk option"

fun slot_source :: "packed_slot \<Rightarrow> packed_source_chunk option" where
  "slot_source (DataSlot source) = Some source"
| "slot_source (VirtualZero (Some source)) = Some source"
| "slot_source (VirtualZero None) = None"

definition packing_protected_root :: "byte list \<Rightarrow> digest" where
  "packing_protected_root root_id = digest_of (root_id @ zeros 16)"

record packed_sector_descriptor =
  sd_id :: digest
  sd_sector_index :: nat
  sd_flat_root :: digest
  sd_commitment :: merkle_commitment
  sd_slots :: "packed_slot list"

record packed_source_authentication =
  au_id :: source_chunk_id
  au_source_commitment :: merkle_commitment
  au_proof :: merkle_subtree_proof

record legacy_packing_binding =
  lb_format_version :: nat
  lb_owner :: node_id
  lb_protected_root :: digest
  lb_object_id :: digest
  lb_flat_root :: digest
  lb_source_commitment :: merkle_commitment

record legacy_packing_attestation =
  la_format_version :: nat
  la_guild_id :: digest
  la_membership_epoch :: nat
  la_owner :: node_id
  la_protected_root :: digest
  la_object_id :: digest
  la_flat_root :: digest
  la_source_commitment :: merkle_commitment

record packed_catalog =
  ct_id :: digest
  ct_format_version :: nat
  ct_revision :: nat
  ct_parent :: "digest option"
  ct_profile :: packing_profile
  ct_sectors :: "packed_sector_descriptor list"
  ct_source_authentication :: "packed_source_authentication list option"
  ct_legacy_bindings :: "legacy_packing_binding signed_record list option"
  ct_legacy_attestations :: "legacy_packing_attestation signed_record list option"

text \<open>The tuples that are hashed: the heads of sectors and the four forms of a catalog.\<close>

type_synonym sector_head = "packing_profile \<times> nat \<times> digest \<times> merkle_commitment"
type_synonym catalog_head = "nat \<times> nat \<times> digest option \<times> packing_profile \<times> packed_sector_descriptor list"

record 'm packing_codec =
  enc_sector_head :: "('m, sector_head) serializer"
  enc_slot_count :: "('m, nat) serializer"
  enc_slot :: "('m, packed_slot) serializer"
  enc_catalog :: "('m, catalog_head) serializer"
  enc_authenticated :: "('m, catalog_head \<times> packed_source_authentication list) serializer"
  enc_bound :: "('m, catalog_head \<times> packed_source_authentication list \<times> legacy_packing_binding signed_record list) serializer"
  enc_attested :: "('m, catalog_head \<times> packed_source_authentication list \<times> legacy_packing_binding signed_record list
                      \<times> legacy_packing_attestation signed_record list) serializer"
  enc_binding :: "('m, legacy_packing_binding) encoder"
  enc_attestation :: "('m, legacy_packing_attestation) encoder"

section \<open>Identifiers\<close>

text \<open>A running hash is the list of bytes it has absorbed.\<close>

definition id_hasher_new ::
    "'m packing_codec \<Rightarrow> packing_profile \<Rightarrow> nat \<Rightarrow> digest \<Rightarrow> merkle_commitment \<Rightarrow> nat \<Rightarrow> (('m, 'x) model_error, byte list) result" where
  "id_hasher_new E profile sector_index flat_root commitment slots =
     and_then (update_canonical_hash (enc_sector_head E) [] (profile, sector_index, flat_root, commitment)) (\<lambda>hash.
     update_canonical_hash (enc_slot_count E) hash slots)"

definition id_hasher_push :: "'m packing_codec \<Rightarrow> byte list \<Rightarrow> packed_slot \<Rightarrow> (('m, 'x) model_error, byte list) result" where
  "id_hasher_push E self slot = update_canonical_hash (enc_slot E) self slot"

definition id_hasher_finish :: "blake3 \<Rightarrow> byte list \<Rightarrow> digest" where
  "id_hasher_finish B self = derive_key B ''mutualbackup packed sector v1'' self"

fun id_hasher_push_all :: "'m packing_codec \<Rightarrow> packed_slot list \<Rightarrow> byte list \<Rightarrow> (('m, 'x) model_error, byte list) result" where
  "id_hasher_push_all E [] hasher = Ok hasher"
| "id_hasher_push_all E (slot # slots) hasher = and_then (id_hasher_push E hasher slot) (id_hasher_push_all E slots)"

definition descriptor_calculate_id ::
    "'m packing_codec \<Rightarrow> blake3 \<Rightarrow> packed_sector_descriptor \<Rightarrow> packing_profile \<Rightarrow> (('m, 'x) packing_error, digest) result" where
  "descriptor_calculate_id E B self profile =
     map_err PackingModel
       (and_then (id_hasher_new E profile (sd_sector_index self) (sd_flat_root self) (sd_commitment self) (length (sd_slots self))) (\<lambda>hasher.
        and_then (id_hasher_push_all E (sd_slots self) hasher) (\<lambda>hasher'.
        Ok (id_hasher_finish B hasher'))))"

definition catalog_id ::
    "'m packing_codec \<Rightarrow> blake3 \<Rightarrow> nat \<Rightarrow> nat \<Rightarrow> digest option \<Rightarrow> packing_profile \<Rightarrow> packed_sector_descriptor list
      \<Rightarrow> packed_source_authentication list option \<Rightarrow> legacy_packing_binding signed_record list option
      \<Rightarrow> legacy_packing_attestation signed_record list option \<Rightarrow> (('m, 'x) packing_error, digest) result" where
  "catalog_id E B format_version revision parent profile sectors source_authentication legacy_bindings legacy_attestations =
     (let head = (format_version, revision, parent, profile, sectors);
          update = (\<lambda>domain absorbed. and_then (map_err PackingModel absorbed) (\<lambda>bytes. Ok (derive_key B domain bytes))) in
      case (source_authentication, legacy_bindings, legacy_attestations) of
        (None, None, None) \<Rightarrow>
          if format_version = 1 then update ''mutualbackup packed catalog v1'' (update_canonical_hash (enc_catalog E) [] head)
          else Err InvalidCatalog
      | (Some authentication, None, None) \<Rightarrow>
          if format_version = 2 then update ''mutualbackup packed catalog v2'' (update_canonical_hash (enc_authenticated E) [] (head, authentication))
          else if format_version = 3 then update ''mutualbackup packed catalog v3'' (update_canonical_hash (enc_authenticated E) [] (head, authentication))
          else Err InvalidCatalog
      | (Some authentication, Some bindings, None) \<Rightarrow>
          if format_version = 4 then update ''mutualbackup packed catalog v4'' (update_canonical_hash (enc_bound E) [] (head, authentication, bindings))
          else Err InvalidCatalog
      | (Some authentication, Some bindings, Some attestations) \<Rightarrow>
          if format_version = 5
          then update ''mutualbackup packed catalog v5'' (update_canonical_hash (enc_attested E) [] (head, authentication, bindings, attestations))
          else Err InvalidCatalog
      | _ \<Rightarrow> Err InvalidCatalog)"

definition catalog_calculate_id :: "'m packing_codec \<Rightarrow> blake3 \<Rightarrow> packed_catalog \<Rightarrow> (('m, 'x) packing_error, digest) result" where
  "catalog_calculate_id E B self =
     catalog_id E B (ct_format_version self) (ct_revision self) (ct_parent self) (ct_profile self) (ct_sectors self)
       (ct_source_authentication self) (ct_legacy_bindings self) (ct_legacy_attestations self)"

section \<open>Validation of catalogs\<close>

type_synonym object_key = "node_id \<times> digest \<times> digest"

definition chunk_object :: "source_chunk_id \<Rightarrow> object_key" where
  "chunk_object i = (ci_owner i, ci_protected_root i, ci_object_id i)"

definition version_fields :: "packed_catalog \<Rightarrow> bool" where
  "version_fields self \<longleftrightarrow>
     (case (ct_source_authentication self, ct_legacy_bindings self, ct_legacy_attestations self) of
        (None, None, None) \<Rightarrow> ct_format_version self = 1
      | (Some _, None, None) \<Rightarrow> ct_format_version self = 2 \<or> ct_format_version self = 3
      | (Some _, Some _, None) \<Rightarrow> ct_format_version self = 4
      | (Some _, Some _, Some _) \<Rightarrow> ct_format_version self = 5
      | _ \<Rightarrow> False)"

text \<open>The loop over the slots of one sector. It collects the source identifiers and, per object, its chunk
  indexes; \<open>u32 * u32\<close> does not overflow in \<open>u64\<close>.\<close>

type_synonym source_scan = "source_chunk_id list \<times> (object_key, nat list) btree_map"

fun validate_slots :: "packing_profile \<Rightarrow> packed_slot list \<Rightarrow> source_scan \<Rightarrow> (('m, 'x) packing_error, source_scan) result" where
  "validate_slots profile [] scan = Ok scan"
| "validate_slots profile (slot # slots) (source_ids, object_chunks) =
     (case slot_source slot of
        None \<Rightarrow> validate_slots profile slots (source_ids, object_chunks)
      | Some source \<Rightarrow>
          let i = pc_id source; object = chunk_object i in
          if ci_owner i = 0 \<or> ci_protected_root i = 0 \<or> ci_object_id i = 0
             \<or> pc_logical_len source = 0
             \<or> pf_slot_size profile < pc_logical_len source
             \<or> pc_source_offset source \<noteq> ci_chunk_index i * pf_slot_size profile
             \<or> i \<in> set source_ids
          then Err InvalidCatalog
          else validate_slots profile slots
            (bset_insert i source_ids,
             bmap_insert object ((case map_of object_chunks object of None \<Rightarrow> [] | Some cs \<Rightarrow> cs) @ [ci_chunk_index i]) object_chunks))"

fun validate_sectors ::
    "'m packing_codec \<Rightarrow> blake3 \<Rightarrow> packed_catalog \<Rightarrow> nat \<Rightarrow> nat \<Rightarrow> packed_sector_descriptor list \<Rightarrow> source_scan
      \<Rightarrow> (('m, 'x) packing_error, source_scan) result" where
  "validate_sectors E B self expected_slots sector_index [] scan = Ok scan"
| "validate_sectors E B self expected_slots sector_index (sector # sectors) scan =
     (if sd_sector_index sector \<noteq> sector_index mod 2 ^ 32
         \<or> length (sd_slots sector) \<noteq> expected_slots
         \<or> sd_flat_root sector = 0
         \<or> mc_byte_len (sd_commitment sector) \<noteq> pf_sector_size (ct_profile self)
         \<or> 3 \<le> ct_format_version self \<and> sd_flat_root sector \<noteq> mc_root (sd_commitment sector)
      then Err InvalidCatalog
      else and_then (descriptor_calculate_id E B sector (ct_profile self)) (\<lambda>sector_id.
        if sector_id \<noteq> sd_id sector then Err InvalidCatalog
        else and_then (validate_slots (ct_profile self) (sd_slots sector) scan)
          (validate_sectors E B self expected_slots (Suc sector_index) sectors)))"

definition gap :: "nat list \<Rightarrow> bool" where
  "gap cs \<longleftrightarrow> (\<exists>(i, chunk) \<in> set (enumerate 0 cs). chunk \<noteq> i mod 2 ^ 32)"

definition authenticates :: "packed_source_authentication list \<Rightarrow> object_key \<Rightarrow> merkle_commitment \<Rightarrow> bool" where
  "authenticates authentication object commitment \<longleftrightarrow>
     (\<exists>entry \<in> set authentication. chunk_object (au_id entry) = object \<and> au_source_commitment entry = commitment)"

fun check_bindings ::
    "crypto \<Rightarrow> 'm packing_codec \<Rightarrow> packing_profile \<Rightarrow> packed_source_authentication list \<Rightarrow> legacy_packing_binding signed_record list
      \<Rightarrow> object_key list \<Rightarrow> (('m, 'x) packing_error, unit) result" where
  "check_bindings K E profile authentication [] seen = Ok ()"
| "check_bindings K E profile authentication (binding # bindings) seen =
     and_then (map_err (\<lambda>_ :: ('m, 'x) model_error. InvalidCatalog) (signed_verify K (enc_binding E) LEGACY_PACKING_BINDING_DOMAIN binding)) (\<lambda>_.
     let v = sig_value binding; object = (lb_owner v, lb_protected_root v, lb_object_id v) in
     if lb_format_version v \<noteq> 1 \<or> sig_signer binding \<noteq> lb_owner v \<or> lb_owner v = 0 \<or> lb_protected_root v = 0
        \<or> lb_object_id v = 0 \<or> lb_flat_root v = 0
        \<or> mc_byte_len (lb_source_commitment v) \<noteq> pf_sector_size profile
        \<or> is_err (validate_commitment (lb_source_commitment v))
        \<or> \<not> authenticates authentication object (lb_source_commitment v)
        \<or> object \<in> set seen
     then Err InvalidCatalog
     else check_bindings K E profile authentication bindings (bset_insert object seen))"

definition validate_legacy_bindings ::
    "crypto \<Rightarrow> 'm packing_codec \<Rightarrow> packed_catalog \<Rightarrow> (('m, 'x) packing_error, unit) result" where
  "validate_legacy_bindings K E self =
     and_then (ok_or (ct_legacy_bindings self) InvalidCatalog) (\<lambda>bindings.
     if bindings = [] \<and> ct_format_version self = 4 then Err InvalidCatalog
     else and_then (ok_or (ct_source_authentication self) InvalidCatalog) (\<lambda>authentication.
     check_bindings K E (ct_profile self) authentication bindings []))"

fun check_attestations ::
    "crypto \<Rightarrow> 'm packing_codec \<Rightarrow> packing_profile \<Rightarrow> packed_source_authentication list \<Rightarrow> legacy_packing_attestation signed_record list
      \<Rightarrow> (object_key \<times> node_id) list \<Rightarrow> (('m, 'x) packing_error, unit) result" where
  "check_attestations K E profile authentication [] seen = Ok ()"
| "check_attestations K E profile authentication (attestation # attestations) seen =
     and_then (map_err (\<lambda>_ :: ('m, 'x) model_error. InvalidCatalog) (signed_verify K (enc_attestation E) LEGACY_PACKING_ATTESTATION_DOMAIN attestation)) (\<lambda>_.
     let v = sig_value attestation; object = (la_owner v, la_protected_root v, la_object_id v) in
     if la_format_version v \<noteq> 1 \<or> la_guild_id v = 0 \<or> la_membership_epoch v = 0 \<or> la_owner v = 0 \<or> la_protected_root v = 0
        \<or> la_object_id v = 0 \<or> la_flat_root v = 0
        \<or> mc_byte_len (la_source_commitment v) \<noteq> pf_sector_size profile
        \<or> is_err (validate_commitment (la_source_commitment v))
        \<or> \<not> authenticates authentication object (la_source_commitment v)
        \<or> (object, sig_signer attestation) \<in> set seen
     then Err InvalidCatalog
     else check_attestations K E profile authentication attestations (bset_insert (object, sig_signer attestation) seen))"

definition validate_legacy_attestations ::
    "crypto \<Rightarrow> 'm packing_codec \<Rightarrow> packed_catalog \<Rightarrow> (('m, 'x) packing_error, unit) result" where
  "validate_legacy_attestations K E self =
     and_then (ok_or (ct_legacy_attestations self) InvalidCatalog) (\<lambda>attestations.
     if attestations = [] then Err InvalidCatalog
     else and_then (ok_or (ct_source_authentication self) InvalidCatalog) (\<lambda>authentication.
     check_attestations K E (ct_profile self) authentication attestations []))"

text \<open>The proofs by source identifier.\<close>

type_synonym proof_map = "(source_chunk_id, packed_source_authentication) btree_map"

fun collect_proofs ::
    "blake3 \<Rightarrow> packing_profile \<Rightarrow> packed_source_authentication list \<Rightarrow> proof_map \<Rightarrow> (('m, 'x) packing_error, proof_map) result" where
  "collect_proofs B profile [] proofs = Ok proofs"
| "collect_proofs B profile (entry # entries) proofs =
     (let expected_leaf_count = pf_slot_size profile div MERKLE_LEAF_SIZE in
      if mc_byte_len (au_source_commitment entry) \<noteq> pf_sector_size profile
         \<or> Some (sp_start_leaf (au_proof entry)) \<noteq> checked_mul 32 (ci_chunk_index (au_id entry)) expected_leaf_count
         \<or> sp_leaf_count (au_proof entry) \<noteq> expected_leaf_count
      then Err InvalidCatalog
      else and_then (map_err (\<lambda>_. InvalidCatalog) (merkle_verify_subtree B (au_source_commitment entry) (au_proof entry))) (\<lambda>_.
        if map_of proofs (au_id entry) \<noteq> None then Err InvalidCatalog
        else collect_proofs B profile entries (bmap_insert (au_id entry) entry proofs)))"

definition slot_root :: "packing_profile \<Rightarrow> proof_map \<Rightarrow> digest \<Rightarrow> packed_slot \<Rightarrow> (('m, 'x) packing_error, digest) result" where
  "slot_root profile proofs zero_root slot =
     (case slot of
        DataSlot source \<Rightarrow>
          if pc_logical_len source \<noteq> pf_slot_size profile then Err InvalidCatalog
          else and_then (expect (map_of proofs (pc_id source))) (\<lambda>entry. Ok (sp_subtree_root (au_proof entry)))
      | VirtualZero (Some source) \<Rightarrow>
          if pc_logical_len source \<noteq> pf_slot_size profile then Err InvalidCatalog
          else and_then (expect (map_of proofs (pc_id source))) (\<lambda>entry.
            if sp_subtree_root (au_proof entry) \<noteq> zero_root then Err InvalidCatalog else Ok zero_root)
      | VirtualZero None \<Rightarrow> Ok zero_root)"

fun slot_roots :: "packing_profile \<Rightarrow> proof_map \<Rightarrow> digest \<Rightarrow> packed_slot list \<Rightarrow> (('m, 'x) packing_error, digest list) result" where
  "slot_roots profile proofs zero_root [] = Ok []"
| "slot_roots profile proofs zero_root (slot # slots) =
     and_then (slot_root profile proofs zero_root slot) (\<lambda>root.
     and_then (slot_roots profile proofs zero_root slots) (\<lambda>roots. Ok (root # roots)))"

fun check_commitments ::
    "blake3 \<Rightarrow> packing_profile \<Rightarrow> proof_map \<Rightarrow> digest \<Rightarrow> packed_sector_descriptor list \<Rightarrow> (('m, 'x) packing_error, unit) result" where
  "check_commitments B profile proofs zero_root [] = Ok ()"
| "check_commitments B profile proofs zero_root (descriptor # descriptors) =
     and_then (slot_roots profile proofs zero_root (sd_slots descriptor)) (\<lambda>roots.
     and_then (map_err (\<lambda>_. InvalidCatalog) (merkle_commit_subtrees B (pf_sector_size profile) (pf_slot_size profile) roots)) (\<lambda>commitment.
     if commitment \<noteq> sd_commitment descriptor then Err InvalidCatalog
     else check_commitments B profile proofs zero_root descriptors))"

definition validate_source_authentication ::
    "blake3 \<Rightarrow> packed_catalog \<Rightarrow> source_chunk_id list \<Rightarrow> (('m, 'x) packing_error, unit) result" where
  "validate_source_authentication B self source_ids =
     and_then (ok_or (ct_source_authentication self) InvalidCatalog) (\<lambda>authentication.
     and_then (collect_proofs B (ct_profile self) authentication []) (\<lambda>proofs.
     if map fst proofs \<noteq> source_ids then Err InvalidCatalog
     else and_then (map_err (\<lambda>_. InvalidCatalog)
         (merkle_open_subtree B (zeros (pf_slot_size (ct_profile self))) 0 (pf_slot_size (ct_profile self) div MERKLE_LEAF_SIZE))) (\<lambda>zero.
       check_commitments B (ct_profile self) proofs (sp_subtree_root zero) (ct_sectors self))))"

definition sector_unused :: "packed_sector_descriptor \<Rightarrow> bool" where
  "sector_unused sector \<longleftrightarrow> (\<forall>slot \<in> set (sd_slots sector). slot_source slot = None)"

definition catalog_validate ::
    "crypto \<Rightarrow> 'm packing_codec \<Rightarrow> blake3 \<Rightarrow> packed_catalog \<Rightarrow> (('m, 'x) packing_error, unit) result" where
  "catalog_validate K E B self =
     and_then (packing_profile_validate (ct_profile self)) (\<lambda>_.
     if \<not> version_fields self \<or> ct_revision self = 0 \<or> (ct_revision self = 1) \<noteq> (ct_parent self = None) then Err InvalidCatalog
     else and_then (catalog_calculate_id E B self) (\<lambda>calculated.
     if calculated \<noteq> ct_id self then Err InvalidCatalog
     else and_then (slots_per_sector (ct_profile self)) (\<lambda>expected_slots.
     and_then (validate_sectors E B self expected_slots 0 (ct_sectors self) ([], [])) (\<lambda>(source_ids, object_chunks).
     if ct_sectors self \<noteq> [] \<and> sector_unused (last (ct_sectors self)) then Err InvalidCatalog
     else if \<exists>(_, cs) \<in> set object_chunks. gap (sort cs) then Err InvalidCatalog
     else and_then (if 2 \<le> ct_format_version self \<and> ct_format_version self \<le> 5
         then validate_source_authentication B self source_ids else Ok ()) (\<lambda>_.
     and_then (if ct_format_version self = 4 \<or> ct_format_version self = 5 then validate_legacy_bindings K E self else Ok ()) (\<lambda>_.
     if ct_format_version self = 5 then validate_legacy_attestations K E self else Ok ()))))))"

section \<open>Legacy evidence\<close>

definition binding_key :: "legacy_packing_binding signed_record \<Rightarrow> object_key" where
  "binding_key b = (lb_owner (sig_value b), lb_protected_root (sig_value b), lb_object_id (sig_value b))"

definition attestation_key :: "legacy_packing_attestation signed_record \<Rightarrow> node_id \<times> digest \<times> digest \<times> node_id" where
  "attestation_key a = (la_owner (sig_value a), la_protected_root (sig_value a), la_object_id (sig_value a), sig_signer a)"

definition reidentify ::
    "crypto \<Rightarrow> 'm packing_codec \<Rightarrow> blake3 \<Rightarrow> packed_catalog \<Rightarrow> (('m, 'x) packing_error, packed_catalog) result" where
  "reidentify K E B catalog =
     and_then (catalog_calculate_id E B catalog) (\<lambda>i.
     let catalog' = catalog\<lparr>ct_id := i\<rparr> in and_then (catalog_validate K E B catalog') (\<lambda>_. Ok catalog'))"

definition attach_legacy_packing_bindings ::
    "crypto \<Rightarrow> 'm packing_codec \<Rightarrow> blake3 \<Rightarrow> packed_catalog \<Rightarrow> legacy_packing_binding signed_record list
      \<Rightarrow> (('m, 'x) packing_error, packed_catalog) result" where
  "attach_legacy_packing_bindings K E B catalog bindings =
     (if ct_format_version catalog \<noteq> 3 \<or> bindings = [] then Err InvalidCatalog
      else reidentify K E B (catalog\<lparr>ct_format_version := 4, ct_legacy_bindings := Some (sort_key binding_key bindings),
        ct_legacy_attestations := None\<rparr>))"

definition attach_legacy_packing_evidence ::
    "crypto \<Rightarrow> 'm packing_codec \<Rightarrow> blake3 \<Rightarrow> packed_catalog \<Rightarrow> legacy_packing_binding signed_record list
      \<Rightarrow> legacy_packing_attestation signed_record list \<Rightarrow> (('m, 'x) packing_error, packed_catalog) result" where
  "attach_legacy_packing_evidence K E B catalog bindings attestations =
     (if ct_format_version catalog \<noteq> 3 \<or> attestations = [] then Err InvalidCatalog
      else reidentify K E B (catalog\<lparr>ct_format_version := 5, ct_legacy_bindings := Some (sort_key binding_key bindings),
        ct_legacy_attestations := Some (sort_key attestation_key attestations)\<rparr>))"

end
