(* ===== verification/Merkle_Binding.thy ===== *)
theory Merkle_Binding
  imports Merkle_Accumulator
begin

text \<open>
  Facts on Merkle trees for the components that build on them: no operation panics, a commitment binds the bytes, and
  the roots of subtrees bind the bytes below them.
\<close>

section \<open>Merkle trees do not panic\<close>

lemma panic_free_validate_data_len [simp]: "panic_free (validate_data_len n)"
  by (simp add: validate_data_len_def)

lemma panic_free_validate_commitment [simp]: "panic_free (validate_commitment c)"
  by (simp add: validate_commitment_def)

lemma panic_free_merkle_commit [simp]: "panic_free (merkle_commit B bytes)"
proof (cases "validate_data_len (length bytes)")
  case (Inr u)
  then show ?thesis using merkle_commit_eq [of bytes _ B] by (auto simp: validate_data_len_iff)
next
  case (Inl e)
  then show ?thesis using panic_free_validate_data_len [of "length bytes"] by (auto simp: merkle_commit_def panic_free_def)
qed

lemma panic_free_merkle_open_subtree [simp]: "panic_free (merkle_open_subtree B bytes start count)"
proof (cases "validate_data_len (length bytes)")
  case (Inr u)
  then obtain h where h: "length bytes = 2 ^ h * 16" by (auto simp: validate_data_len_iff)
  show ?thesis
  proof (cases "bad_range start count (2 ^ h)")
    case True
    then show ?thesis using Inr h by (simp add: merkle_open_subtree_def)
  next
    case False
    then show ?thesis using open_subtree_eq [OF h _ False, of B] Inr by auto
  qed
next
  case (Inl e)
  then show ?thesis using panic_free_validate_data_len [of "length bytes"] by (auto simp: merkle_open_subtree_def panic_free_def)
qed

lemma panic_free_merkle_verify_subtree [simp]: "panic_free (merkle_verify_subtree B c p)"
proof (cases "validate_commitment c")
  case (Inr u)
  then have "validate_data_len (mc_byte_len c) = Ok ()" by (auto simp: validate_commitment_def split: if_splits)
  then obtain h where h: "mc_byte_len c div 16 = 2 ^ h" by (rule validate_data_len_OkE)
  show ?thesis
  proof (cases "bad_range (sp_start_leaf p) (sp_leaf_count p) (2 ^ h)")
    case True
    then show ?thesis using Inr h by (simp add: merkle_verify_subtree_def)
  next
    case False
    then obtain s where "s \<le> h" "ilog2 (sp_leaf_count p) = s" by (rule good_rangeE)
    then show ?thesis using Inr h by (simp add: merkle_verify_subtree_def Let_def)
  qed
next
  case (Inl e)
  then show ?thesis using panic_free_validate_commitment [of c] by (auto simp: merkle_verify_subtree_def panic_free_def)
qed

lemma panic_free_acc_push_all:
  assumes "acc_inv B len prev self"
  shows "panic_free (acc_push_all B roots self)"
  using assms
proof (induction roots arbitrary: prev self)
  case (Cons r roots)
  show ?case
  proof (cases "length prev < acc_width self \<and> r \<noteq> 0")
    case True
    then obtain self' where p: "acc_push B r self = (self', Ok ())" "acc_inv B len (prev @ [r]) self'"
      using acc_push_inv [OF Cons.prems] by blast
    then show ?thesis using Cons.IH by simp
  next
    case False
    then have "acc_push B r self = (self\<lparr>acc_failed := True\<rparr>, Err InvalidProof)"
      using Cons.prems by (auto simp: acc_push_def acc_inv_def)
    then show ?thesis by simp
  qed
qed simp

text \<open>The roots that a successful composition has absorbed.\<close>

lemma acc_push_all_OkD:
  assumes "acc_inv B len prev self" "acc_push_all B roots self = Ok self'"
  shows "acc_inv B len (prev @ roots) self' \<and> acc_width self' = acc_width self \<and> 0 \<notin> set roots"
  using assms
proof (induction roots arbitrary: prev self)
  case (Cons r roots)
  have ok: "length prev < acc_width self \<and> r \<noteq> 0"
    using Cons.prems by (auto simp: acc_push_def acc_inv_def split: if_splits)
  then obtain self1 where p: "acc_push B r self = (self1, Ok ())" "acc_inv B len (prev @ [r]) self1" "acc_width self1 = acc_width self"
    using acc_push_inv [OF Cons.prems(1)] by blast
  then show ?case using Cons.IH [OF p(2)] Cons.prems(2) ok by auto
qed auto

lemma commit_subtrees_OkD:
  assumes "merkle_commit_subtrees B len sub_len roots = Ok c"
  shows "validate_data_len len = Ok ()" "validate_data_len sub_len = Ok ()" "sub_len \<le> len" "length roots = len div sub_len"
    "c = commitment_of B len (tree_root B (ilog2 (length roots)) roots)" "0 \<notin> set roots"
proof -
  obtain self self' where s: "acc_new len sub_len = Ok self" "acc_push_all B roots self = Ok self'" "acc_finish B self' = Ok c"
    using assms by (auto simp: merkle_commit_subtrees_def and_then_Ok_iff)
  note inv = acc_new_inv [OF s(1), of B]
  have i': "acc_inv B len roots self'" "acc_width self' = len div sub_len" "0 \<notin> set roots"
    using acc_push_all_OkD [of B len "[]" self roots self'] inv s(2) by auto
  show l: "length roots = len div sub_len" using s(3) i' by (auto simp: acc_finish_def acc_inv_def split: if_splits)
  show "c = commitment_of B len (tree_root B (ilog2 (length roots)) roots)"
    using acc_finish_inv [OF i'(1)] i'(2) l s(3) by simp
  show "0 \<notin> set roots" by (rule i'(3))
qed (use assms in \<open>auto simp: merkle_commit_subtrees_def acc_new_def and_then_Ok_iff split: if_splits\<close>)

lemma panic_free_commit_subtrees [simp]: "panic_free (merkle_commit_subtrees B len sub_len roots)"
  unfolding merkle_commit_subtrees_def
proof (intro panic_free_and_then)
  show "panic_free (acc_new len sub_len)" by (auto simp: acc_new_def)
  fix self assume s: "acc_new len sub_len = Ok self"
  note inv = acc_new_inv [OF s, of B]
  then show "panic_free (acc_push_all B roots self)" by (intro panic_free_acc_push_all) blast
  fix self' assume "acc_push_all B roots self = Ok self'"
  then have i': "acc_inv B len roots self'" using acc_push_all_OkD [of B len "[]" self roots self'] inv by auto
  then show "panic_free (acc_finish B self')"
    using acc_finish_inv [OF i'] by (cases "length roots = acc_width self'") (auto simp: acc_finish_def acc_inv_def)
qed

section \<open>Binding of subtrees\<close>

lemma commit_queries_subset:
  assumes "length bytes = 2 ^ h * 16" "set (commit_queries B bytes) \<subseteq> Q"
  shows "leaf_query ` set (chunks 16 bytes) \<subseteq> Q" "set (tree_queries B h (leaf_digests B bytes)) \<subseteq> Q"
    "root_query (length bytes) (tree_root B h (leaf_digests B bytes)) \<in> Q"
  using assms by (auto simp: commit_queries_def Let_def)

lemma merkle_commit_inj:
  assumes "collision_free B Q" "set (commit_queries B a) \<subseteq> Q" "set (commit_queries B b) \<subseteq> Q"
    and "merkle_commit B a = Ok c" "merkle_commit B b = Ok c"
  shows "a = b"
proof -
  obtain h where a: "length a = 2 ^ h * 16" "c = commitment_of B (length a) (tree_root B h (leaf_digests B a))"
    using assms(4) by (elim merkle_commit_OkE) auto
  obtain k where b: "length b = 2 ^ k * 16" "c = commitment_of B (length b) (tree_root B k (leaf_digests B b))"
    using assms(5) by (elim merkle_commit_OkE) auto
  have len: "length a = length b" using a(2) b(2) by (simp add: commitment_of_def)
  then have k: "k = h" using a(1) b(1) by simp
  note qa = commit_queries_subset [OF a(1) assms(2)] and qb = commit_queries_subset [OF b(1) assms(3)]
  have "tree_root B h (leaf_digests B a) = tree_root B h (leaf_digests B b)"
    by (rule bind_root_inj [OF assms(1) qa(3)]) (use qb(3) a(2) b(2) len k in \<open>simp_all add: commitment_of_def\<close>)
  then have "leaf_digests B a = leaf_digests B b"
    by (rule tree_root_inj [OF assms(1), rotated -1]) (use qa qb a(1) b(1) k length_leaf_digests in auto)
  then have "chunks 16 a = chunks 16 b" using map_hash_leaf_inj [OF assms(1) qa(1) qb(1)] by simp
  then show "a = b" by (metis concat_chunks zero_less_numeral)
qed

lemma sub_half:
  assumes "length xs = 2 * n" "j * m + m \<le> n"
  shows "sub xs (j * m) m = sub (take n xs) (j * m) m" "sub xs (n + j * m) m = sub (drop n xs) (j * m) m"
  using assms by (simp_all add: sub_def take_drop min_absorb1 add.commute)

lemma half_index:
  assumes "(j::nat) < 2 ^ Suc k"
  obtains "j < 2 ^ k" | i :: nat where "i < 2 ^ k" "j = 2 ^ k + i"
proof (cases "j < 2 ^ k")
  case False
  then show ?thesis using assms by (intro that(2) [of "j - 2 ^ k"]) simp_all
qed (rule that(1))

lemma block_bound: "j < 2 ^ k \<Longrightarrow> j * 2 ^ b + 2 ^ b \<le> (2::nat) ^ (k + b)"
proof -
  assume "j < 2 ^ k"
  then have "(j + 1) * 2 ^ b \<le> 2 ^ k * 2 ^ b" by (intro mult_le_mono1) simp
  then show ?thesis by (simp add: power_add algebra_simps)
qed

text \<open>Roots that hash to the root of a tree are the roots of its subtrees.\<close>

lemma subtree_roots_bound:
  assumes "collision_free B Q" "length roots = 2 ^ k" "length xs = 2 ^ (k + b)"
    and "set (tree_queries B k roots) \<subseteq> Q" "set (tree_queries B (k + b) xs) \<subseteq> Q" "tree_root B k roots = tree_root B (k + b) xs"
    and "j < 2 ^ k"
  shows "roots ! j = tree_root B b (sub xs (j * 2 ^ b) (2 ^ b)) \<and> set (tree_queries B b (sub xs (j * 2 ^ b) (2 ^ b))) \<subseteq> Q"
  using assms(2-)
proof (induction k arbitrary: roots xs j)
  case 0
  then show ?case by (cases roots) (auto simp: sub_def)
next
  case (Suc k)
  let ?n = "2 ^ k :: nat" and ?m = "2 ^ (k + b) :: nat"
  have halves: "tree_root B k (take ?n roots) = tree_root B (k + b) (take ?m xs) \<and> tree_root B k (drop ?n roots) = tree_root B (k + b) (drop ?m xs)"
    using Suc.prems by (intro hash_node_inj [OF assms(1)]) auto
  have len: "length xs = 2 * ?m" "length roots = 2 * ?n" using Suc.prems(1,2) by simp_all
  have q: "set (tree_queries B k (take ?n roots)) \<subseteq> Q" "set (tree_queries B k (drop ?n roots)) \<subseteq> Q"
    "set (tree_queries B (k + b) (take ?m xs)) \<subseteq> Q" "set (tree_queries B (k + b) (drop ?m xs)) \<subseteq> Q"
    using Suc.prems(3,4) by simp_all
  from Suc.prems(6) show ?case
  proof (cases rule: half_index)
    case 1
    have "take ?n roots ! j = tree_root B b (sub (take ?m xs) (j * 2 ^ b) (2 ^ b)) \<and> set (tree_queries B b (sub (take ?m xs) (j * 2 ^ b) (2 ^ b))) \<subseteq> Q"
      by (rule Suc.IH) (use 1 halves q len in simp_all)
    moreover have "roots ! j = take ?n roots ! j" using 1 by simp
    ultimately show ?thesis by (simp only: sub_half(1) [OF len(1) block_bound [OF 1]])
  next
    case (2 i)
    have "drop ?n roots ! i = tree_root B b (sub (drop ?m xs) (i * 2 ^ b) (2 ^ b)) \<and> set (tree_queries B b (sub (drop ?m xs) (i * 2 ^ b) (2 ^ b))) \<subseteq> Q"
      by (rule Suc.IH) (use 2(1) halves q len in simp_all)
    moreover have "j * 2 ^ b = ?m + i * 2 ^ b" using 2(2) by (simp add: algebra_simps power_add)
    moreover have "roots ! j = drop ?n roots ! i" using Suc.prems(1) unfolding 2(2) by simp
    ultimately show ?thesis by (simp only: sub_half(2) [OF len(1) block_bound [OF 2(1)]])
  qed
qed

lemma tree_queries_sub:
  assumes "length xs = 2 ^ (k + b)" "j < 2 ^ k"
  shows "set (tree_queries B b (sub xs (j * 2 ^ b) (2 ^ b))) \<subseteq> set (tree_queries B (k + b) xs)"
  using assms
proof (induction k arbitrary: xs j)
  case 0
  then show ?case by (simp add: sub_def)
next
  case (Suc k)
  let ?m = "2 ^ (k + b) :: nat"
  have len: "length xs = 2 * ?m" using Suc.prems(1) by simp
  from Suc.prems(2) show ?case
  proof (cases rule: half_index)
    case 1
    have "set (tree_queries B b (sub (take ?m xs) (j * 2 ^ b) (2 ^ b))) \<subseteq> set (tree_queries B (k + b) (take ?m xs))"
      using 1 len by (intro Suc.IH) auto
    then show ?thesis unfolding sub_half(1) [OF len block_bound [OF 1]] by (auto simp del: One_nat_def)
  next
    case (2 i)
    have "set (tree_queries B b (sub (drop ?m xs) (i * 2 ^ b) (2 ^ b))) \<subseteq> set (tree_queries B (k + b) (drop ?m xs))"
      using 2 len by (intro Suc.IH) auto
    moreover have "j * 2 ^ b = ?m + i * 2 ^ b" using 2(2) by (simp add: algebra_simps power_add)
    ultimately show ?thesis unfolding sub_half(2) [OF len block_bound [OF 2(1)], folded \<open>j * 2 ^ b = ?m + i * 2 ^ b\<close>] by (auto dest: subsetD)
  qed
qed

text \<open>Equal subtree roots over two byte strings mean equal bytes.\<close>

lemma subtree_bytes_inj:
  assumes "collision_free B Q" "length x = 2 ^ (k + b) * 16" "length y = 2 ^ (l + b) * 16"
    and "set (commit_queries B x) \<subseteq> Q" "set (commit_queries B y) \<subseteq> Q" "i < 2 ^ k" "j < 2 ^ l"
    and "tree_root B b (sub (leaf_digests B x) (i * 2 ^ b) (2 ^ b)) = tree_root B b (sub (leaf_digests B y) (j * 2 ^ b) (2 ^ b))"
  shows "sub x (i * (2 ^ b * 16)) (2 ^ b * 16) = sub y (j * (2 ^ b * 16)) (2 ^ b * 16)"
proof -
  let ?x = "sub x (i * 2 ^ b * 16) (2 ^ b * 16)" and ?y = "sub y (j * 2 ^ b * 16) (2 ^ b * 16)"
  note qx = commit_queries_subset [OF assms(2,4)] and qy = commit_queries_subset [OF assms(3,5)]
  have lx: "length (leaf_digests B x) = 2 ^ (k + b)" and ly: "length (leaf_digests B y) = 2 ^ (l + b)"
    using length_leaf_digests assms(2,3) by blast+
  have bx: "i * 2 ^ b + 2 ^ b \<le> 2 ^ (k + b)" and "by": "j * 2 ^ b + 2 ^ b \<le> 2 ^ (l + b)" using assms(6,7) block_bound by blast+
  have "sub (leaf_digests B x) (i * 2 ^ b) (2 ^ b) = sub (leaf_digests B y) (j * 2 ^ b) (2 ^ b)"
  proof (rule tree_root_inj [OF assms(1) _ _ _ _ assms(8)])
    show "set (tree_queries B b (sub (leaf_digests B x) (i * 2 ^ b) (2 ^ b))) \<subseteq> Q"
      using tree_queries_sub [OF lx assms(6), of B] qx(2) by blast
    show "set (tree_queries B b (sub (leaf_digests B y) (j * 2 ^ b) (2 ^ b))) \<subseteq> Q"
      using tree_queries_sub [OF ly assms(7), of B] qy(2) by blast
  qed (use bx "by" lx ly in simp_all)
  then have "map (hash_leaf B) (chunks 16 ?x) = map (hash_leaf B) (chunks 16 ?y)"
    using leaf_digests_sub [OF assms(2) bx, of B] leaf_digests_sub [OF assms(3) "by", of B] by simp
  moreover have "set (chunks 16 ?x) \<subseteq> set (chunks 16 x)" "set (chunks 16 ?y) \<subseteq> set (chunks 16 y)"
    using chunks_sub [OF _ assms(2) bx] chunks_sub [OF _ assms(3) "by"] set_sub_subset by fastforce+
  ultimately have "chunks 16 ?x = chunks 16 ?y"
    using qx(1) qy(1) by (intro map_hash_leaf_inj [OF assms(1)]) blast+
  then have "?x = ?y" by (metis concat_chunks zero_less_numeral)
  then show ?thesis by (simp add: mult.assoc)
qed

end
