(* ===== verification/Packing_Valid.thy ===== *)
theory Packing_Valid
  imports Packing Merkle_Binding
begin

text \<open>
  What a validated packed catalog ensures, and that validation never panics: the catalog is decoded from bytes that
  any peer may have sent.
\<close>

section \<open>Hashes and signatures do not panic\<close>

lemma panic_free_update [simp]: "panic_free (update_canonical_hash ser hasher v)"
  by (simp add: update_canonical_hash_def split: sum.splits)

lemma panic_free_push_all [simp]: "panic_free (id_hasher_push_all E slots hasher)"
  by (induction slots arbitrary: hasher) (auto simp: id_hasher_push_def)

lemma panic_free_descriptor_id [simp]: "panic_free (descriptor_calculate_id E B d profile)"
  by (auto simp: descriptor_calculate_id_def id_hasher_new_def)

lemma panic_free_catalog_id [simp]: "panic_free (catalog_calculate_id E B c)"
  by (auto simp: catalog_calculate_id_def catalog_id_def Let_def split: option.splits)

lemma panic_free_signed_verify [simp]: "panic_free (signed_verify K enc domain r)"
  by (auto simp: signed_verify_def canonical_bytes_def split: sum.splits)

lemma panic_free_profile [simp]: "panic_free (packing_profile_validate profile)"
  by (simp add: packing_profile_validate_def)

lemma panic_free_check_bindings [simp]: "panic_free (check_bindings K E profile authentication bindings seen)"
  by (induction bindings arbitrary: seen) (auto simp: Let_def)

lemma panic_free_check_attestations [simp]: "panic_free (check_attestations K E profile authentication attestations seen)"
  by (induction attestations arbitrary: seen) (auto simp: Let_def)

section \<open>Profiles\<close>

text \<open>The sizes of a valid profile are powers of two.\<close>

lemma packing_profile_OkE:
  assumes "packing_profile_validate profile = (Ok () :: (('m, 'x) packing_error, unit) result)"
  obtains h b where "h \<le> 18" "b \<le> h" "pf_sector_size profile = 2 ^ h * 16" "pf_slot_size profile = 2 ^ b * 16"
    "pf_sector_size profile div pf_slot_size profile = 2 ^ (h - b)"
proof -
  have p: "is_power_of_two (pf_sector_size profile)" "is_power_of_two (pf_slot_size profile)" "16 \<le> pf_slot_size profile"
    "pf_slot_size profile \<le> pf_sector_size profile" "pf_sector_size profile \<le> 4194304"
    using assms by (auto simp: packing_profile_validate_def split: if_splits)
  have pow: "\<exists>k. n = 2 ^ k * 16" if n: "is_power_of_two n" "16 \<le> n" for n :: nat
  proof -
    obtain k where k: "n = 2 ^ k" using n(1) is_power_of_two_iff [of n] by blast
    then have "(2::nat) ^ 4 \<le> 2 ^ k" using n(2) by simp
    then have "4 \<le> k" by (simp only: power_increasing_iff)
    then have "n = 2 ^ (k - 4) * 2 ^ 4" using k by (metis le_add_diff_inverse2 power_add)
    then show ?thesis by auto
  qed
  obtain h where h: "pf_sector_size profile = 2 ^ h * 16" using pow p(1,3,4) by (meson order_trans)
  obtain b where b: "pf_slot_size profile = 2 ^ b * 16" using pow p(2,3) by blast
  have "b \<le> h" using p(4) h b by simp
  have "(2::nat) ^ h \<le> 2 ^ 18" using p(5) h by simp
  then have "h \<le> 18" by (simp only: power_increasing_iff)
  show ?thesis using h b \<open>b \<le> h\<close> \<open>h \<le> 18\<close> by (intro that [of h b]) (simp_all add: power_diff)
qed

section \<open>Sources of a catalog\<close>

abbreviation sources :: "packed_slot list \<Rightarrow> packed_source_chunk list" where
  "sources slots \<equiv> List.map_filter slot_source slots"

abbreviation catalog_slots :: "packed_catalog \<Rightarrow> packed_slot list" where
  "catalog_slots c \<equiv> concat (map sd_slots (ct_sectors c))"

lemma sources_append: "sources (xs @ ys) = sources xs @ sources ys"
  by (simp add: List.map_filter_def)

lemma sources_Cons: "sources (slot # slots) = (case slot_source slot of None \<Rightarrow> [] | Some s \<Rightarrow> [s]) @ sources slots"
  by (simp add: List.map_filter_def split: option.splits)

lemma in_sources: "s \<in> set (sources slots) \<longleftrightarrow> (\<exists>slot \<in> set slots. slot_source slot = Some s)"
  by (induction slots) (auto simp: sources_Cons List.map_filter_simps split: option.splits)

definition source_ok :: "packing_profile \<Rightarrow> packed_source_chunk \<Rightarrow> bool" where
  "source_ok profile s \<longleftrightarrow> 0 < pc_logical_len s \<and> pc_logical_len s \<le> pf_slot_size profile
     \<and> pc_source_offset s = ci_chunk_index (pc_id s) * pf_slot_size profile
     \<and> ci_owner (pc_id s) \<noteq> 0 \<and> ci_protected_root (pc_id s) \<noteq> 0 \<and> ci_object_id (pc_id s) \<noteq> 0"

text \<open>What the scan of slots has collected.\<close>

definition scanned :: "source_chunk_id list \<Rightarrow> source_scan \<Rightarrow> bool" where
  "scanned ids = (\<lambda>(source_ids, object_chunks). sorted source_ids \<and> distinct source_ids \<and> set source_ids = set ids
     \<and> bmap_ok object_chunks
     \<and> (\<forall>object. map_of object_chunks object =
          (let cs = map ci_chunk_index (filter (\<lambda>i. chunk_object i = object) ids) in if cs = [] then None else Some cs)))"

lemma bset_insert_ok [simp]: "sorted xs \<Longrightarrow> sorted (bset_insert x xs)" "distinct xs \<Longrightarrow> distinct (bset_insert x xs)"
  by (simp_all add: bset_insert_def sorted_insort_insert distinct_insort_insert)

lemma scanned_snoc:
  assumes "scanned ids (source_ids, object_chunks)"
  shows "scanned (ids @ [i]) (bset_insert i source_ids,
    bmap_insert (chunk_object i) ((case map_of object_chunks (chunk_object i) of None \<Rightarrow> [] | Some cs \<Rightarrow> cs) @ [ci_chunk_index i]) object_chunks)"
proof -
  have at: "map_of object_chunks object =
      (let cs = map ci_chunk_index (filter (\<lambda>i. chunk_object i = object) ids) in if cs = [] then None else Some cs)" for object
    using assms unfolding scanned_def by blast
  have "(case map_of object_chunks (chunk_object i) of None \<Rightarrow> [] | Some cs \<Rightarrow> cs)
      = map ci_chunk_index (filter (\<lambda>j. chunk_object j = chunk_object i) ids)"
    by (simp add: at Let_def)
  then show ?thesis using assms at by (simp add: scanned_def Let_def)
qed

lemma validate_slots_OkD:
  assumes "validate_slots profile slots scan = (Ok scan' :: (('m, 'x) packing_error, _) result)" "scanned ids scan" "distinct ids"
  shows "scanned (ids @ map pc_id (sources slots)) scan' \<and> distinct (ids @ map pc_id (sources slots))
    \<and> (\<forall>s \<in> set (sources slots). source_ok profile s)"
  using assms
proof (induction slots arbitrary: scan ids)
  case (Cons slot slots)
  obtain source_ids object_chunks where scan: "scan = (source_ids, object_chunks)" by force
  show ?case
  proof (cases "slot_source slot")
    case None
    then show ?thesis using Cons scan by (simp add: sources_Cons)
  next
    case (Some source)
    let ?i = "pc_id source"
    have ok: "source_ok profile source" "?i \<notin> set source_ids"
      and rest: "validate_slots profile slots (bset_insert ?i source_ids,
             bmap_insert (chunk_object ?i) ((case map_of object_chunks (chunk_object ?i) of None \<Rightarrow> [] | Some cs \<Rightarrow> cs) @ [ci_chunk_index ?i]) object_chunks)
             = (Ok scan' :: (('m, 'x) packing_error, _) result)"
      using Cons.prems(1) Some scan by (auto simp: source_ok_def Let_def split: if_splits)
    have "scanned (ids @ [?i]) (bset_insert ?i source_ids,
             bmap_insert (chunk_object ?i) ((case map_of object_chunks (chunk_object ?i) of None \<Rightarrow> [] | Some cs \<Rightarrow> cs) @ [ci_chunk_index ?i]) object_chunks)"
      using Cons.prems(2) unfolding scan by (rule scanned_snoc)
    moreover have "distinct (ids @ [?i])" using Cons.prems(2,3) ok(2) scan by (auto simp: scanned_def)
    ultimately have "scanned ((ids @ [?i]) @ map pc_id (sources slots)) scan' \<and> distinct ((ids @ [?i]) @ map pc_id (sources slots))
      \<and> (\<forall>s \<in> set (sources slots). source_ok profile s)" by (rule Cons.IH [OF rest])
    then show ?thesis using Some ok by (auto simp: sources_Cons)
  qed
qed (simp add: List.map_filter_simps)

definition descriptor_ok :: "'m packing_codec \<Rightarrow> blake3 \<Rightarrow> packed_catalog \<Rightarrow> nat \<Rightarrow> nat \<Rightarrow> packed_sector_descriptor \<Rightarrow> bool" where
  "descriptor_ok E B self n i d \<longleftrightarrow> sd_sector_index d = i mod 2 ^ 32 \<and> length (sd_slots d) = n \<and> sd_flat_root d \<noteq> 0
     \<and> mc_byte_len (sd_commitment d) = pf_sector_size (ct_profile self)
     \<and> (3 \<le> ct_format_version self \<longrightarrow> sd_flat_root d = mc_root (sd_commitment d))"

lemma validate_sectors_OkD:
  assumes "validate_sectors E B self n i ds scan = (Ok scan' :: (('m, 'x) packing_error, _) result)" "scanned ids scan" "distinct ids"
  shows "scanned (ids @ map pc_id (sources (concat (map sd_slots ds)))) scan'
    \<and> distinct (ids @ map pc_id (sources (concat (map sd_slots ds))))
    \<and> (\<forall>s \<in> set (sources (concat (map sd_slots ds))). source_ok (ct_profile self) s)
    \<and> (\<forall>j < length ds. descriptor_ok E B self n (i + j) (ds ! j))"
  using assms
proof (induction ds arbitrary: i scan ids)
  case (Cons d ds)
  obtain scan1 where s1: "validate_slots (ct_profile self) (sd_slots d) scan = (Ok scan1 :: (('m, 'x) packing_error, _) result)"
    "validate_sectors E B self n (Suc i) ds scan1 = (Ok scan' :: (('m, 'x) packing_error, _) result)"
    and d: "descriptor_ok E B self n i d"
    using Cons.prems(1) by (auto simp: and_then_Ok_iff descriptor_ok_def split: if_splits)
  note v = validate_slots_OkD [OF s1(1) Cons.prems(2,3)]
  have "descriptor_ok E B self n (i + j) ((d # ds) ! j)" if "j < length (d # ds)" for j
    using Cons.IH [OF s1(2), of "ids @ map pc_id (sources (sd_slots d))"] v d that by (cases j) auto
  then show ?case using Cons.IH [OF s1(2), of "ids @ map pc_id (sources (sd_slots d))"] v by (auto simp: sources_append)
qed (simp add: List.map_filter_simps)

lemma scanned_Nil [simp]: "scanned [] ([], [])"
  by (simp add: scanned_def)

section \<open>Source authentication\<close>

definition entry_ok :: "blake3 \<Rightarrow> packing_profile \<Rightarrow> packed_source_authentication \<Rightarrow> bool" where
  "entry_ok B profile e \<longleftrightarrow> mc_byte_len (au_source_commitment e) = pf_sector_size profile
     \<and> sp_start_leaf (au_proof e) = ci_chunk_index (au_id e) * (pf_slot_size profile div 16)
     \<and> sp_leaf_count (au_proof e) = pf_slot_size profile div 16
     \<and> (\<exists>r. merkle_verify_subtree B (au_source_commitment e) (au_proof e) = Ok r)"

lemma collect_proofs_OkD:
  assumes "collect_proofs B profile entries proofs = (Ok proofs' :: (('m, 'x) packing_error, _) result)" "bmap_ok proofs"
  shows "bmap_ok proofs' \<and> (\<forall>e \<in> set entries. entry_ok B profile e) \<and> distinct (map au_id entries)
    \<and> (\<forall>e \<in> set entries. map_of proofs (au_id e) = None) \<and> map_of proofs' = map_of proofs ++ map_of (map (\<lambda>e. (au_id e, e)) entries)"
  using assms
proof (induction entries arbitrary: proofs)
  case (Cons entry entries)
  have e: "entry_ok B profile entry" "map_of proofs (au_id entry) = None"
    "collect_proofs B profile entries (bmap_insert (au_id entry) entry proofs) = (Ok proofs' :: (('m, 'x) packing_error, _) result)"
    using Cons.prems(1) by (auto simp: entry_ok_def Let_def and_then_Ok_iff map_err_Ok_iff split: if_splits dest: sym [of "Some _"])
  note IH = Cons.IH [OF e(3) bmap_ok_insert [OF Cons.prems(2)]]
  have fresh: "au_id e \<noteq> au_id entry" "map_of proofs (au_id e) = None" if "e \<in> set entries" for e
    using IH that by (auto split: if_splits)
  then have "map_of (map (\<lambda>e. (au_id e, e)) entries) (au_id entry) = None" by (force simp: map_of_eq_None_iff)
  then have "map_of proofs ++ map_of (map (\<lambda>e. (au_id e, e)) (entry # entries)) = (map_of proofs)(au_id entry \<mapsto> entry) ++ map_of (map (\<lambda>e. (au_id e, e)) entries)"
    by (auto simp: fun_eq_iff map_add_def split: option.splits)
  then have "map_of proofs' = map_of proofs ++ map_of (map (\<lambda>e. (au_id e, e)) (entry # entries))"
    using IH by (simp only: map_of_bmap_insert)
  moreover have "distinct (map au_id (entry # entries))" using IH fresh(1) by force
  ultimately show ?case using IH e(1,2) fresh(2) by (simp del: list.map)
qed simp

lemma panic_free_collect_proofs [simp]: "panic_free (collect_proofs B profile entries proofs)"
  by (induction entries arbitrary: proofs) (auto simp: Let_def)

lemma slot_roots_OkD:
  "slot_roots profile proofs zero slots = (Ok roots :: (('m, 'x) packing_error, _) result) \<Longrightarrow>
   length roots = length slots \<and> (\<forall>i < length slots. slot_root profile proofs zero (slots ! i) = (Ok (roots ! i) :: (('m, 'x) packing_error, _) result))"
  by (induction slots arbitrary: roots) (auto simp: and_then_Ok_iff nth_Cons split: nat.splits)

lemma panic_free_slot_roots:
  assumes "\<And>s. s \<in> set (sources slots) \<Longrightarrow> map_of proofs (pc_id s) \<noteq> None"
  shows "panic_free (slot_roots profile proofs zero slots :: (('m, 'x) packing_error, _) result)"
  using assms
proof (induction slots)
  case (Cons slot slots)
  have "panic_free (slot_root profile proofs zero slot :: (('m, 'x) packing_error, _) result)"
  proof (cases "slot_source slot")
    case None
    then show ?thesis by (cases slot rule: slot_source.cases) (auto simp: slot_root_def)
  next
    case (Some s)
    then have "map_of proofs (pc_id s) \<noteq> None" using Cons.prems by (simp add: sources_Cons)
    then show ?thesis using Some by (cases slot rule: slot_source.cases) (auto simp: slot_root_def)
  qed
  moreover have "panic_free (slot_roots profile proofs zero slots :: (('m, 'x) packing_error, _) result)" by (rule Cons.IH, rule Cons.prems) (simp split: option.splits)
  ultimately show ?case by auto
qed simp

lemma check_commitments_OkD:
  "check_commitments B profile proofs zero ds = (Ok () :: (('m, 'x) packing_error, _) result) \<Longrightarrow> d \<in> set ds \<Longrightarrow>
   \<exists>roots. slot_roots profile proofs zero (sd_slots d) = (Ok roots :: (('m, 'x) packing_error, _) result)
     \<and> merkle_commit_subtrees B (pf_sector_size profile) (pf_slot_size profile) roots = Ok (sd_commitment d)"
  by (induction ds) (auto simp: and_then_Ok_iff map_err_Ok_iff split: if_splits)

lemma panic_free_check_commitments:
  assumes "\<And>s. s \<in> set (sources (concat (map sd_slots ds))) \<Longrightarrow> map_of proofs (pc_id s) \<noteq> None"
  shows "panic_free (check_commitments B profile proofs zero ds)"
  using assms by (induction ds) (auto simp: sources_append intro!: panic_free_slot_roots)

text \<open>The indexing \<open>proofs[&source.id]\<close> is safe because the keys were compared with the scanned identifiers.\<close>

lemma panic_free_source_authentication:
  assumes "scanned (map pc_id (sources (catalog_slots self))) (source_ids, object_chunks)"
  shows "panic_free (validate_source_authentication B self source_ids)"
proof -
  have "map_of proofs (pc_id s) \<noteq> None" if "map fst proofs = source_ids" "s \<in> set (sources (catalog_slots self))"
    for proofs :: proof_map and s
  proof -
    have "pc_id s \<in> fst ` set proofs" using assms that by (simp add: scanned_def flip: set_map) simp
    then show ?thesis by (simp add: map_of_eq_None_iff)
  qed
  then show ?thesis unfolding validate_source_authentication_def
    by (auto intro!: panic_free_check_commitments)
qed

section \<open>Validated catalogs\<close>

text \<open>The facts that a validated catalog gives its readers.\<close>

definition catalog_ok :: "'m packing_codec \<Rightarrow> blake3 \<Rightarrow> packed_catalog \<Rightarrow> bool" where
  "catalog_ok E B c \<longleftrightarrow> distinct (map pc_id (sources (catalog_slots c)))
     \<and> (\<forall>s \<in> set (sources (catalog_slots c)). source_ok (ct_profile c) s)
     \<and> (\<forall>j < length (ct_sectors c). descriptor_ok E B c (pf_sector_size (ct_profile c) div pf_slot_size (ct_profile c)) j (ct_sectors c ! j))
     \<and> (ct_sectors c \<noteq> [] \<longrightarrow> \<not> sector_unused (last (ct_sectors c)))
     \<and> 0 < ct_revision c \<and> (ct_revision c = 1 \<longleftrightarrow> ct_parent c = None) \<and> version_fields c"

lemma catalog_validate_OkD:
  assumes "catalog_validate K E B c = (Ok () :: (('m, 'x) packing_error, _) result)"
  shows "packing_profile_validate (ct_profile c) = (Ok () :: (('m, 'x) packing_error, _) result)"
    "catalog_calculate_id E B c = (Ok (ct_id c) :: (('m, 'x) packing_error, _) result)" "catalog_ok E B c"
    "\<exists>source_ids object_chunks. scanned (map pc_id (sources (catalog_slots c))) (source_ids, object_chunks)
      \<and> (2 \<le> ct_format_version c \<longrightarrow> validate_source_authentication B c source_ids = (Ok () :: (('m, 'x) packing_error, _) result))"
proof -
  let ?n = "pf_sector_size (ct_profile c) div pf_slot_size (ct_profile c)"
  obtain source_ids object_chunks where
    v: "packing_profile_validate (ct_profile c) = (Ok () :: (('m, 'x) packing_error, _) result)"
      "version_fields c" "ct_revision c \<noteq> 0" "(ct_revision c = 1) = (ct_parent c = None)"
      "catalog_calculate_id E B c = (Ok (ct_id c) :: (('m, 'x) packing_error, _) result)"
      "validate_sectors E B c ?n 0 (ct_sectors c) ([], []) = (Ok (source_ids, object_chunks) :: (('m, 'x) packing_error, _) result)"
      "\<not> (ct_sectors c \<noteq> [] \<and> sector_unused (last (ct_sectors c)))"
      "(if 2 \<le> ct_format_version c \<and> ct_format_version c \<le> 5 then validate_source_authentication B c source_ids else Ok ())
        = (Ok () :: (('m, 'x) packing_error, _) result)"
    using assms unfolding catalog_validate_def slots_per_sector_def by (auto simp: and_then_Ok_iff split: if_splits)
  note s = validate_sectors_OkD [OF v(6), of "[]"]
  show "packing_profile_validate (ct_profile c) = (Ok () :: (('m, 'x) packing_error, _) result)"
    "catalog_calculate_id E B c = (Ok (ct_id c) :: (('m, 'x) packing_error, _) result)" by (fact v)+
  show "catalog_ok E B c" using s v by (auto simp: catalog_ok_def)
  have "ct_format_version c \<le> 5" using v(2) by (auto simp: version_fields_def split: option.splits)
  then show "\<exists>source_ids object_chunks. scanned (map pc_id (sources (catalog_slots c))) (source_ids, object_chunks)
      \<and> (2 \<le> ct_format_version c \<longrightarrow> validate_source_authentication B c source_ids = (Ok () :: (('m, 'x) packing_error, _) result))"
    using s v(8) by auto
qed

lemma panic_free_validate_slots [simp]: "panic_free (validate_slots profile slots scan)"
proof (induction slots arbitrary: scan)
  case (Cons slot slots)
  then show ?case by (cases scan) (auto simp: Let_def split: option.splits)
qed simp

lemma panic_free_validate_sectors [simp]: "panic_free (validate_sectors E B self n i sectors scan)"
  by (induction sectors arbitrary: i scan) auto

lemma panic_free_catalog_validate [simp]:
  fixes E :: "'m packing_codec"
  shows "panic_free (catalog_validate K E B c :: (('m, 'x) packing_error, unit) result)"
proof -
  let ?n = "pf_sector_size (ct_profile c) div pf_slot_size (ct_profile c)"
  have "panic_free (validate_source_authentication B c source_ids :: (('m, 'x) packing_error, _) result)"
    if "validate_sectors E B c ?n 0 (ct_sectors c) ([], []) = (Ok (source_ids, object_chunks) :: (('m, 'x) packing_error, _) result)"
    for source_ids object_chunks
    using validate_sectors_OkD [OF that, of "[]"] by (intro panic_free_source_authentication [of c source_ids object_chunks]) simp
  moreover have "panic_free (validate_legacy_bindings K E c :: (('m, 'x) packing_error, _) result)"
    "panic_free (validate_legacy_attestations K E c :: (('m, 'x) packing_error, _) result)"
    by (auto simp: validate_legacy_bindings_def validate_legacy_attestations_def)
  ultimately show ?thesis
    unfolding catalog_validate_def slots_per_sector_def by (auto intro!: panic_free_and_then split: prod.splits)
qed

end
