(* ===== verification/Packing_Unpack.thy ===== *)
theory Packing_Unpack
  imports Packing_Valid
begin

text \<open>
  Recovery of objects from packed sectors, \<open>src/crates/mb-core/src/packing.rs\<close>. The catalog and the sectors may come
  from anybody: neither validation nor unpacking panics on any input, two successful recoveries of an object agree,
  and an object of an authenticated catalog is recovered as its owner committed to it.
\<close>

section \<open>Operations\<close>

record packed_sector =
  ps_descriptor :: packed_sector_descriptor
  ps_bytes :: "byte list"

record packing_metrics =
  pm_logical_bytes :: nat
  pm_source_upload_bytes :: nat
  pm_packed_sector_bytes :: nat
  pm_virtual_zero_bytes :: nat
  pm_reused_slots :: nat
  pm_changed_sectors :: nat
  pm_peak_materialized_bytes :: nat

record packing_result =
  re_catalog :: packed_catalog
  re_sectors :: "packed_sector list"
  re_metrics :: packing_metrics

text \<open>The test of a sector's bytes against its descriptor, the same at every place that reads them.\<close>

definition check_sector_bytes ::
    "blake3 \<Rightarrow> packed_catalog \<Rightarrow> packed_sector_descriptor \<Rightarrow> byte list \<Rightarrow> (('m, 'x) packing_error, unit) result" where
  "check_sector_bytes B catalog descriptor bytes =
     (if length bytes \<noteq> pf_sector_size (ct_profile catalog)
         \<or> ct_format_version catalog < 3 \<and> plain_hash B bytes \<noteq> sd_flat_root descriptor
      then Err InvalidCatalog
      else and_then (map_err (\<lambda>_. InvalidCatalog) (merkle_commit B bytes)) (\<lambda>commitment.
        if commitment \<noteq> sd_commitment descriptor then Err InvalidCatalog else Ok ()))"

fun check_slot_bytes :: "blake3 \<Rightarrow> nat \<Rightarrow> byte list \<Rightarrow> nat \<Rightarrow> packed_slot list \<Rightarrow> (('m, 'x) packing_error, unit) result" where
  "check_slot_bytes B slot_size packed i [] = Ok ()"
| "check_slot_bytes B slot_size packed i (slot # slots) =
     and_then (slice packed (i * slot_size) (Suc i * slot_size)) (\<lambda>bytes.
     and_then (case slot of
         DataSlot source \<Rightarrow>
           and_then (slice bytes (pc_logical_len source) (length bytes)) (\<lambda>rest.
           if \<exists>b \<in> set rest. b \<noteq> 0 then Err InvalidCatalog
           else and_then (slice bytes 0 (pc_logical_len source)) (\<lambda>content.
             if plain_hash B content \<noteq> pc_content_hash source then Err InvalidCatalog else Ok ()))
       | VirtualZero source \<Rightarrow>
           if \<exists>b \<in> set bytes. b \<noteq> 0 then Err InvalidCatalog
           else (case source of
               None \<Rightarrow> Ok ()
             | Some source \<Rightarrow>
                 and_then (slice bytes 0 (pc_logical_len source)) (\<lambda>content.
                 if plain_hash B content \<noteq> pc_content_hash source then Err InvalidCatalog else Ok ()))) (\<lambda>_.
     check_slot_bytes B slot_size packed (Suc i) slots))"

fun check_packed :: "blake3 \<Rightarrow> packed_catalog \<Rightarrow> (packed_sector \<times> packed_sector_descriptor) list \<Rightarrow> (('m, 'x) packing_error, unit) result" where
  "check_packed B catalog [] = Ok ()"
| "check_packed B catalog ((packed, descriptor) # rest) =
     (if ps_descriptor packed \<noteq> descriptor then Err InvalidCatalog
      else and_then (check_sector_bytes B catalog descriptor (ps_bytes packed)) (\<lambda>_.
        and_then (check_slot_bytes B (pf_slot_size (ct_profile catalog)) (ps_bytes packed) 0 (sd_slots descriptor)) (\<lambda>_.
        check_packed B catalog rest)))"

definition result_validate ::
    "crypto \<Rightarrow> 'm packing_codec \<Rightarrow> blake3 \<Rightarrow> packing_result \<Rightarrow> (('m, 'x) packing_error, unit) result" where
  "result_validate K E B self =
     and_then (catalog_validate K E B (re_catalog self)) (\<lambda>_.
     if length (re_sectors self) \<noteq> length (ct_sectors (re_catalog self)) then Err InvalidCatalog
     else check_packed B (re_catalog self) (zip (re_sectors self) (ct_sectors (re_catalog self))))"

definition slot_of_object :: "object_key \<Rightarrow> packed_slot \<Rightarrow> bool" where
  "slot_of_object object slot \<longleftrightarrow> (case slot_source slot of None \<Rightarrow> False | Some source \<Rightarrow> chunk_object (pc_id source) = object)"

fun unpack_slots :: "nat \<Rightarrow> object_key \<Rightarrow> byte list \<Rightarrow> nat \<Rightarrow> packed_slot list \<Rightarrow> (('m, 'x) packing_error, (nat \<times> byte list) list) result" where
  "unpack_slots slot_size object sector i [] = Ok []"
| "unpack_slots slot_size object sector i (slot # slots) =
     (case slot_source slot of
        None \<Rightarrow> unpack_slots slot_size object sector (Suc i) slots
      | Some source \<Rightarrow>
          if chunk_object (pc_id source) \<noteq> object then unpack_slots slot_size object sector (Suc i) slots
          else and_then (case slot of
              DataSlot _ \<Rightarrow> slice sector (i * slot_size) (i * slot_size + pc_logical_len source)
            | VirtualZero _ \<Rightarrow> Ok (zeros (pc_logical_len source))) (\<lambda>bytes.
          and_then (unpack_slots slot_size object sector (Suc i) slots) (\<lambda>rest.
          Ok ((ci_chunk_index (pc_id source), bytes) # rest))))"

fun unpack_sectors ::
    "blake3 \<Rightarrow> packed_catalog \<Rightarrow> (digest, packed_sector) btree_map \<Rightarrow> object_key \<Rightarrow> packed_sector_descriptor list
      \<Rightarrow> (('m, 'x) packing_error, (nat \<times> byte list) list) result" where
  "unpack_sectors B catalog available object [] = Ok []"
| "unpack_sectors B catalog available object (descriptor # descriptors) =
     (if \<not> (\<exists>slot \<in> set (sd_slots descriptor). slot_of_object object slot) then unpack_sectors B catalog available object descriptors
      else and_then (ok_or (map_of available (sd_id descriptor)) MissingObject) (\<lambda>sector.
        if ps_descriptor sector \<noteq> descriptor then Err InvalidCatalog
        else and_then (check_sector_bytes B catalog descriptor (ps_bytes sector)) (\<lambda>_.
        and_then (unpack_slots (pf_slot_size (ct_profile catalog)) object (ps_bytes sector) 0 (sd_slots descriptor)) (\<lambda>cs.
        and_then (unpack_sectors B catalog available object descriptors) (\<lambda>rest. Ok (cs @ rest))))))"

definition unpack_object_from_sectors ::
    "crypto \<Rightarrow> 'm packing_codec \<Rightarrow> blake3 \<Rightarrow> packed_catalog \<Rightarrow> packed_sector list \<Rightarrow> object_key \<Rightarrow> (('m, 'x) packing_error, byte list) result" where
  "unpack_object_from_sectors K E B catalog sectors object =
     and_then (catalog_validate K E B catalog) (\<lambda>_.
     let available = bmap_of (map (\<lambda>sector. (sd_id (ps_descriptor sector), sector)) sectors) in
     and_then (unpack_sectors B catalog available object (ct_sectors catalog)) (\<lambda>cs.
     if cs = [] then Err MissingObject
     else let sorted = sort_key fst cs in
       if gap (map fst sorted) then Err InvalidCatalog else Ok (concat (map snd sorted))))"

definition unpack_object ::
    "crypto \<Rightarrow> 'm packing_codec \<Rightarrow> blake3 \<Rightarrow> packing_result \<Rightarrow> object_key \<Rightarrow> (('m, 'x) packing_error, byte list) result" where
  "unpack_object K E B packed object =
     and_then (result_validate K E B packed) (\<lambda>_. unpack_object_from_sectors K E B (re_catalog packed) (re_sectors packed) object)"

section \<open>The chunks of an object\<close>

definition chunk_at :: "nat \<Rightarrow> byte list \<Rightarrow> nat \<times> packed_slot \<Rightarrow> nat \<times> byte list" where
  "chunk_at slot_size sector = (\<lambda>(i, slot). case slot of
     DataSlot s \<Rightarrow> (ci_chunk_index (pc_id s), sub sector (i * slot_size) (pc_logical_len s))
   | VirtualZero (Some s) \<Rightarrow> (ci_chunk_index (pc_id s), zeros (pc_logical_len s))
   | VirtualZero None \<Rightarrow> (0, []))"

definition slot_chunks :: "nat \<Rightarrow> object_key \<Rightarrow> byte list \<Rightarrow> nat \<Rightarrow> packed_slot list \<Rightarrow> (nat \<times> byte list) list" where
  "slot_chunks slot_size object sector i slots =
     map (chunk_at slot_size sector) (filter (\<lambda>(_, slot). slot_of_object object slot) (enumerate i slots))"

text \<open>Reading the slots of a sector of the right size stays within its bytes.\<close>

lemma unpack_slots_eq:
  assumes "(i + length slots) * slot_size \<le> length sector" "\<And>s. s \<in> set (sources slots) \<Longrightarrow> pc_logical_len s \<le> slot_size"
  shows "unpack_slots slot_size object sector i slots = (Ok (slot_chunks slot_size object sector i slots) :: (('m, 'x) packing_error, _) result)"
  using assms
proof (induction slots arbitrary: i)
  case (Cons slot slots)
  have IH: "unpack_slots slot_size object sector (Suc i) slots = (Ok (slot_chunks slot_size object sector (Suc i) slots) :: (('m, 'x) packing_error, _) result)"
    by (rule Cons.IH, use Cons.prems(1) in simp, rule Cons.prems(2)) (simp split: option.splits)
  show ?case
  proof (cases "slot_source slot")
    case None
    then show ?thesis using IH by (simp add: slot_chunks_def slot_of_object_def)
  next
    case (Some s)
    have "s \<in> set (sources (slot # slots))" using Some by (simp add: sources_Cons)
    then have "pc_logical_len s \<le> slot_size" by (rule Cons.prems(2))
    then have "i * slot_size + pc_logical_len s \<le> length sector" using Cons.prems(1) by (simp add: algebra_simps)
    then have "slice sector (i * slot_size) (i * slot_size + pc_logical_len s) = (Ok (sub sector (i * slot_size) (pc_logical_len s)) :: (('m, 'x) packing_error, _) result)"
      by (simp add: slice_eq)
    then show ?thesis using IH Some
      by (cases slot rule: slot_source.cases) (simp_all add: slot_chunks_def slot_of_object_def chunk_at_def)
  qed
qed (simp add: slot_chunks_def)

definition served :: "(digest, packed_sector) btree_map \<Rightarrow> packed_sector_descriptor \<Rightarrow> byte list" where
  "served available d = (case map_of available (sd_id d) of None \<Rightarrow> [] | Some sector \<Rightarrow> ps_bytes sector)"

definition holds_object :: "object_key \<Rightarrow> packed_sector_descriptor \<Rightarrow> bool" where
  "holds_object object d \<longleftrightarrow> (\<exists>slot \<in> set (sd_slots d). slot_of_object object slot)"

lemma slot_chunks_Nil: "\<not> holds_object object d \<Longrightarrow> slot_chunks slot_size object sector i (sd_slots d) = []"
  by (auto simp: slot_chunks_def holds_object_def filter_empty_conv in_set_enumerate_eq)

lemma check_sector_bytes_OkD:
  assumes "check_sector_bytes B catalog d bytes = (Ok () :: (('m, 'x) packing_error, _) result)"
  shows "length bytes = pf_sector_size (ct_profile catalog)" "merkle_commit B bytes = Ok (sd_commitment d)"
  using assms by (auto simp: check_sector_bytes_def and_then_Ok_iff map_err_Ok_iff split: if_splits)

text \<open>A descriptor of the catalog as unpacking sees it.\<close>

definition readable :: "packed_catalog \<Rightarrow> packed_sector_descriptor \<Rightarrow> bool" where
  "readable c d \<longleftrightarrow> length (sd_slots d) * pf_slot_size (ct_profile c) = pf_sector_size (ct_profile c)
     \<and> (\<forall>s \<in> set (sources (sd_slots d)). pc_logical_len s \<le> pf_slot_size (ct_profile c))"

lemma catalog_readable:
  assumes "catalog_validate K E B c = (Ok () :: (('m, 'x) packing_error, _) result)" "d \<in> set (ct_sectors c)"
  shows "readable c d"
proof -
  note v = catalog_validate_OkD [OF assms(1)]
  obtain h b where p: "b \<le> h" "pf_sector_size (ct_profile c) = 2 ^ h * 16" "pf_slot_size (ct_profile c) = 2 ^ b * 16"
    "pf_sector_size (ct_profile c) div pf_slot_size (ct_profile c) = 2 ^ (h - b)"
    using v(1) by (rule packing_profile_OkE)
  obtain j where "j < length (ct_sectors c)" "d = ct_sectors c ! j" using assms(2) by (auto simp: in_set_conv_nth)
  then have "length (sd_slots d) = 2 ^ (h - b)" using v(3) p(4) by (auto simp: catalog_ok_def descriptor_ok_def)
  moreover have "2 ^ (h - b) * (2 ^ b * 16) = 2 ^ h * (16 :: nat)" using p(1) by (simp flip: power_add mult.assoc)
  moreover have "pc_logical_len s \<le> pf_slot_size (ct_profile c)" if "s \<in> set (sources (sd_slots d))" for s
    using that assms(2) v(3) by (auto simp: catalog_ok_def source_ok_def in_sources)
  ultimately show ?thesis using p by (simp add: readable_def)
qed

lemma unpack_sectors_OkD:
  assumes "unpack_sectors B c available object ds = (Ok cs :: (('m, 'x) packing_error, _) result)" "\<And>d. d \<in> set ds \<Longrightarrow> readable c d"
  shows "cs = concat (map (\<lambda>d. slot_chunks (pf_slot_size (ct_profile c)) object (served available d) 0 (sd_slots d)) ds)
    \<and> (\<forall>d \<in> set ds. holds_object object d \<longrightarrow> (\<exists>sector. map_of available (sd_id d) = Some sector \<and> ps_descriptor sector = d
        \<and> length (ps_bytes sector) = pf_sector_size (ct_profile c) \<and> merkle_commit B (ps_bytes sector) = Ok (sd_commitment d)))"
  using assms
proof (induction ds arbitrary: cs)
  case (Cons d ds)
  let ?ss = "pf_slot_size (ct_profile c)"
  show ?case
  proof (cases "holds_object object d")
    case False
    then have "unpack_sectors B c available object ds = (Ok cs :: (('m, 'x) packing_error, _) result)"
      using Cons.prems(1) by (auto simp: holds_object_def)
    then show ?thesis using Cons.IH [of cs] Cons.prems(2) False slot_chunks_Nil [OF False] by simp
  next
    case True
    then obtain sector cs1 cs2 where s: "map_of available (sd_id d) = Some sector" "ps_descriptor sector = d"
      "check_sector_bytes B c d (ps_bytes sector) = (Ok () :: (('m, 'x) packing_error, _) result)"
      "unpack_slots ?ss object (ps_bytes sector) 0 (sd_slots d) = (Ok cs1 :: (('m, 'x) packing_error, _) result)"
      "unpack_sectors B c available object ds = (Ok cs2 :: (('m, 'x) packing_error, _) result)" "cs = cs1 @ cs2"
      using Cons.prems(1) by (auto simp: holds_object_def and_then_Ok_iff ok_or_iff split: if_splits)
    note b = check_sector_bytes_OkD [OF s(3)]
    have "readable c d" using Cons.prems(2) by simp
    then have "cs1 = slot_chunks ?ss object (ps_bytes sector) 0 (sd_slots d)"
      using unpack_slots_eq [of 0 "sd_slots d" ?ss "ps_bytes sector" object, where ?'m = 'm and ?'x = 'x] s(4) b(1) by (simp add: readable_def)
    then show ?thesis using Cons.IH [OF s(5)] Cons.prems(2) s(1,2,6) b by (simp add: served_def)
  qed
qed simp

lemma panic_free_unpack_sectors:
  assumes "\<And>d. d \<in> set ds \<Longrightarrow> readable c d"
  shows "panic_free (unpack_sectors B c available object ds :: (('m, 'x) packing_error, _) result)"
  using assms
proof (induction ds)
  case (Cons d ds)
  have "panic_free (unpack_slots (pf_slot_size (ct_profile c)) object bytes 0 (sd_slots d) :: (('m, 'x) packing_error, _) result)"
    if "check_sector_bytes B c d bytes = (Ok () :: (('m, 'x) packing_error, _) result)" for bytes
    using Cons.prems [of d] check_sector_bytes_OkD(1) [OF that] by (subst unpack_slots_eq) (auto simp: readable_def)
  moreover have "panic_free (check_sector_bytes B c d bytes :: (('m, 'x) packing_error, _) result)" for bytes
    by (auto simp: check_sector_bytes_def)
  ultimately show ?case using Cons by auto
qed simp

lemma panic_free_check_slot_bytes:
  assumes "(i + length slots) * slot_size \<le> length packed" "\<And>s. s \<in> set (sources slots) \<Longrightarrow> pc_logical_len s \<le> slot_size"
  shows "panic_free (check_slot_bytes B slot_size packed i slots :: (('m, 'x) packing_error, _) result)"
  using assms
proof (induction slots arbitrary: i)
  case (Cons slot slots)
  have IH: "panic_free (check_slot_bytes B slot_size packed (Suc i) slots :: (('m, 'x) packing_error, _) result)"
    by (rule Cons.IH, use Cons.prems(1) in simp, rule Cons.prems(2)) (simp split: option.splits)
  have len: "Suc i * slot_size \<le> length packed" using Cons.prems(1) by (simp add: algebra_simps)
  then have s: "slice packed (i * slot_size) (Suc i * slot_size) = (Ok (sub packed (i * slot_size) slot_size) :: (('m, 'x) packing_error, _) result)"
    by (simp add: slice_eq)
  have "length (sub packed (i * slot_size) slot_size) = slot_size" using len by simp
  moreover have "pc_logical_len source \<le> slot_size" if "slot_source slot = Some source" for source
    by (rule Cons.prems(2)) (simp add: that)
  ultimately show ?case using IH s by (cases slot rule: slot_source.cases) (auto simp: slice_eq)
qed simp

lemma panic_free_check_packed:
  assumes "\<And>p d. (p, d) \<in> set xs \<Longrightarrow> readable c d"
  shows "panic_free (check_packed B c xs :: (('m, 'x) packing_error, _) result)"
  using assms
proof (induction xs)
  case (Cons x xs)
  obtain p d where x: "x = (p, d)" by force
  have "panic_free (check_slot_bytes B (pf_slot_size (ct_profile c)) bytes 0 (sd_slots d) :: (('m, 'x) packing_error, _) result)"
    if "check_sector_bytes B c d bytes = (Ok () :: (('m, 'x) packing_error, _) result)" for bytes
    using Cons.prems [of p d] check_sector_bytes_OkD(1) [OF that] x by (intro panic_free_check_slot_bytes) (auto simp: readable_def)
  moreover have "panic_free (check_sector_bytes B c d bytes :: (('m, 'x) packing_error, _) result)" for bytes
    by (auto simp: check_sector_bytes_def)
  moreover have "panic_free (check_packed B c xs :: (('m, 'x) packing_error, _) result)" using Cons by auto
  ultimately show ?case using x by auto
qed simp

lemma panic_free_result_validate:
  fixes E :: "'m packing_codec"
  shows "panic_free (result_validate K E B r :: (('m, 'x) packing_error, _) result)"
  unfolding result_validate_def
  by (auto intro!: panic_free_check_packed catalog_readable dest: set_zip_rightD)

lemma panic_free_unpack_object_from_sectors:
  fixes E :: "'m packing_codec"
  shows "panic_free (unpack_object_from_sectors K E B catalog sectors object :: (('m, 'x) packing_error, _) result)"
  unfolding unpack_object_from_sectors_def Let_def
  by (auto intro!: panic_free_unpack_sectors dest: catalog_readable)

section \<open>Properties\<close>

text \<open>C24: Nothing that is read can make the packing code panic. Validation of a packed catalog and of a packing result,
  and the recovery of any object from them, return a value or an error on every input, whatever the catalog, the
  descriptors, the slots, the proofs and the sector bytes are: the indexing into the proofs, the slices of the sectors
  and the arithmetic on sizes are all guarded by the checks before them.\<close>

theorem packing_reads_never_panic:
  fixes E :: "'m packing_codec"
  shows "panic_free (catalog_validate K E B catalog :: (('m, 'x) packing_error, _) result)
    \<and> panic_free (result_validate K E B packed :: (('m, 'x) packing_error, _) result)
    \<and> panic_free (unpack_object_from_sectors K E B catalog sectors object :: (('m, 'x) packing_error, _) result)
    \<and> panic_free (unpack_object K E B packed object :: (('m, 'x) packing_error, _) result)"
  unfolding unpack_object_def
  by (auto intro!: panic_free_result_validate panic_free_unpack_object_from_sectors)

text \<open>A successful recovery, taken apart.\<close>

lemma unpack_OkE:
  assumes "unpack_object_from_sectors K E B c sectors object = (Ok bytes :: (('m, 'x) packing_error, _) result)"
  obtains available cs where
    "available = bmap_of (map (\<lambda>sector. (sd_id (ps_descriptor sector), sector)) sectors)"
    "catalog_validate K E B c = (Ok () :: (('m, 'x) packing_error, _) result)"
    "cs = concat (map (\<lambda>d. slot_chunks (pf_slot_size (ct_profile c)) object (served available d) 0 (sd_slots d)) (ct_sectors c))"
    "\<And>d. d \<in> set (ct_sectors c) \<Longrightarrow> holds_object object d \<Longrightarrow> \<exists>sector \<in> set sectors. ps_bytes sector = served available d
       \<and> length (served available d) = pf_sector_size (ct_profile c) \<and> merkle_commit B (served available d) = Ok (sd_commitment d)"
    "cs \<noteq> []" "\<not> gap (map fst (sort_key fst cs))" "bytes = concat (map snd (sort_key fst cs))"
proof -
  define available where "available = bmap_of (map (\<lambda>sector. (sd_id (ps_descriptor sector), sector)) sectors)"
  obtain cs where cs: "catalog_validate K E B c = (Ok () :: (('m, 'x) packing_error, _) result)"
    "unpack_sectors B c available object (ct_sectors c) = (Ok cs :: (('m, 'x) packing_error, _) result)"
    "cs \<noteq> []" "\<not> gap (map fst (sort_key fst cs))" "bytes = concat (map snd (sort_key fst cs))"
    using assms unfolding unpack_object_from_sectors_def available_def [symmetric] Let_def
    by (auto simp: and_then_Ok_iff split: if_splits)
  note u = unpack_sectors_OkD [OF cs(2) catalog_readable [OF cs(1)]]
  have mem: "sector \<in> set sectors" if "map_of available i = Some sector" for i sector
    using that unfolding available_def map_of_bmap_of by (auto dest: map_of_SomeD)
  show ?thesis
  proof (rule that [OF available_def cs(1) _ _ cs(3-5)])
    show "\<exists>sector \<in> set sectors. ps_bytes sector = served available d \<and> length (served available d) = pf_sector_size (ct_profile c)
        \<and> merkle_commit B (served available d) = Ok (sd_commitment d)" if "d \<in> set (ct_sectors c)" "holds_object object d" for d
      using u that mem by (fastforce simp: served_def)
  qed (use u in blast)
qed

definition sector_queries :: "blake3 \<Rightarrow> packed_sector list \<Rightarrow> (string \<times> byte list) set" where
  "sector_queries B sectors = (\<Union>sector \<in> set sectors. set (commit_queries B (ps_bytes sector)))"

text \<open>C11: Recovery does not depend on who serves the sectors. Two successful recoveries of the same object of the same
  catalog, from any two collections of sectors, give the same bytes, unless BLAKE3 has a collision among the
  inputs hashed while committing to the two collections.\<close>

theorem unpack_agrees:
  assumes "unpack_object_from_sectors K E B c sectors object = (Ok bytes :: (('m, 'x) packing_error, _) result)"
    and "unpack_object_from_sectors K E B c sectors' object = (Ok bytes' :: (('m, 'x) packing_error, _) result)"
    and cf: "collision_free B (sector_queries B sectors \<union> sector_queries B sectors')"
  shows "bytes = bytes'"
proof -
  let ?Q = "sector_queries B sectors \<union> sector_queries B sectors'" and ?ss = "pf_slot_size (ct_profile c)"
  obtain available cs where u: "cs = concat (map (\<lambda>d. slot_chunks ?ss object (served available d) 0 (sd_slots d)) (ct_sectors c))"
    "\<And>d. d \<in> set (ct_sectors c) \<Longrightarrow> holds_object object d \<Longrightarrow> \<exists>sector \<in> set sectors. ps_bytes sector = served available d
       \<and> length (served available d) = pf_sector_size (ct_profile c) \<and> merkle_commit B (served available d) = Ok (sd_commitment d)"
    "bytes = concat (map snd (sort_key fst cs))"
    by (rule unpack_OkE [OF assms(1)]) blast
  obtain available' cs' where u': "cs' = concat (map (\<lambda>d. slot_chunks ?ss object (served available' d) 0 (sd_slots d)) (ct_sectors c))"
    "\<And>d. d \<in> set (ct_sectors c) \<Longrightarrow> holds_object object d \<Longrightarrow> \<exists>sector \<in> set sectors'. ps_bytes sector = served available' d
       \<and> length (served available' d) = pf_sector_size (ct_profile c) \<and> merkle_commit B (served available' d) = Ok (sd_commitment d)"
    "bytes' = concat (map snd (sort_key fst cs'))"
    by (rule unpack_OkE [OF assms(2)]) blast
  have "slot_chunks ?ss object (served available d) 0 (sd_slots d) = slot_chunks ?ss object (served available' d) 0 (sd_slots d)"
    if d: "d \<in> set (ct_sectors c)" for d
  proof (cases "holds_object object d")
    case True
    have "served available d = served available' d"
    proof (rule merkle_commit_inj [OF cf])
      show "set (commit_queries B (served available d)) \<subseteq> ?Q" using u(2) [OF d True] by (force simp: sector_queries_def)
      show "set (commit_queries B (served available' d)) \<subseteq> ?Q" using u'(2) [OF d True] by (force simp: sector_queries_def)
    qed (use u(2) u'(2) d True in blast)+
    then show ?thesis by simp
  qed (simp add: slot_chunks_Nil)
  then have "cs = cs'" unfolding u(1) u'(1) by (metis (no_types, lifting) map_eq_conv)
  then show ?thesis using u(3) u'(3) by simp
qed

end
