(* ===== verification/Packing_Authenticated.thy ===== *)
theory Packing_Authenticated
  imports Packing_Unpack
begin

text \<open>
  Source authentication of packed catalogs (versions two to five of \<open>src/crates/mb-core/src/packing.rs\<close>): the bytes
  recovered for an object are those its owner committed to, whoever built the catalog and whoever serves the sectors.
\<close>

section \<open>The roots that a catalog names\<close>

definition authentication_of :: "packed_catalog \<Rightarrow> packed_source_authentication list" where
  "authentication_of c = (case ct_source_authentication c of None \<Rightarrow> [] | Some entries \<Rightarrow> entries)"

definition zero_root :: "blake3 \<Rightarrow> packed_catalog \<Rightarrow> digest" where
  "zero_root B c = tree_root B (ilog2 (pf_slot_size (ct_profile c) div 16)) (leaf_digests B (zeros (pf_slot_size (ct_profile c))))"

definition named_root :: "blake3 \<Rightarrow> packed_catalog \<Rightarrow> packed_slot \<Rightarrow> digest" where
  "named_root B c slot =
     (case slot_source slot of
        None \<Rightarrow> zero_root B c
      | Some s \<Rightarrow> (case map_of (map (\<lambda>e. (au_id e, e)) (authentication_of c)) (pc_id s) of
          None \<Rightarrow> zero_root B c
        | Some e \<Rightarrow> sp_subtree_root (au_proof e)))"

definition descriptor_roots :: "blake3 \<Rightarrow> packed_catalog \<Rightarrow> packed_sector_descriptor \<Rightarrow> digest list" where
  "descriptor_roots B c d = map (named_root B c) (sd_slots d)"

text \<open>What validation has checked of one slot.\<close>

definition slot_authentic :: "blake3 \<Rightarrow> packed_catalog \<Rightarrow> packed_slot \<Rightarrow> bool" where
  "slot_authentic B c slot \<longleftrightarrow> (\<forall>s. slot_source slot = Some s \<longrightarrow> pc_logical_len s = pf_slot_size (ct_profile c)
     \<and> (\<exists>e \<in> set (authentication_of c). au_id e = pc_id s \<and> entry_ok B (ct_profile c) e \<and> named_root B c slot = sp_subtree_root (au_proof e))
     \<and> (slot = VirtualZero (Some s) \<longrightarrow> named_root B c slot = zero_root B c))"

lemma slot_root_OkD:
  assumes "slot_root (ct_profile c) proofs (zero_root B c) slot = (Ok r :: (('m, 'x) packing_error, _) result)"
    and "map_of proofs = map_of (map (\<lambda>e. (au_id e, e)) (authentication_of c))" "\<forall>e \<in> set (authentication_of c). entry_ok B (ct_profile c) e"
  shows "r = named_root B c slot \<and> slot_authentic B c slot"
proof (cases "slot_source slot")
  case None
  then show ?thesis using assms(1) by (cases slot rule: slot_source.cases) (auto simp: slot_root_def named_root_def slot_authentic_def)
next
  case (Some s)
  obtain e where e: "map_of (map (\<lambda>e. (au_id e, e)) (authentication_of c)) (pc_id s) = Some e"
    "pc_logical_len s = pf_slot_size (ct_profile c)" "r = sp_subtree_root (au_proof e)" "slot = VirtualZero (Some s) \<longrightarrow> r = zero_root B c"
    using assms(1,2) Some by (cases slot rule: slot_source.cases) (auto simp: slot_root_def and_then_Ok_iff expect_iff split: if_splits)
  have "e \<in> set (authentication_of c)" "au_id e = pc_id s" using map_of_SomeD [OF e(1)] by auto
  then show ?thesis using Some e assms(3) by (auto simp: named_root_def slot_authentic_def)
qed

lemma zero_root_eq:
  assumes "pf_slot_size (ct_profile c) = 2 ^ b * 16" "b \<le> 18"
    and "merkle_open_subtree B (zeros (pf_slot_size (ct_profile c))) 0 (pf_slot_size (ct_profile c) div 16) = Ok z"
  shows "sp_subtree_root z = zero_root B c"
proof -
  let ?z = "zeros (pf_slot_size (ct_profile c))"
  have "\<not> bad_range (0 * 2 ^ b) (2 ^ b) (2 ^ b)" using assms(2) by (intro good_rangeI) auto
  then have range: "\<not> bad_range 0 (2 ^ b) (2 ^ b)" by simp
  have v: "validate_data_len (length ?z) = Ok ()" using assms(1,2) by (auto simp: validate_data_len_iff)
  have len: "length ?z = 2 ^ b * 16" using assms(1) by simp
  have ds: "sub (leaf_digests B ?z) 0 (2 ^ b) = leaf_digests B ?z" using length_leaf_digests [OF len, of B] by (simp add: sub_def)
  have "pf_slot_size (ct_profile c) div 16 = 2 ^ b" using assms(1) by simp
  then show ?thesis using open_subtree_eq [OF len v range, of B] assms(3) ds unfolding zero_root_def by auto
qed

lemma validated_roots:
  assumes "catalog_validate K E B c = (Ok () :: (('m, 'x) packing_error, _) result)" "2 \<le> ct_format_version c" "d \<in> set (ct_sectors c)"
  shows "merkle_commit_subtrees B (pf_sector_size (ct_profile c)) (pf_slot_size (ct_profile c)) (descriptor_roots B c d) = Ok (sd_commitment d)
    \<and> (\<forall>slot \<in> set (sd_slots d). slot_authentic B c slot)"
proof -
  note v = catalog_validate_OkD [OF assms(1)]
  obtain h b where p: "h \<le> 18" "b \<le> h" "pf_slot_size (ct_profile c) = 2 ^ b * 16" using v(1) by (rule packing_profile_OkE)
  obtain source_ids where "validate_source_authentication B c source_ids = (Ok () :: (('m, 'x) packing_error, _) result)"
    using v(4) assms(2) by blast
  then obtain proofs z where a: "ct_source_authentication c = Some (authentication_of c)"
    "collect_proofs B (ct_profile c) (authentication_of c) [] = (Ok proofs :: (('m, 'x) packing_error, _) result)"
    "merkle_open_subtree B (zeros (pf_slot_size (ct_profile c))) 0 (pf_slot_size (ct_profile c) div 16) = Ok z"
    "check_commitments B (ct_profile c) proofs (sp_subtree_root z) (ct_sectors c) = (Ok () :: (('m, 'x) packing_error, _) result)"
    unfolding validate_source_authentication_def authentication_of_def
    by (auto simp: and_then_Ok_iff ok_or_iff map_err_Ok_iff split: if_splits)
  have z: "sp_subtree_root z = zero_root B c" by (rule zero_root_eq [OF p(3) _ a(3)]) (use p in simp)
  note proofs = collect_proofs_OkD [OF a(2), simplified]
  obtain roots where r: "slot_roots (ct_profile c) proofs (zero_root B c) (sd_slots d) = (Ok roots :: (('m, 'x) packing_error, _) result)"
    "merkle_commit_subtrees B (pf_sector_size (ct_profile c)) (pf_slot_size (ct_profile c)) roots = Ok (sd_commitment d)"
    using check_commitments_OkD [OF a(4) assms(3)] z by auto
  have at: "roots ! i = named_root B c (sd_slots d ! i) \<and> slot_authentic B c (sd_slots d ! i)" if "i < length (sd_slots d)" for i
    using slot_roots_OkD [OF r(1)] that proofs by (intro slot_root_OkD [where proofs = proofs]) auto
  then have "roots = descriptor_roots B c d"
    using slot_roots_OkD [OF r(1)] by (auto simp: descriptor_roots_def intro: nth_equalityI)
  then show ?thesis using r(2) at by (auto simp: in_set_conv_nth)
qed

section \<open>The bytes of a slot\<close>

definition descriptor_queries :: "blake3 \<Rightarrow> packed_catalog \<Rightarrow> packed_sector_descriptor \<Rightarrow> (string \<times> byte list) list" where
  "descriptor_queries B c d =
     (let roots = descriptor_roots B c d; k = ilog2 (length roots) in
      tree_queries B k roots @ [root_query (pf_sector_size (ct_profile c)) (tree_root B k roots)])"

text \<open>The hash inputs of validation, of committing to the source and of committing to a run of zeros.\<close>

definition authentication_queries :: "blake3 \<Rightarrow> packed_catalog \<Rightarrow> byte list \<Rightarrow> (string \<times> byte list) set" where
  "authentication_queries B c original =
     set (commit_queries B original) \<union> set (commit_queries B (zeros (pf_slot_size (ct_profile c))))
     \<union> (\<Union>e \<in> set (authentication_of c). set (verify_subtree_queries B (pf_sector_size (ct_profile c)) (au_proof e)))
     \<union> (\<Union>d \<in> set (ct_sectors c). set (descriptor_queries B c d))"

text \<open>The roots a catalog names for a sector are the roots that the bytes of the sector have.\<close>

lemma named_roots_of_bytes:
  assumes "catalog_validate K E B c = (Ok () :: (('m, 'x) packing_error, _) result)" "2 \<le> ct_format_version c" "d \<in> set (ct_sectors c)"
    and "pf_sector_size (ct_profile c) = 2 ^ (k + b) * 16" "pf_slot_size (ct_profile c) = 2 ^ b * 16"
    and "merkle_commit B bs = Ok (sd_commitment d)" "length bs = pf_sector_size (ct_profile c)"
    and cf: "collision_free B Q" "set (commit_queries B bs) \<subseteq> Q" "authentication_queries B c original \<subseteq> Q"
    and "j < length (sd_slots d)"
  shows "named_root B c (sd_slots d ! j) = tree_root B b (sub (leaf_digests B bs) (j * 2 ^ b) (2 ^ b))" "j < 2 ^ k"
proof -
  let ?roots = "descriptor_roots B c d" and ?ds = "leaf_digests B bs"
  have len: "length bs = 2 ^ (k + b) * 16" using assms(4,7) by simp
  note sub = commit_subtrees_OkD [OF conjunct1 [OF validated_roots [OF assms(1-3)]]]
  have r: "length ?roots = 2 ^ k" using sub(4) assms(4,5) by (simp add: power_add)
  then show j: "j < 2 ^ k" using assms(11) by (simp add: descriptor_roots_def)
  have "sd_commitment d = commitment_of B (length bs) (tree_root B (k + b) ?ds)"
    using assms(6) by (elim merkle_commit_OkE) (use len in simp)
  then have eq: "bind_root B (length bs) (tree_root B k ?roots) = bind_root B (length bs) (tree_root B (k + b) ?ds)"
    using sub(5) r assms(7) by (simp add: commitment_of_def)
  have "set (descriptor_queries B c d) \<subseteq> Q" using cf(3) assms(3) by (auto simp: authentication_queries_def)
  then have q: "set (tree_queries B k ?roots) \<subseteq> Q" "root_query (length bs) (tree_root B k ?roots) \<in> Q"
    using assms(7) r by (auto simp: descriptor_queries_def Let_def)
  note qb = commit_queries_subset [OF len cf(2)]
  have "?roots ! j = tree_root B b (sub ?ds (j * 2 ^ b) (2 ^ b)) \<and> set (tree_queries B b (sub ?ds (j * 2 ^ b) (2 ^ b))) \<subseteq> Q"
    by (rule subtree_roots_bound [OF cf(1) r _ q(1) qb(2) bind_root_inj [OF cf(1) q(2) qb(3) eq] j]) (rule length_leaf_digests [OF len])
  then show "named_root B c (sd_slots d ! j) = tree_root B b (sub ?ds (j * 2 ^ b) (2 ^ b))"
    using assms(11) by (simp add: descriptor_roots_def)
qed

text \<open>The proof of a source chunk names the root that the source itself has there.\<close>

lemma entry_root_of_source:
  assumes "entry_ok B profile e" "pf_sector_size profile = 2 ^ (k + b) * 16" "pf_slot_size profile = 2 ^ b * 16"
    and "merkle_commit B original = Ok (au_source_commitment e)"
    and "collision_free B Q" "set (commit_queries B original) \<subseteq> Q" "set (verify_subtree_queries B (pf_sector_size profile) (au_proof e)) \<subseteq> Q"
  shows "sp_subtree_root (au_proof e) = tree_root B b (sub (leaf_digests B original) (ci_chunk_index (au_id e) * 2 ^ b) (2 ^ b))"
    "ci_chunk_index (au_id e) < 2 ^ k" "length original = 2 ^ (k + b) * 16"
proof -
  let ?p = "au_proof e" and ?ci = "ci_chunk_index (au_id e)"
  have e: "mc_byte_len (au_source_commitment e) = 2 ^ (k + b) * 16" "sp_start_leaf ?p = ?ci * 2 ^ b" "sp_leaf_count ?p = 2 ^ b"
    using assms(1-3) by (auto simp: entry_ok_def)
  obtain r where r: "merkle_verify_subtree B (au_source_commitment e) ?p = Ok r" using assms(1) by (auto simp: entry_ok_def)
  show len: "length original = 2 ^ (k + b) * 16"
    using assms(4) e(1) by (elim merkle_commit_OkE) (simp add: commitment_of_def)
  have v: "validate_data_len (length original) = Ok ()" using assms(4) by (auto simp: merkle_commit_def and_then_Ok_iff)
  have "collision_free B (set (commit_queries B original) \<union> set (verify_subtree_queries B (length original) ?p))"
    using assms(2,6,7) len by (intro collision_free_mono [OF assms(5)]) simp
  from merkle_verify_subtree_sound [OF assms(4) r this]
  obtain q where q: "merkle_open_subtree B original (?ci * 2 ^ b) (2 ^ b) = Ok q" "sp_subtree_root q = r" using e by auto
  have range: "\<not> bad_range (?ci * 2 ^ b) (2 ^ b) (2 ^ (k + b))"
    using q(1) v len by (auto simp: merkle_open_subtree_def split: if_splits)
  then show "?ci < 2 ^ k" by (rule good_rangeE) auto
  have "r = sp_subtree_root ?p" using r by (auto simp: merkle_verify_subtree_def Let_def and_then_Ok_iff split: if_splits)
  then show "sp_subtree_root ?p = tree_root B b (sub (leaf_digests B original) (?ci * 2 ^ b) (2 ^ b))"
    using open_subtree_eq [OF len v range, of B] q by auto
qed

text \<open>One slot of the object, as unpacking reads it.\<close>

lemma authentic_chunk:
  assumes valid: "catalog_validate K E B c = (Ok () :: (('m, 'x) packing_error, _) result)" "2 \<le> ct_format_version c" "d \<in> set (ct_sectors c)"
    and size: "pf_sector_size (ct_profile c) = 2 ^ (k + b) * 16" "pf_slot_size (ct_profile c) = 2 ^ b * 16"
    and bs: "merkle_commit B bs = Ok (sd_commitment d)" "length bs = pf_sector_size (ct_profile c)"
    and cf: "collision_free B Q" "set (commit_queries B bs) \<subseteq> Q" "authentication_queries B c original \<subseteq> Q"
    and j: "j < length (sd_slots d)" "slot_source (sd_slots d ! j) = Some s"
    and source: "merkle_commit B original = Ok cm" "\<forall>e \<in> set (authentication_of c). chunk_object (au_id e) = chunk_object (pc_id s) \<longrightarrow> au_source_commitment e = cm"
  shows "chunk_at (2 ^ b * 16) bs (j, sd_slots d ! j) = (ci_chunk_index (pc_id s), sub original (ci_chunk_index (pc_id s) * (2 ^ b * 16)) (2 ^ b * 16))
    \<and> ci_chunk_index (pc_id s) < 2 ^ k \<and> length original = 2 ^ (k + b) * 16"
proof -
  let ?slot = "sd_slots d ! j" and ?ci = "ci_chunk_index (pc_id s)" and ?ss = "2 ^ b * 16 :: nat"
  have "slot_authentic B c ?slot" using validated_roots [OF valid] j(1) by simp
  then obtain e where e: "pc_logical_len s = ?ss" "e \<in> set (authentication_of c)" "au_id e = pc_id s" "entry_ok B (ct_profile c) e"
    "named_root B c ?slot = sp_subtree_root (au_proof e)" "?slot = VirtualZero (Some s) \<Longrightarrow> named_root B c ?slot = zero_root B c"
    using j(2) size(2) by (auto simp: slot_authentic_def)
  have q: "set (commit_queries B original) \<subseteq> Q" "set (commit_queries B (zeros ?ss)) \<subseteq> Q"
    "set (verify_subtree_queries B (pf_sector_size (ct_profile c)) (au_proof e)) \<subseteq> Q"
    using cf(3) e(2) size(2) by (auto simp: authentication_queries_def)
  have "au_source_commitment e = cm" using source(2) e(2,3) by simp
  note o = entry_root_of_source [OF e(4) size _ cf(1) q(1,3), unfolded \<open>au_source_commitment e = cm\<close> e(3), OF source(1)]
  note n = named_roots_of_bytes [OF valid size bs cf j(1)]
  show ?thesis
  proof (cases "?slot = VirtualZero (Some s)")
    case True
    have "sub (zeros ?ss) (0 * ?ss) ?ss = sub original (?ci * ?ss) ?ss"
    proof (rule subtree_bytes_inj [OF cf(1) _ o(3) q(2,1) _ o(2)])
      have "length (leaf_digests B (zeros ?ss)) = 2 ^ b" by (rule length_leaf_digests) simp
      then show "tree_root B b (sub (leaf_digests B (zeros ?ss)) (0 * 2 ^ b) (2 ^ b)) = tree_root B b (sub (leaf_digests B original) (?ci * 2 ^ b) (2 ^ b))"
        using e(5,6) True o(1) size(2) by (simp add: zero_root_def sub_def)
    qed (simp_all add: power_0 [symmetric])
    then show ?thesis using True e(1) o(2,3) by (simp add: chunk_at_def sub_def)
  next
    case False
    then have "?slot = DataSlot s" using j(2) by (cases ?slot rule: slot_source.cases) auto
    moreover have "sub bs (j * ?ss) ?ss = sub original (?ci * ?ss) ?ss"
      by (rule subtree_bytes_inj [OF cf(1) _ o(3) cf(2) q(1) n(2) o(2)]) (use bs(2) size(1) n(1) e(5) o(1) in simp_all)
    ultimately show ?thesis using e(1) o(2,3) by (simp add: chunk_at_def)
  qed
qed

section \<open>The bytes of an object\<close>

lemma concat_blocks: "n * m \<le> length xs \<Longrightarrow> concat (map (\<lambda>i. sub xs (i * m) m) [0..<n]) = take (n * m) xs"
proof (induction n)
  case (Suc n)
  then show ?case using take_add [of "n * m" m xs] by (simp add: sub_def add.commute)
qed simp

lemma not_gap: "\<not> gap cs \<longleftrightarrow> (\<forall>i < length cs. cs ! i = i mod 2 ^ 32)"
  by (auto simp: gap_def in_set_enumerate_eq)

text \<open>Chunks of a source that pass the order check are a prefix of the source.\<close>

lemma ordered_chunks:
  assumes "\<not> gap (map fst cs)" "\<And>ci bs. (ci, bs) \<in> set cs \<Longrightarrow> ci < 2 ^ k \<and> bs = sub xs (ci * m) m" "2 ^ k * m \<le> length xs" "k < 32"
  shows "length cs \<le> 2 ^ k \<and> concat (map snd cs) = take (length cs * m) xs"
proof -
  have at: "cs ! i = (i mod 2 ^ 32, sub xs (i mod 2 ^ 32 * m) m)" "i mod 2 ^ 32 < 2 ^ k" if i: "i < length cs" for i
  proof -
    obtain ci bs where c: "cs ! i = (ci, bs)" by force
    then have "ci < 2 ^ k \<and> bs = sub xs (ci * m) m" using nth_mem [OF i] by (intro assms(2)) simp
    moreover have "fst (cs ! i) = i mod 2 ^ 32" using assms(1) i by (simp add: not_gap)
    ultimately show "cs ! i = (i mod 2 ^ 32, sub xs (i mod 2 ^ 32 * m) m)" "i mod 2 ^ 32 < 2 ^ k" using c by simp_all
  qed
  have big: "(2::nat) ^ k < 2 ^ 32" using assms(4) by (intro power_strict_increasing) auto
  have le: "length cs \<le> 2 ^ k"
  proof (rule ccontr)
    assume "\<not> length cs \<le> 2 ^ k"
    then show False using at(2) [of "2 ^ k"] big by simp
  qed
  have "map snd cs = map (\<lambda>i. sub xs (i * m) m) [0..<length cs]"
  proof (rule nth_equalityI)
    fix i assume "i < length (map snd cs)"
    then show "map snd cs ! i = map (\<lambda>i. sub xs (i * m) m) [0..<length cs] ! i" using at(1) [of i] le big by simp
  qed simp
  moreover have "length cs * m \<le> length xs" using le assms(3) by (meson mult_le_mono1 order_trans)
  ultimately show ?thesis using le concat_blocks by simp
qed

text \<open>C10: What is recovered from an authenticated catalog is what the owner committed to. Let a catalog carry, for an
  object, only the commitment that \<open>merkle_commit\<close> gives for the original bytes. Then every successful recovery of
  the object returns a non-empty run of whole slots from the start of the original, although the catalog may have been
  built by a dishonest delegate and the sectors served by dishonest peers. Needed of BLAKE3: no collision among
  the inputs hashed while committing to the original and to the sectors and while validating the catalog.\<close>

theorem unpack_authenticated:
  assumes unpack: "unpack_object_from_sectors K E B c sectors object = (Ok bytes :: (('m, 'x) packing_error, _) result)" "2 \<le> ct_format_version c"
    and original: "merkle_commit B original = Ok cm"
      "\<forall>e \<in> set (authentication_of c). chunk_object (au_id e) = object \<longrightarrow> au_source_commitment e = cm"
    and cf: "collision_free B (sector_queries B sectors \<union> authentication_queries B c original)"
  shows "\<exists>n > 0. n * pf_slot_size (ct_profile c) \<le> length original \<and> bytes = take (n * pf_slot_size (ct_profile c)) original"
proof -
  let ?Q = "sector_queries B sectors \<union> authentication_queries B c original"
  obtain available cs where u: "catalog_validate K E B c = (Ok () :: (('m, 'x) packing_error, _) result)"
    "cs = concat (map (\<lambda>d. slot_chunks (pf_slot_size (ct_profile c)) object (served available d) 0 (sd_slots d)) (ct_sectors c))"
    "\<And>d. d \<in> set (ct_sectors c) \<Longrightarrow> holds_object object d \<Longrightarrow> \<exists>sector \<in> set sectors. ps_bytes sector = served available d
       \<and> length (served available d) = pf_sector_size (ct_profile c) \<and> merkle_commit B (served available d) = Ok (sd_commitment d)"
    "cs \<noteq> []" "\<not> gap (map fst (sort_key fst cs))" "bytes = concat (map snd (sort_key fst cs))"
    by (rule unpack_OkE [OF unpack(1)]) blast
  obtain h b where p: "h \<le> 18" "b \<le> h" "pf_sector_size (ct_profile c) = 2 ^ h * 16" "pf_slot_size (ct_profile c) = 2 ^ b * 16"
    using catalog_validate_OkD(1) [OF u(1)] by (rule packing_profile_OkE)
  have size: "pf_sector_size (ct_profile c) = 2 ^ (h - b + b) * 16" using p by simp
  have chunk: "ci < 2 ^ (h - b) \<and> bs = sub original (ci * (2 ^ b * 16)) (2 ^ b * 16) \<and> length original = 2 ^ (h - b + b) * 16"
    if mem: "(ci, bs) \<in> set cs" for ci bs
  proof -
    obtain d j where d: "d \<in> set (ct_sectors c)" "j < length (sd_slots d)" "slot_of_object object (sd_slots d ! j)"
      "(ci, bs) = chunk_at (2 ^ b * 16) (served available d) (j, sd_slots d ! j)"
      using mem unfolding u(2) p(4) by (auto simp: slot_chunks_def in_set_enumerate_eq)
    have "holds_object object d" using d(2,3) by (auto simp: holds_object_def)
    from u(3) [OF d(1) this] obtain sector where s: "sector \<in> set sectors" "ps_bytes sector = served available d"
      "length (served available d) = pf_sector_size (ct_profile c)" "merkle_commit B (served available d) = Ok (sd_commitment d)" by blast
    obtain source where src: "slot_source (sd_slots d ! j) = Some source" "chunk_object (pc_id source) = object"
      using d(3) by (auto simp: slot_of_object_def split: option.splits)
    have "set (commit_queries B (served available d)) \<subseteq> ?Q" using s(1) unfolding s(2) [symmetric] by (auto simp: sector_queries_def)
    from authentic_chunk [OF u(1) unpack(2) d(1) size p(4) s(4,3) cf this _ d(2) src(1) original(1)]
    show ?thesis using d(4) src(2) original(2) by auto
  qed
  obtain ci bs where "(ci, bs) \<in> set cs" using u(4) by (cases cs) auto
  then have len: "length original = 2 ^ (h - b) * (2 ^ b * 16)" using chunk by (simp add: power_add)
  have o: "length (sort_key fst cs) \<le> 2 ^ (h - b) \<and> concat (map snd (sort_key fst cs)) = take (length (sort_key fst cs) * (2 ^ b * 16)) original"
    by (rule ordered_chunks [OF u(5)]) (use chunk len p(1) in auto)
  then have "length cs * (2 ^ b * 16) \<le> length original" unfolding len by (intro mult_le_mono1) simp
  then show ?thesis using o u(4,6) p(4) by (intro exI [of _ "length cs"]) simp
qed

section \<open>Instances\<close>

text \<open>A catalog with one sector of two slots, which hold the two chunks of one object.\<close>

definition sample_packing_codec :: "unit packing_codec" where
  "sample_packing_codec = \<lparr>enc_sector_head = \<lambda>_. ([[0]], None), enc_slot_count = \<lambda>_. ([[0]], None), enc_slot = \<lambda>_. ([[0]], None),
     enc_catalog = \<lambda>_. ([[0]], None), enc_authenticated = \<lambda>_. ([[0]], None), enc_bound = \<lambda>_. ([[0]], None),
     enc_attested = \<lambda>_. ([[0]], None), enc_binding = \<lambda>_. Inr [0], enc_attestation = \<lambda>_. Inr [0]\<rparr>"

definition sample_chunk_id :: "nat \<Rightarrow> source_chunk_id" where
  "sample_chunk_id i = SourceChunkId 1 1 1 i"

definition sample_packed_chunk :: "nat \<Rightarrow> packed_source_chunk" where
  "sample_packed_chunk i = \<lparr>pc_id = sample_chunk_id i, pc_source_offset = i * 16, pc_logical_len = 16, pc_content_hash = 9\<rparr>"

definition sample_descriptor :: packed_sector_descriptor where
  "sample_descriptor = \<lparr>sd_id = 1, sd_sector_index = 0, sd_flat_root = 5, sd_commitment = sample_commitment,
     sd_slots = [DataSlot (sample_packed_chunk 0), DataSlot (sample_packed_chunk 1)]\<rparr>"

definition sample_entry :: "nat \<Rightarrow> digest \<Rightarrow> digest \<Rightarrow> packed_source_authentication" where
  "sample_entry i root sibling = \<lparr>au_id = sample_chunk_id i, au_source_commitment = sample_commitment,
     au_proof = \<lparr>sp_format_version = 1, sp_start_leaf = i, sp_leaf_count = 1, sp_subtree_root = root, sp_siblings = [sibling]\<rparr>\<rparr>"

definition sample_packing_profile :: packing_profile where
  "sample_packing_profile = \<lparr>pf_format_version = 1, pf_sector_size = 32, pf_slot_size = 16\<rparr>"

definition sample_catalog :: packed_catalog where
  "sample_catalog = \<lparr>ct_id = 1, ct_format_version = 3, ct_revision = 1, ct_parent = None, ct_profile = sample_packing_profile,
     ct_sectors = [sample_descriptor], ct_source_authentication = Some [sample_entry 0 2 3, sample_entry 1 3 2],
     ct_legacy_bindings = None, ct_legacy_attestations = None\<rparr>"

definition sample_packed_sector :: packed_sector where
  "sample_packed_sector = \<lparr>ps_descriptor = sample_descriptor, ps_bytes = sample_shard\<rparr>"

lemma power_of_two_small: "is_power_of_two 16" "is_power_of_two 32" "is_power_of_two 1"
  using is_power_of_two_power [of 4] is_power_of_two_power [of 5] is_power_of_two_power [of 0] by simp_all

lemma sample_packing_profile_valid: "packing_profile_validate sample_packing_profile = Ok ()"
  by (simp add: packing_profile_validate_def sample_packing_profile_def power_of_two_small)

lemma sample_update: "update_canonical_hash (\<lambda>_. ([[0]], None)) hasher v = Ok (hasher @ [0])"
  by (simp add: update_canonical_hash_def serialize_with_flavor_def hash_update_extend_def)

lemma sample_descriptor_id: "descriptor_calculate_id sample_packing_codec sample_blake3 sample_descriptor profile = Ok 1"
  by (simp add: descriptor_calculate_id_def id_hasher_new_def id_hasher_push_def id_hasher_finish_def sample_packing_codec_def sample_update
      sample_descriptor_def)

lemma sample_catalog_id: "catalog_calculate_id sample_packing_codec sample_blake3 sample_catalog = Ok 1"
  by (simp add: catalog_calculate_id_def catalog_id_def sample_catalog_def sample_packing_codec_def sample_update)

lemma sample_entry_verify:
  "merkle_verify_subtree sample_blake3 sample_commitment (au_proof (sample_entry 0 2 3)) = Ok 2"
  "merkle_verify_subtree sample_blake3 sample_commitment (au_proof (sample_entry 1 3 2)) = Ok 3"
proof -
  have "\<not> bad_range 0 1 2" "\<not> bad_range 1 1 2" using good_rangeI [of 0 1 0] good_rangeI [of 0 1 1] by simp_all
  then show "merkle_verify_subtree sample_blake3 sample_commitment (au_proof (sample_entry 0 2 3)) = Ok 2"
    "merkle_verify_subtree sample_blake3 sample_commitment (au_proof (sample_entry 1 3 2)) = Ok 3"
    using sample_validate
    by (simp_all add: merkle_verify_subtree_def sample_entry_def Let_def sample_commitment_def
      commitment_of_def ilog2_small index_def hash_node_def bind_root_def)
qed

lemma sample_commit_subtrees: "merkle_commit_subtrees sample_blake3 32 16 [2, 3] = Ok sample_commitment"
  using commit_subtrees_eq [OF sample_acc_new, of "[2, 3]" sample_blake3]
  by (simp add: sample_commitment_def ilog2_small [unfolded numeral_2_eq_2] hash_node_def)

lemma sample_chunk_id_simps [simp]:
  "ci_owner (sample_chunk_id i) = 1" "ci_protected_root (sample_chunk_id i) = 1" "ci_object_id (sample_chunk_id i) = 1"
  "ci_chunk_index (sample_chunk_id i) = i" "chunk_object (sample_chunk_id i) = (1, 1, 1)"
  "sample_chunk_id i = sample_chunk_id j \<longleftrightarrow> i = j" "sample_chunk_id i < sample_chunk_id j \<longleftrightarrow> i < j" "sample_chunk_id i \<le> sample_chunk_id j \<longleftrightarrow> i \<le> j"
  by (simp_all add: sample_chunk_id_def chunk_object_def less_source_chunk_id_def less_eq_source_chunk_id_def chunk_key_def)

lemma sample_packed_chunk_simps [simp]:
  "pc_id (sample_packed_chunk i) = sample_chunk_id i" "pc_logical_len (sample_packed_chunk i) = 16" "pc_source_offset (sample_packed_chunk i) = i * 16"
  by (simp_all add: sample_packed_chunk_def)

lemma sample_entry_simps [simp]:
  "au_id (sample_entry i r s) = sample_chunk_id i" "au_source_commitment (sample_entry i r s) = sample_commitment"
  "sp_start_leaf (au_proof (sample_entry i r s)) = i" "sp_leaf_count (au_proof (sample_entry i r s)) = 1"
  "sp_subtree_root (au_proof (sample_entry i r s)) = r"
  by (simp_all add: sample_entry_def)

lemma sample_commitment_len [simp]: "mc_byte_len sample_commitment = 32"
  by (simp add: sample_commitment_def commitment_of_def)

lemma sample_catalog_simps [simp]:
  "ct_profile sample_catalog = sample_packing_profile" "ct_sectors sample_catalog = [sample_descriptor]"
  "ct_format_version sample_catalog = 3" "ct_revision sample_catalog = 1" "ct_parent sample_catalog = None" "ct_id sample_catalog = 1"
  "ct_source_authentication sample_catalog = Some [sample_entry 0 2 3, sample_entry 1 3 2]"
  "pf_sector_size sample_packing_profile = 32" "pf_slot_size sample_packing_profile = 16" "version_fields sample_catalog"
  "sd_slots sample_descriptor = [DataSlot (sample_packed_chunk 0), DataSlot (sample_packed_chunk 1)]" "sd_commitment sample_descriptor = sample_commitment"
  "sd_sector_index sample_descriptor = 0" "sd_flat_root sample_descriptor = 5" "sd_id sample_descriptor = 1"
  by (simp_all add: sample_descriptor_def sample_catalog_def sample_packing_profile_def version_fields_def)

lemma sample_collect:
  "collect_proofs sample_blake3 sample_packing_profile [sample_entry 0 2 3, sample_entry 1 3 2] []
     = Ok [(sample_chunk_id 0, sample_entry 0 2 3), (sample_chunk_id 1, sample_entry 1 3 2)]"
  by (simp add: Let_def sample_packing_profile_def checked_mul_def sample_entry_verify sample_entry_verify [unfolded One_nat_def])

lemma sample_zero_open: "\<exists>z. merkle_open_subtree sample_blake3 (zeros 16) 0 1 = Ok z"
  using open_subtree_eq [of "zeros 16" 0 0 1 sample_blake3] good_rangeI [of 0 0 0] by (auto simp: sample_data_len)

lemma sample_source_authentication:
  "validate_source_authentication sample_blake3 sample_catalog [sample_chunk_id 0, sample_chunk_id 1] = Ok ()"
proof -
  obtain z where z: "merkle_open_subtree sample_blake3 (zeros 16) 0 1 = Ok z" using sample_zero_open by blast
  show ?thesis
    using z by (simp add: validate_source_authentication_def slot_root_def sample_collect sample_commit_subtrees del: collect_proofs.simps One_nat_def)
qed

lemma sample_scan:
  "validate_sectors sample_packing_codec sample_blake3 sample_catalog 2 0 [sample_descriptor] ([], [])
     = Ok ([sample_chunk_id 0, sample_chunk_id 1], [((1, 1, 1), [0, 1])])"
  by (simp add: sample_descriptor_id sample_commitment_root Let_def bset_insert_def insort_insert_key_def)

lemma sample_catalog_valid:
  "catalog_validate sample_crypto sample_packing_codec sample_blake3 sample_catalog = (Ok () :: ((unit, 'x) packing_error, _) result)"
proof -
  have "slots_per_sector sample_packing_profile = (Ok 2 :: ((unit, 'x) packing_error, _) result)"
    by (simp add: slots_per_sector_def sample_packing_profile_valid)
  moreover have "\<not> sector_unused sample_descriptor" by (simp add: sector_unused_def)
  moreover have "\<not> gap (sort [0, 1])" by (simp add: gap_def)
  ultimately show ?thesis
    by (simp add: catalog_validate_def sample_packing_profile_valid sample_catalog_id sample_scan [unfolded One_nat_def]
        sample_source_authentication [unfolded One_nat_def] del: validate_sectors.simps)
qed

lemma sample_sector_check: "check_sector_bytes sample_blake3 sample_catalog sample_descriptor sample_shard = Ok ()"
  by (simp add: check_sector_bytes_def length_sample_shard sample_commit)

lemma sample_unpack_slots:
  "unpack_slots 16 (1, 1, 1) sample_shard 0 (sd_slots sample_descriptor) = Ok [(0, replicate 16 1), (1, replicate 16 2)]"
  by (simp add: slice_def length_sample_shard sub_def sample_shard_def)

text \<open>A second collection, with a sector that the catalog does not name.\<close>

definition sample_decoy :: packed_sector where
  "sample_decoy = \<lparr>ps_descriptor = sample_descriptor\<lparr>sd_id := 2\<rparr>, ps_bytes = zeros 16\<rparr>"

lemma sample_unpack:
  assumes "sectors = [sample_packed_sector] \<or> sectors = [sample_packed_sector, sample_decoy]"
  shows "unpack_object_from_sectors sample_crypto sample_packing_codec sample_blake3 sample_catalog sectors (1, 1, 1)
    = (Ok sample_shard :: ((unit, 'x) packing_error, _) result)"
proof -
  have at: "map_of (bmap_of (map (\<lambda>sector. (sd_id (ps_descriptor sector), sector)) sectors)) 1 = Some sample_packed_sector"
    using assms by (auto simp: bmap_of_def sample_packed_sector_def sample_decoy_def)
  have "\<exists>slot \<in> set (sd_slots sample_descriptor). slot_of_object (1, 1, 1) slot" by (simp add: slot_of_object_def)
  then have u: "unpack_sectors sample_blake3 sample_catalog (bmap_of (map (\<lambda>sector. (sd_id (ps_descriptor sector), sector)) sectors)) (1, 1, 1) [sample_descriptor]
      = (Ok [(0, replicate 16 1), (1, replicate 16 2)] :: ((unit, 'x) packing_error, _) result)"
    using at by (simp add: sample_sector_check sample_unpack_slots sample_packed_sector_def del: unpack_slots.simps sample_catalog_simps(11))
  have g: "\<not> gap (map fst [(0 :: nat, replicate 16 (1 :: byte)), (1, replicate 16 2)])" by (simp add: gap_def)
  show ?thesis
    using u g by (simp add: unpack_object_from_sectors_def sample_catalog_valid Let_def sample_shard_def del: unpack_sectors.simps)
qed

lemma chunks_zeros_16: "chunks 16 (zeros 16) = [zeros 16]"
  using chunks_short [of "zeros 16" 16] by (simp add: zeros_def)

lemma last_zeros_16 [simp]: "last (zeros 16) = 0"
  by (simp add: zeros_def)

lemma sample_packing_collision_free:
  "collision_free sample_blake3 (sector_queries sample_blake3 [sample_packed_sector] \<union> sector_queries sample_blake3 [sample_packed_sector, sample_decoy]
     \<union> authentication_queries sample_blake3 sample_catalog sample_shard)"
  by (simp add: collision_free_def sector_queries_def authentication_queries_def authentication_of_def descriptor_queries_def descriptor_roots_def
      named_root_def commit_queries_def verify_subtree_queries_def sample_entry_def sample_packed_sector_def sample_decoy_def
      Let_def length_sample_shard ilog2_small ilog2_small [unfolded numeral_2_eq_2] sample_leaves sample_digests chunks_zeros_16
      hash_leaf_def hash_node_def leaf_query_def node_query_def root_query_def)

theorem unpack_agrees_witness:
  "unpack_object_from_sectors sample_crypto sample_packing_codec sample_blake3 sample_catalog [sample_packed_sector] (1, 1, 1)
     = (Ok sample_shard :: ((unit, unit) packing_error, _) result)
   \<and> (\<exists>bytes. unpack_object_from_sectors sample_crypto sample_packing_codec sample_blake3 sample_catalog [sample_packed_sector, sample_decoy] (1, 1, 1)
     = (Ok bytes :: ((unit, unit) packing_error, _) result) \<and> sample_shard = bytes)"
proof -
  obtain bytes where b: "unpack_object_from_sectors sample_crypto sample_packing_codec sample_blake3 sample_catalog [sample_packed_sector, sample_decoy] (1, 1, 1)
     = (Ok bytes :: ((unit, unit) packing_error, _) result)" using sample_unpack by blast
  have "sample_shard = bytes"
    by (rule unpack_agrees [OF sample_unpack b collision_free_mono [OF sample_packing_collision_free]]) auto
  then show ?thesis using b sample_unpack [of "[sample_packed_sector]"] by blast
qed

theorem unpack_authenticated_witness:
  "\<exists>n > 0. n * 16 \<le> length sample_shard \<and> sample_shard = take (n * 16) sample_shard"
  using unpack_authenticated [OF sample_unpack [of "[sample_packed_sector]", where ?'x = unit], of sample_shard sample_commitment] sample_commit
    collision_free_mono [OF sample_packing_collision_free, of "sector_queries sample_blake3 [sample_packed_sector]
      \<union> authentication_queries sample_blake3 sample_catalog sample_shard"]
  by (auto simp: authentication_of_def)

end
