(* ===== verification/Attempt.thy ===== *)
theory Attempt
  imports Coding_Group
begin

text \<open>
  Delegated coding attempts of \<open>src/crates/mb-core/src/attempt.rs\<close>: the immutable plan, the
  coordinator's encoding with its signed manifest, and the replay of a verifier's transcript. The
  serde visitors of the file are not modelled: the canonical encodings of the records are the fields
  of the parameter \<open>attempt_codec\<close>.
\<close>

section \<open>Plans\<close>

type_synonym attempt_id = "128 word"

record parity_placement_v2 =
  pp_holder :: node_id
  pp_failure_domain :: string
  pp_row :: nat

record coding_plan_geometry =
  geo_format_version :: nat
  geo_guild_id :: digest
  geo_profile :: coding_profile
  geo_information :: "information_role_v2 list"
  geo_parity :: "parity_placement_v2 list"

record coding_attempt_plan =
  pl_format_version :: nat
  pl_attempt_id :: attempt_id
  pl_checkpoint_hash :: digest
  pl_membership_epoch :: nat
  pl_geometry :: coding_plan_geometry
  pl_delegator :: node_id
  pl_coding_coordinator :: node_id
  pl_verification_coordinator :: node_id
  pl_expires_at_unix_seconds :: nat
  pl_information_roots :: "digest list option"

record coding_root_manifest =
  mf_format_version :: nat
  mf_attempt_id :: attempt_id
  mf_plan_hash :: digest
  mf_group :: coding_group_v2
  mf_information_bytes :: "shard option list option"

record staged_storage_receipt =
  rc_format_version :: nat
  rc_attempt_id :: attempt_id
  rc_plan_hash :: digest
  rc_guild_id :: digest
  rc_group_id :: digest
  rc_shard_index :: nat
  rc_holder :: node_id
  rc_commitment :: merkle_commitment

record coding_challenge_commitment =
  cc_format_version :: nat
  cc_attempt_id :: attempt_id
  cc_plan_hash :: digest
  cc_commitment :: digest

record coding_challenge_reveal =
  cv_format_version :: nat
  cv_attempt_id :: attempt_id
  cv_plan_hash :: digest
  cv_nonce :: digest
  cv_evidence_hash :: digest

record coding_shard_opening =
  op_format_version :: nat
  op_attempt_id :: attempt_id
  op_plan_hash :: digest
  op_verifier :: node_id
  op_challenge :: digest
  op_shard_index :: nat
  op_commitment :: merkle_commitment
  op_proof :: merkle_range_proof

record coding_verification_transcript =
  tr_format_version :: nat
  tr_verified_at_unix_seconds :: nat
  tr_plan :: "coding_attempt_plan signed_record"
  tr_manifest :: "coding_root_manifest signed_record"
  tr_challenge_commitment :: "coding_challenge_commitment signed_record"
  tr_staged_receipts :: "staged_storage_receipt signed_record list"
  tr_challenge_reveal :: "coding_challenge_reveal signed_record"
  tr_openings :: "coding_shard_opening signed_record list"

record coding_failure_report =
  fr_format_version :: nat
  fr_failed_at_unix_seconds :: nat
  fr_plan :: "coding_attempt_plan signed_record"
  fr_error_hash :: digest

datatype coding_replay_finding = Verified | InvalidOpening node_id nat | InvalidCoding node_id

datatype ('m, 'x) coding_attempt_error =
  InvalidPlan | InvalidTranscript | Incomplete | InvalidInformation
  | CodingError "'x coding_error" | ModelError "('m, 'x) model_error"

record 'm attempt_codec =
  ac_group :: "'m group_encoder"
  ac_lane :: "('m, coding_plan_geometry \<times> digest list) encoder"
  ac_plan :: "('m, coding_attempt_plan) encoder"
  ac_manifest :: "('m, coding_root_manifest) encoder"
  ac_receipt :: "('m, staged_storage_receipt) encoder"
  ac_challenge_commitment :: "('m, coding_challenge_commitment) encoder"
  ac_challenge_reveal :: "('m, coding_challenge_reveal) encoder"
  ac_opening :: "('m, coding_shard_opening) encoder"
  ac_transcript :: "('m, coding_verification_transcript) encoder"
  ac_evidence :: "('m, coding_root_manifest signed_record \<times> staged_storage_receipt signed_record list) encoder"

fun geometry_information_check ::
    "blake3 \<Rightarrow> coding_profile \<Rightarrow> string set \<Rightarrow> information_role_v2 list \<Rightarrow> (('m, 'x) coding_attempt_error, string set) result" where
  "geometry_information_check B profile domains [] = Ok domains"
| "geometry_information_check B profile domains (information # rest) =
     (let sector = ir_sector information in
      and_then (map_err (\<lambda>_. InvalidPlan) (validate_commitment (sec_commitment sector))) (\<lambda>_.
      if ir_owner information = 0 \<or> ir_failure_domain information = [] \<or> 256 < length (ir_failure_domain information)
         \<or> sec_id sector = 0 \<or> mc_byte_len (sec_commitment sector) \<noteq> cp_shard_size profile
         \<or> cp_shard_size profile < sec_logical_len sector \<or> ir_failure_domain information \<in> domains
      then Err InvalidPlan
      else and_then
        (if sec_virtual_zero sector then
           (if sec_logical_len sector \<noteq> cp_shard_size profile then Err InvalidPlan
            else and_then (map_err (\<lambda>_. InvalidPlan) (merkle_zero_commitment B (cp_shard_size profile))) (\<lambda>zero.
              if sec_commitment sector \<noteq> zero then Err InvalidPlan else Ok ()))
         else if sec_logical_len sector = 0 then Err InvalidPlan
         else Ok ())
        (\<lambda>_. geometry_information_check B profile (insert (ir_failure_domain information) domains) rest)))"

fun geometry_parity_check :: "nat \<Rightarrow> string set \<Rightarrow> parity_placement_v2 list \<Rightarrow> (('m, 'x) coding_attempt_error, unit) result" where
  "geometry_parity_check row domains [] = Ok ()"
| "geometry_parity_check row domains (parity # rest) =
     (if pp_holder parity = 0 \<or> pp_row parity \<noteq> row mod 2 ^ 16 \<or> pp_failure_domain parity = []
         \<or> 256 < length (pp_failure_domain parity) \<or> pp_failure_domain parity \<in> domains
      then Err InvalidPlan
      else geometry_parity_check (Suc row) (insert (pp_failure_domain parity) domains) rest)"

definition geometry_validate :: "blake3 \<Rightarrow> coding_plan_geometry \<Rightarrow> (('m, 'x) coding_attempt_error, unit) result" where
  "geometry_validate B self =
     and_then (map_err (\<lambda>_ :: unit coding_error. InvalidPlan) (profile_validate (geo_profile self))) (\<lambda>_.
     if geo_format_version self \<noteq> 1 \<or> geo_guild_id self = 0
        \<or> length (geo_information self) \<noteq> cp_data_shards (geo_profile self)
        \<or> length (geo_parity self) \<noteq> cp_parity_shards (geo_profile self)
     then Err InvalidPlan
     else and_then (geometry_information_check B (geo_profile self) {} (geo_information self)) (\<lambda>domains.
       geometry_parity_check 0 domains (geo_parity self)))"

fun geometry_group_information :: "information_role_v2 list \<Rightarrow> shard_role_v2 list \<Rightarrow> (('m, 'x) coding_attempt_error, unit) result" where
  "geometry_group_information [] roles = Ok ()"
| "geometry_group_information (information # rest) [] = panic"
| "geometry_group_information (information # rest) (role # roles) =
     (if role \<noteq> Information information then Err InvalidTranscript else geometry_group_information rest roles)"

fun geometry_group_parity :: "parity_placement_v2 list \<Rightarrow> shard_role_v2 list \<Rightarrow> (('m, 'x) coding_attempt_error, unit) result" where
  "geometry_group_parity [] roles = Ok ()"
| "geometry_group_parity (placement # rest) (Parity parity # roles) =
     (if pa_holder parity \<noteq> pp_holder placement \<or> pa_failure_domain parity \<noteq> pp_failure_domain placement
         \<or> pa_row parity \<noteq> pp_row placement
      then Err InvalidTranscript else geometry_group_parity rest roles)"
| "geometry_group_parity (placement # rest) _ = Err InvalidTranscript"

definition geometry_validate_group ::
    "'m attempt_codec \<Rightarrow> blake3 \<Rightarrow> coding_plan_geometry \<Rightarrow> coding_group_v2 \<Rightarrow> (('m, 'x) coding_attempt_error, unit) result" where
  "geometry_validate_group C B self grp =
     and_then (map_err ModelError (group_validate (ac_group C) B grp)) (\<lambda>_.
     if cg_guild_id grp \<noteq> geo_guild_id self \<or> cg_profile grp \<noteq> geo_profile self
        \<or> length (cg_roles grp) \<noteq> length (geo_information self) + length (geo_parity self)
     then Err InvalidTranscript
     else and_then (geometry_group_information (geo_information self) (cg_roles grp)) (\<lambda>_.
       geometry_group_parity (geo_parity self) (drop (length (geo_information self)) (cg_roles grp))))"

definition plan_validate :: "blake3 \<Rightarrow> coding_attempt_plan \<Rightarrow> (('m, 'x) coding_attempt_error, unit) result" where
  "plan_validate B self =
     and_then (geometry_validate B (pl_geometry self)) (\<lambda>_.
     if \<not> (case pl_information_roots self of None \<Rightarrow> pl_format_version self = 1 | Some _ \<Rightarrow> pl_format_version self \<in> {2, 3})
        \<or> pl_attempt_id self = 0 \<or> pl_checkpoint_hash self = 0 \<or> pl_membership_epoch self = 0
        \<or> pl_delegator self = 0 \<or> pl_coding_coordinator self = 0 \<or> pl_verification_coordinator self = 0
        \<or> pl_coding_coordinator self = pl_verification_coordinator self \<or> pl_expires_at_unix_seconds self = 0
        \<or> pl_format_version self = 3 \<and>
          524288 < min (2 ^ 64 - 1) (cp_data_shards (geo_profile (pl_geometry self)) * cp_shard_size (geo_profile (pl_geometry self)))
     then Err InvalidPlan
     else case pl_information_roots self of
       None \<Rightarrow> Ok ()
     | Some roots \<Rightarrow>
         if length roots \<noteq> length (geo_information (pl_geometry self))
            \<or> list_ex (\<lambda>(root, role). (root = 0) \<noteq> sec_virtual_zero (ir_sector role)) (zip roots (geo_information (pl_geometry self)))
         then Err InvalidPlan else Ok ())"

definition information_root :: "coding_attempt_plan \<Rightarrow> nat \<Rightarrow> digest option" where
  "information_root self i =
     (case pl_information_roots self of None \<Rightarrow> None | Some roots \<Rightarrow> if i < length roots then Some (roots ! i) else None)"

definition plan_hash :: "'m attempt_codec \<Rightarrow> blake3 \<Rightarrow> coding_attempt_plan \<Rightarrow> (('m, 'x) coding_attempt_error, digest) result" where
  "plan_hash C B self =
     and_then (plan_validate B self) (\<lambda>_.
     map_err ModelError (hash_canonical B (ac_plan C) ''mutualbackup coding attempt plan v1'' self))"

text \<open>The first sixteen bytes of a digest, with the all-zero identifier avoided.\<close>

definition nonzero_attempt_id :: "digest \<Rightarrow> attempt_id" where
  "nonzero_attempt_id d =
     (let id = word_of_nat (from_be_bytes (take 16 (digest_bytes d))) :: attempt_id in
      if id = 0 then push_bit 120 1 else id)"

definition initial_attempt_id ::
    "'m attempt_codec \<Rightarrow> blake3 \<Rightarrow> nat \<Rightarrow> digest \<Rightarrow> coding_plan_geometry \<Rightarrow> digest list
      \<Rightarrow> (('m, 'x) coding_attempt_error, attempt_id) result" where
  "initial_attempt_id C B format_version checkpoint_hash geometry information_roots =
     and_then (if format_version = 2 then Ok ''mutualbackup initial coding attempt v1''
               else if format_version = 3 then Ok ''mutualbackup initial coding attempt v3''
               else Err InvalidPlan) (\<lambda>context.
     and_then (map_err ModelError (canonical_bytes (ac_lane C) (geometry, information_roots))) (\<lambda>bytes.
     Ok (nonzero_attempt_id (derive_key B context (digest_bytes checkpoint_hash @ bytes)))))"

definition initial_attempt_id_at_membership ::
    "'m attempt_codec \<Rightarrow> blake3 \<Rightarrow> nat \<Rightarrow> digest \<Rightarrow> nat \<Rightarrow> coding_plan_geometry \<Rightarrow> digest list
      \<Rightarrow> (('m, 'x) coding_attempt_error, attempt_id) result" where
  "initial_attempt_id_at_membership C B format_version checkpoint_hash membership_epoch geometry information_roots =
     (if membership_epoch = 0 then Err InvalidPlan
      else and_then (initial_attempt_id C B format_version checkpoint_hash geometry information_roots) (\<lambda>prior.
        if membership_epoch = 1 then Ok prior
        else Ok (nonzero_attempt_id (derive_key B ''mutualbackup initial coding attempt membership v1''
          (be_bytes 16 (unat prior) @ rev (be_bytes 8 membership_epoch))))))"

section \<open>Manifests\<close>

definition sector_root :: "blake3 \<Rightarrow> byte list \<Rightarrow> digest" where
  "sector_root B bytes = plain_hash B bytes"

fun manifest_bytes_check ::
    "blake3 \<Rightarrow> coding_attempt_plan \<Rightarrow> nat \<Rightarrow> nat \<Rightarrow> (shard_role_v2 \<times> shard option) list \<Rightarrow> (('m, 'x) coding_attempt_error, unit) result" where
  "manifest_bytes_check B plan shard_size i [] = Ok ()"
| "manifest_bytes_check B plan shard_size i ((role, bytes) # rest) =
     (case role of
        Parity _ \<Rightarrow> Err InvalidTranscript
      | Information information \<Rightarrow>
          and_then
            (case (sec_virtual_zero (ir_sector information), bytes) of
               (True, None) \<Rightarrow> Ok ()
             | (False, Some bs) \<Rightarrow>
                 if length bs \<noteq> shard_size then Err InvalidTranscript
                 else (case merkle_commit B bs of
                         Inl Panic \<Rightarrow> panic
                       | Inl (Error _) \<Rightarrow> Err InvalidTranscript
                       | Inr c \<Rightarrow>
                           if c = sec_commitment (ir_sector information) \<and> information_root plan i = Some (sector_root B bs)
                           then Ok () else Err InvalidTranscript)
             | _ \<Rightarrow> Err InvalidTranscript)
            (\<lambda>_. manifest_bytes_check B plan shard_size (Suc i) rest))"

definition manifest_validate_for_plan ::
    "'m attempt_codec \<Rightarrow> blake3 \<Rightarrow> coding_root_manifest \<Rightarrow> coding_attempt_plan \<Rightarrow> (('m, 'x) coding_attempt_error, unit) result" where
  "manifest_validate_for_plan C B self plan =
     (if \<not> (case mf_information_bytes self of
             None \<Rightarrow> pl_format_version plan \<in> {1, 2} \<and> mf_format_version self = 1
           | Some _ \<Rightarrow> pl_format_version plan = 3 \<and> mf_format_version self \<in> {2, 3})
         \<or> mf_attempt_id self \<noteq> pl_attempt_id plan
      then Err InvalidTranscript
      else and_then (plan_hash C B plan) (\<lambda>h.
      if mf_plan_hash self \<noteq> h \<or> (pl_format_version plan \<noteq> 3 \<and> cg_format_version (mf_group self) \<noteq> 2) then Err InvalidTranscript
      else and_then (geometry_validate_group C B (pl_geometry plan) (mf_group self)) (\<lambda>_.
      case mf_information_bytes self of
        None \<Rightarrow> Ok ()
      | Some information_bytes \<Rightarrow>
          if length information_bytes \<noteq> cp_data_shards (cg_profile (mf_group self)) then Err InvalidTranscript
          else manifest_bytes_check B plan (cp_shard_size (cg_profile (mf_group self))) 0
                 (zip (cg_roles (mf_group self)) information_bytes))))"

definition failure_report_validate ::
    "crypto \<Rightarrow> 'm attempt_codec \<Rightarrow> blake3 \<Rightarrow> coding_failure_report \<Rightarrow> (('m, 'x) coding_attempt_error, unit) result" where
  "failure_report_validate K C B self =
     and_then (map_err (\<lambda>_ :: ('m, 'x) model_error. InvalidPlan)
       (signed_verify K (ac_plan C) ''mutualbackup/coding-attempt-plan/v1'' (fr_plan self))) (\<lambda>_.
     and_then (plan_validate B (sig_value (fr_plan self))) (\<lambda>_.
     if fr_format_version self \<noteq> 1 \<or> fr_failed_at_unix_seconds self = 0
        \<or> sig_signer (fr_plan self) \<noteq> pl_delegator (sig_value (fr_plan self)) \<or> fr_error_hash self = 0
     then Err InvalidPlan else Ok ()))"

section \<open>Estimates\<close>

record coding_transfer_estimate =
  te_information_shard_transfers :: nat
  te_parity_shard_transfers :: nat
  te_root_binding_bytes :: nat
  te_bulk_bytes :: nat

record coding_sample_guarantee =
  sg_leaf_count :: nat
  sg_bad_leaves :: nat
  sg_detection_numerator :: nat
  sg_miss_numerator :: nat
  sg_denominator :: nat

definition sample_guarantee ::
    "merkle_commitment \<Rightarrow> nat \<Rightarrow> (('m, 'x) coding_attempt_error, coding_sample_guarantee) result" where
  "sample_guarantee commitment bad_leaves =
     and_then (map_err (\<lambda>_. InvalidPlan) (validate_commitment commitment)) (\<lambda>_.
     let leaf_count = mc_byte_len commitment div 16 in
     if leaf_count < bad_leaves then Err InvalidPlan
     else and_then (usub leaf_count bad_leaves) (\<lambda>miss.
       Ok \<lparr>sg_leaf_count = leaf_count, sg_bad_leaves = bad_leaves, sg_detection_numerator = bad_leaves,
           sg_miss_numerator = miss, sg_denominator = leaf_count\<rparr>))"

definition transfer_estimate ::
    "blake3 \<Rightarrow> coding_attempt_plan \<Rightarrow> (('m, 'x) coding_attempt_error, coding_transfer_estimate) result" where
  "transfer_estimate B plan =
     and_then (plan_validate B plan) (\<lambda>_.
     let geometry = pl_geometry plan;
         information = length (filter (\<lambda>role. \<not> sec_virtual_zero (ir_sector role) \<and> ir_owner role \<noteq> pl_coding_coordinator plan)
           (geo_information geometry)) mod 2 ^ 16;
         parity = length (filter (\<lambda>role. pp_holder role \<noteq> pl_coding_coordinator plan) (geo_parity geometry)) mod 2 ^ 16 in
     and_then (ok_or (case checked_add 64 information parity of None \<Rightarrow> None
         | Some count \<Rightarrow> checked_mul 64 count (cp_shard_size (geo_profile geometry))) InvalidPlan) (\<lambda>total_bytes.
     and_then (if pl_format_version plan = 3
               then umul 64 (length (filter (\<lambda>role. \<not> sec_virtual_zero (ir_sector role)) (geo_information geometry)))
                      (cp_shard_size (geo_profile geometry))
               else Ok 0) (\<lambda>root_binding_bytes.
     Ok \<lparr>te_information_shard_transfers = information, te_parity_shard_transfers = parity,
         te_root_binding_bytes = root_binding_bytes, te_bulk_bytes = total_bytes\<rparr>)))"

section \<open>Encoding an attempt\<close>

fun attempt_inputs ::
    "blake3 \<Rightarrow> coding_attempt_plan \<Rightarrow> nat \<Rightarrow> (information_role_v2 \<times> shard option) list \<Rightarrow> (('m, 'x) coding_attempt_error, shard list) result" where
  "attempt_inputs B plan i [] = Ok []"
| "attempt_inputs B plan i ((role, bytes) # rest) =
     and_then
       (case (sec_virtual_zero (ir_sector role), bytes) of
          (True, None) \<Rightarrow> Ok (zeros (cp_shard_size (geo_profile (pl_geometry plan))))
        | (False, Some bs) \<Rightarrow> Ok bs
        | _ \<Rightarrow> Err InvalidInformation) (\<lambda>bs.
     and_then (map_err (\<lambda>_. InvalidInformation) (merkle_commit B bs)) (\<lambda>c.
     if c \<noteq> sec_commitment (ir_sector role) \<or>
        (case information_root plan i of
           None \<Rightarrow> False
         | Some root \<Rightarrow> \<not> sec_virtual_zero (ir_sector role)
             \<and> (pl_format_version plan = 3 \<or> root \<noteq> mc_root (sec_commitment (ir_sector role))) \<and> sector_root B bs \<noteq> root)
     then Err InvalidInformation
     else and_then (attempt_inputs B plan (Suc i) rest) (\<lambda>inputs. Ok (bs # inputs))))"

fun attempt_parity_roles ::
    "blake3 \<Rightarrow> (parity_placement_v2 \<times> shard) list \<Rightarrow> (('m, 'x) coding_attempt_error, shard_role_v2 list) result" where
  "attempt_parity_roles B [] = Ok []"
| "attempt_parity_roles B ((placement, bytes) # rest) =
     and_then (map_err (\<lambda>_. InvalidInformation) (merkle_commit B bytes)) (\<lambda>c.
     and_then (attempt_parity_roles B rest) (\<lambda>roles.
     Ok (Parity \<lparr>pa_holder = pp_holder placement, pa_failure_domain = pp_failure_domain placement,
           pa_row = pp_row placement, pa_commitment = c\<rparr> # roles)))"

definition encode_coding_attempt ::
    "crypto \<Rightarrow> 'm attempt_codec \<Rightarrow> blake3 \<Rightarrow> 'x reed_solomon \<Rightarrow> coding_attempt_plan signed_record \<Rightarrow> shard option list \<Rightarrow> key_material
      \<Rightarrow> (('m, 'x) coding_attempt_error, coding_root_manifest signed_record \<times> shard list) result" where
  "encode_coding_attempt K C B R signed_plan information coordinator_keys =
     and_then (map_err ModelError (signed_verify K (ac_plan C) ''mutualbackup/coding-attempt-plan/v1'' signed_plan)) (\<lambda>_.
     let plan = sig_value signed_plan; geometry = pl_geometry plan; profile = geo_profile geometry in
     and_then (plan_validate B plan) (\<lambda>_.
     if sig_signer signed_plan \<noteq> pl_delegator plan \<or> key_node_id K coordinator_keys \<noteq> pl_coding_coordinator plan
        \<or> length information \<noteq> length (geo_information geometry)
     then Err InvalidPlan
     else and_then (attempt_inputs B plan 0 (zip (geo_information geometry) information)) (\<lambda>input_bytes.
     let manifest_information_bytes =
           (if pl_format_version plan = 3
            then Some (map (\<lambda>(role, bytes). if \<not> sec_virtual_zero (ir_sector role) then Some bytes else None)
                         (zip (geo_information geometry) input_bytes))
            else None) in
     and_then (map_err CodingError (encode R profile input_bytes)) (\<lambda>encoded.
     and_then (slice encoded (cp_data_shards profile) (length encoded)) (\<lambda>parity.
     and_then (attempt_parity_roles B (zip (geo_parity geometry) parity)) (\<lambda>parity_roles.
     let unidentified = \<lparr>cg_id = 0, cg_format_version = (if pl_format_version plan = 3 then 3 else 2),
           cg_guild_id = geo_guild_id geometry, cg_profile = profile,
           cg_roles = map Information (geo_information geometry) @ parity_roles\<rparr> in
     and_then (map_err ModelError (group_calculate_id (ac_group C) B unidentified)) (\<lambda>id.
     let grp = unidentified\<lparr>cg_id := id\<rparr> in
     and_then (map_err ModelError (group_validate (ac_group C) B grp)) (\<lambda>_.
     and_then (plan_hash C B plan) (\<lambda>h.
     and_then (map_err ModelError (signed_sign K (ac_manifest C) ''mutualbackup/coding-root-manifest/v1''
       \<lparr>mf_format_version = (if pl_format_version plan = 3 then 3 else 1), mf_attempt_id = pl_attempt_id plan,
        mf_plan_hash = h, mf_group = grp, mf_information_bytes = manifest_information_bytes\<rparr> coordinator_keys)) (\<lambda>manifest.
     Ok (manifest, parity)))))))))))"

section \<open>Challenges\<close>

definition challenge_commitment :: "blake3 \<Rightarrow> digest \<Rightarrow> digest \<Rightarrow> digest" where
  "challenge_commitment B h nonce = derive_key B ''mutualbackup coding hidden challenge v1'' (digest_bytes h @ digest_bytes nonce)"

definition coding_evidence_hash ::
    "'m attempt_codec \<Rightarrow> blake3 \<Rightarrow> coding_root_manifest signed_record \<Rightarrow> staged_storage_receipt signed_record list
      \<Rightarrow> (('m, 'x) coding_attempt_error, digest) result" where
  "coding_evidence_hash C B manifest receipts =
     map_err ModelError (hash_canonical B (ac_evidence C) ''mutualbackup coding staged evidence v1'' (manifest, receipts))"

definition coding_challenge :: "blake3 \<Rightarrow> digest \<Rightarrow> digest \<Rightarrow> digest \<Rightarrow> digest" where
  "coding_challenge B h nonce evidence_hash =
     derive_key B ''mutualbackup coding sample challenge v1'' (digest_bytes h @ digest_bytes nonce @ digest_bytes evidence_hash)"

section \<open>Replay\<close>

definition role_holder_and_commitment :: "shard_role_v2 \<Rightarrow> node_id \<times> merkle_commitment" where
  "role_holder_and_commitment role =
     (case role of
        Information information \<Rightarrow> (ir_owner information, sec_commitment (ir_sector information))
      | Parity parity \<Rightarrow> (pa_holder parity, pa_commitment parity))"

fun replay_receipts ::
    "crypto \<Rightarrow> 'm attempt_codec \<Rightarrow> coding_attempt_plan \<Rightarrow> digest \<Rightarrow> coding_group_v2 \<Rightarrow> nat
      \<Rightarrow> staged_storage_receipt signed_record list \<Rightarrow> (('m, 'x) coding_attempt_error, unit) result" where
  "replay_receipts K C plan h grp i [] = Ok ()"
| "replay_receipts K C plan h grp i (receipt # receipts) =
     and_then (map_err ModelError (signed_verify K (ac_receipt C) ''mutualbackup/staged-storage-receipt/v1'' receipt)) (\<lambda>_.
     and_then (index (cg_roles grp) i) (\<lambda>role.
     case role of
       Information _ \<Rightarrow> Err InvalidTranscript
     | Parity parity \<Rightarrow>
         (let v = sig_value receipt in
          if sig_signer receipt \<noteq> pa_holder parity \<or> rc_format_version v \<noteq> 1 \<or> rc_attempt_id v \<noteq> pl_attempt_id plan
             \<or> rc_plan_hash v \<noteq> h \<or> rc_guild_id v \<noteq> cg_guild_id grp \<or> rc_group_id v \<noteq> cg_id grp
             \<or> rc_shard_index v \<noteq> i \<or> rc_holder v \<noteq> pa_holder parity \<or> rc_commitment v \<noteq> pa_commitment parity
          then Err InvalidTranscript
          else replay_receipts K C plan h grp (Suc i) receipts)))"

definition replay_challenge ::
    "crypto \<Rightarrow> 'm attempt_codec \<Rightarrow> blake3 \<Rightarrow> coding_attempt_plan \<Rightarrow> digest \<Rightarrow> coding_verification_transcript
      \<Rightarrow> (('m, 'x) coding_attempt_error, digest) result" where
  "replay_challenge K C B plan h transcript =
     (let commitment = tr_challenge_commitment transcript; reveal = tr_challenge_reveal transcript in
      and_then (map_err ModelError (signed_verify K (ac_challenge_commitment C) ''mutualbackup/coding-challenge-commitment/v1'' commitment)) (\<lambda>_.
      and_then (map_err ModelError (signed_verify K (ac_challenge_reveal C) ''mutualbackup/coding-challenge-reveal/v1'' reveal)) (\<lambda>_.
      and_then (coding_evidence_hash C B (tr_manifest transcript) (tr_staged_receipts transcript)) (\<lambda>evidence_hash.
      if sig_signer commitment \<noteq> pl_verification_coordinator plan \<or> sig_signer reveal \<noteq> pl_verification_coordinator plan
         \<or> cc_format_version (sig_value commitment) \<noteq> 1 \<or> cv_format_version (sig_value reveal) \<noteq> 1
         \<or> cc_attempt_id (sig_value commitment) \<noteq> pl_attempt_id plan \<or> cv_attempt_id (sig_value reveal) \<noteq> pl_attempt_id plan
         \<or> cc_plan_hash (sig_value commitment) \<noteq> h \<or> cv_plan_hash (sig_value reveal) \<noteq> h
         \<or> cv_evidence_hash (sig_value reveal) \<noteq> evidence_hash
         \<or> cc_commitment (sig_value commitment) \<noteq> challenge_commitment B h (cv_nonce (sig_value reveal))
      then Err InvalidTranscript
      else Ok (coding_challenge B h (cv_nonce (sig_value reveal)) evidence_hash)))))"

text \<open>The loop over the openings: an error, the finding that ends it early, or the symbols.\<close>

fun replay_openings ::
    "crypto \<Rightarrow> 'm attempt_codec \<Rightarrow> blake3 \<Rightarrow> coding_attempt_plan \<Rightarrow> digest \<Rightarrow> coding_group_v2 \<Rightarrow> digest \<Rightarrow> nat
      \<Rightarrow> coding_shard_opening signed_record list \<Rightarrow> (('m, 'x) coding_attempt_error, coding_replay_finding + shard list) result" where
  "replay_openings K C B plan h grp challenge i [] = Ok (Inr [])"
| "replay_openings K C B plan h grp challenge i (opening # openings) =
     and_then (index (cg_roles grp) i) (\<lambda>role.
     let (holder, expected_commitment) = role_holder_and_commitment role in
     and_then (map_err ModelError (signed_verify K (ac_opening C) ''mutualbackup/coding-shard-opening/v1'' opening)) (\<lambda>_.
     if sig_signer opening \<noteq> holder then Err InvalidTranscript
     else
      (let v = sig_value opening in
       and_then (map_err (\<lambda>_. InvalidTranscript) (challenged_leaf B challenge expected_commitment)) (\<lambda>expected_leaf.
       if op_format_version v \<noteq> 1 \<or> op_attempt_id v \<noteq> pl_attempt_id plan \<or> op_plan_hash v \<noteq> h
          \<or> op_verifier v \<noteq> pl_verification_coordinator plan \<or> op_challenge v \<noteq> challenge \<or> op_shard_index v \<noteq> i
          \<or> op_commitment v \<noteq> expected_commitment \<or> rp_start_leaf (op_proof v) \<noteq> expected_leaf
          \<or> length (rp_leaves (op_proof v)) \<noteq> 1
       then Ok (Inl (InvalidOpening holder (i mod 2 ^ 16)))
       else case merkle_verify_range B expected_commitment (op_proof v) of
         Inl Panic \<Rightarrow> panic
       | Inl (Error _) \<Rightarrow> Ok (Inl (InvalidOpening holder (i mod 2 ^ 16)))
       | Inr bytes \<Rightarrow>
           if length bytes \<noteq> 16 then Ok (Inl (InvalidOpening holder (i mod 2 ^ 16)))
           else and_then (replay_openings K C B plan h grp challenge (Suc i) openings) (\<lambda>r.
             Ok (case r of Inl finding \<Rightarrow> Inl finding | Inr symbols \<Rightarrow> Inr (bytes # symbols)))))))"

definition replay_coding_transcript ::
    "crypto \<Rightarrow> 'm attempt_codec \<Rightarrow> blake3 \<Rightarrow> 'x reed_solomon \<Rightarrow> coding_verification_transcript signed_record
      \<Rightarrow> (('m, 'x) coding_attempt_error, coding_replay_finding) result" where
  "replay_coding_transcript K C B R evidence =
     and_then (map_err ModelError (signed_verify K (ac_transcript C) ''mutualbackup/coding-transcript/v1'' evidence)) (\<lambda>_.
     let transcript = sig_value evidence; plan = sig_value (tr_plan transcript) in
     and_then (plan_validate B plan) (\<lambda>_.
     if tr_format_version transcript \<noteq> 1 \<or> tr_verified_at_unix_seconds transcript = 0
        \<or> pl_expires_at_unix_seconds plan < tr_verified_at_unix_seconds transcript
        \<or> sig_signer (tr_plan transcript) \<noteq> pl_delegator plan \<or> sig_signer evidence \<noteq> pl_verification_coordinator plan
     then Err InvalidTranscript
     else and_then (map_err ModelError (signed_verify K (ac_plan C) ''mutualbackup/coding-attempt-plan/v1'' (tr_plan transcript))) (\<lambda>_.
     and_then (plan_hash C B plan) (\<lambda>h.
     and_then (map_err ModelError (signed_verify K (ac_manifest C) ''mutualbackup/coding-root-manifest/v1'' (tr_manifest transcript))) (\<lambda>_.
     if sig_signer (tr_manifest transcript) \<noteq> pl_coding_coordinator plan then Err InvalidTranscript
     else and_then (manifest_validate_for_plan C B (sig_value (tr_manifest transcript)) plan) (\<lambda>_.
     let grp = mf_group (sig_value (tr_manifest transcript)) in
     if length (tr_staged_receipts transcript) \<noteq> cp_parity_shards (cg_profile grp) then Err Incomplete
     else and_then (replay_receipts K C plan h grp (cp_data_shards (cg_profile grp)) (tr_staged_receipts transcript)) (\<lambda>_.
     and_then (replay_challenge K C B plan h transcript) (\<lambda>challenge.
     if length (tr_openings transcript) \<noteq> length (cg_roles grp) then Err Incomplete
     else and_then (replay_openings K C B plan h grp challenge 0 (tr_openings transcript)) (\<lambda>r.
     case r of
       Inl finding \<Rightarrow> Ok finding
     | Inr symbols \<Rightarrow>
         (case verify_sampled_codeword R (cg_profile grp) symbols of
            Inl Panic \<Rightarrow> panic
          | Inl (Error _) \<Rightarrow> Ok (InvalidCoding (pl_coding_coordinator plan))
          | Inr _ \<Rightarrow> Ok Verified))))))))))"

section \<open>What a replay establishes\<close>

definition role_holder :: "shard_role_v2 \<Rightarrow> node_id" where
  "role_holder role = fst (role_holder_and_commitment role)"

lemma role_holder_and_commitment_eq: "role_holder_and_commitment role = (role_holder role, role_commitment role)"
  by (simp add: role_holder_def role_holder_and_commitment_def role_commitment_def split: shard_role_v2.splits)

text \<open>The opening of an honest holder, and what the replay accepts in its place.\<close>

definition honest_opening ::
    "coding_attempt_plan \<Rightarrow> digest \<Rightarrow> digest \<Rightarrow> nat \<Rightarrow> merkle_commitment \<Rightarrow> merkle_range_proof \<Rightarrow> coding_shard_opening" where
  "honest_opening plan h challenge i c p =
     \<lparr>op_format_version = 1, op_attempt_id = pl_attempt_id plan, op_plan_hash = h,
      op_verifier = pl_verification_coordinator plan, op_challenge = challenge, op_shard_index = i, op_commitment = c, op_proof = p\<rparr>"

definition accepted_opening ::
    "blake3 \<Rightarrow> coding_attempt_plan \<Rightarrow> digest \<Rightarrow> digest \<Rightarrow> nat \<Rightarrow> merkle_commitment \<Rightarrow> coding_shard_opening \<Rightarrow> shard \<Rightarrow> bool" where
  "accepted_opening B plan h challenge i c v symbol \<longleftrightarrow>
     v = honest_opening plan h challenge i c (op_proof v) \<and> challenged_leaf B challenge c = Ok (rp_start_leaf (op_proof v))
     \<and> length (rp_leaves (op_proof v)) = 1 \<and> merkle_verify_range B c (op_proof v) = Ok symbol \<and> length symbol = 16"

definition authentic_opening :: "crypto \<Rightarrow> 'm attempt_codec \<Rightarrow> node_id \<Rightarrow> coding_shard_opening signed_record \<Rightarrow> 'x itself \<Rightarrow> bool" where
  "authentic_opening K C holder opening x \<longleftrightarrow> sig_signer opening = holder \<and>
     signed_verify K (ac_opening C) ''mutualbackup/coding-shard-opening/v1'' opening = (Ok () :: (('m, 'x) model_error, unit) result)"

lemma replay_opening_step:
  assumes "i < length (cg_roles grp)" and "authentic_opening K C (role_holder (cg_roles grp ! i)) opening TYPE('x)"
    and "challenged_leaf B challenge (role_commitment (cg_roles grp ! i)) = Ok leaf"
  shows "replay_openings K C B plan h grp challenge i (opening # openings) =
    (case merkle_verify_range B (role_commitment (cg_roles grp ! i)) (op_proof (sig_value opening)) of
       Inl Panic \<Rightarrow> if sig_value opening = honest_opening plan h challenge i (role_commitment (cg_roles grp ! i)) (op_proof (sig_value opening))
           \<and> rp_start_leaf (op_proof (sig_value opening)) = leaf \<and> length (rp_leaves (op_proof (sig_value opening))) = 1
         then panic else Ok (Inl (InvalidOpening (role_holder (cg_roles grp ! i)) (i mod 2 ^ 16)))
     | Inl (Error _) \<Rightarrow> Ok (Inl (InvalidOpening (role_holder (cg_roles grp ! i)) (i mod 2 ^ 16)))
     | Inr symbol \<Rightarrow>
         if accepted_opening B plan h challenge i (role_commitment (cg_roles grp ! i)) (sig_value opening) symbol
         then and_then (replay_openings K C B plan h grp challenge (Suc i) openings) (\<lambda>r.
           Ok (case r of Inl finding \<Rightarrow> Inl finding | Inr symbols \<Rightarrow> Inr (symbol # symbols)))
         else (Ok (Inl (InvalidOpening (role_holder (cg_roles grp ! i)) (i mod 2 ^ 16))) :: (('m, 'x) coding_attempt_error, _) result))"
  using assms
  by (cases "sig_value opening")
    (auto simp: accepted_opening_def honest_opening_def authentic_opening_def role_holder_and_commitment_eq index_eq
      split: sum.splits stop.splits)

lemma replay_openings_authentic:
  assumes "replay_openings K C B plan h grp challenge i (opening # openings) = (Ok r :: (('m, 'x) coding_attempt_error, _) result)"
  shows "i < length (cg_roles grp)" "authentic_opening K C (role_holder (cg_roles grp ! i)) opening TYPE('x)"
    "\<exists>leaf. challenged_leaf B challenge (role_commitment (cg_roles grp ! i)) = Ok leaf"
  using assms
  by (auto simp: and_then_Ok_iff map_err_Ok_iff role_holder_and_commitment_eq authentic_opening_def Let_def index_def
      split: if_splits)

lemma finding_case_iff:
  "(case r of Inl f \<Rightarrow> Inl f | Inr xs \<Rightarrow> Inr (x # xs)) = Inr ys \<longleftrightarrow> (\<exists>xs. r = Inr xs \<and> ys = x # xs)"
  "(case r of Inl f \<Rightarrow> Inl f | Inr xs \<Rightarrow> Inr (x # xs)) = Inl g \<longleftrightarrow> r = Inl g"
  by (auto split: sum.split)

lemma replay_openings_symbols:
  assumes "replay_openings K C B plan h grp challenge i openings = (Ok (Inr symbols) :: (('m, 'x) coding_attempt_error, _) result)"
  shows "length symbols = length openings" "i + length openings \<le> length (cg_roles grp) \<or> openings = []"
    "j < length openings \<Longrightarrow>
      accepted_opening B plan h challenge (i + j) (role_commitment (cg_roles grp ! (i + j))) (sig_value (openings ! j)) (symbols ! j)"
proof -
  have "length symbols = length openings \<and> (i + length openings \<le> length (cg_roles grp) \<or> openings = []) \<and> (\<forall>j < length openings.
      accepted_opening B plan h challenge (i + j) (role_commitment (cg_roles grp ! (i + j))) (sig_value (openings ! j)) (symbols ! j))"
    using assms
  proof (induction openings arbitrary: i symbols)
    case (Cons o1 openings)
    note auth = replay_openings_authentic [OF Cons.prems]
    obtain leaf where leaf: "challenged_leaf B challenge (role_commitment (cg_roles grp ! i)) = Ok leaf" using auth(3) by blast
    obtain symbol symbols' where s: "symbols = symbol # symbols'"
      "accepted_opening B plan h challenge i (role_commitment (cg_roles grp ! i)) (sig_value o1) symbol"
      "replay_openings K C B plan h grp challenge (Suc i) openings = (Ok (Inr symbols') :: (('m, 'x) coding_attempt_error, _) result)"
      using Cons.prems unfolding replay_opening_step [OF auth(1,2) leaf]
      by (auto simp: and_then_Ok_iff finding_case_iff split: sum.split_asm stop.split_asm if_splits)
    from Cons.IH [OF s(3)] s(1,2) auth(1) show ?case by (auto simp: All_less_Suc2)
  qed simp
  then show "length symbols = length openings" "i + length openings \<le> length (cg_roles grp) \<or> openings = []"
    "j < length openings \<Longrightarrow>
      accepted_opening B plan h challenge (i + j) (role_commitment (cg_roles grp ! (i + j))) (sig_value (openings ! j)) (symbols ! j)"
    by auto
qed

lemma replay_openings_all_authentic:
  assumes "replay_openings K C B plan h grp challenge i openings = (Ok (Inr symbols) :: (('m, 'x) coding_attempt_error, _) result)"
    and "j < length openings"
  shows "authentic_opening K C (role_holder (cg_roles grp ! (i + j))) (openings ! j) TYPE('x)"
  using assms
proof (induction openings arbitrary: i j symbols)
  case (Cons o1 openings)
  note auth = replay_openings_authentic [OF Cons.prems(1)]
  obtain leaf where leaf: "challenged_leaf B challenge (role_commitment (cg_roles grp ! i)) = Ok leaf" using auth(3) by blast
  obtain symbols' where s:
    "replay_openings K C B plan h grp challenge (Suc i) openings = (Ok (Inr symbols') :: (('m, 'x) coding_attempt_error, _) result)"
    using Cons.prems(1) unfolding replay_opening_step [OF auth(1,2) leaf]
    by (auto simp: and_then_Ok_iff finding_case_iff split: sum.split_asm stop.split_asm if_splits)
  show ?case using auth(2) Cons.IH [OF s, of "j - 1"] Cons.prems(2) by (cases j) auto
qed simp

lemma replay_openings_blame:
  assumes "replay_openings K C B plan h grp challenge i openings = (Ok (Inl finding) :: (('m, 'x) coding_attempt_error, _) result)"
  shows "\<exists>j < length openings. i + j < length (cg_roles grp) \<and> (let role = cg_roles grp ! (i + j) in
    finding = InvalidOpening (role_holder role) ((i + j) mod 2 ^ 16) \<and> authentic_opening K C (role_holder role) (openings ! j) TYPE('x)
    \<and> (\<nexists>symbol. accepted_opening B plan h challenge (i + j) (role_commitment role) (sig_value (openings ! j)) symbol))"
  using assms
proof (induction openings arbitrary: i)
  case (Cons o1 openings)
  note auth = replay_openings_authentic [OF Cons.prems]
  obtain leaf where leaf: "challenged_leaf B challenge (role_commitment (cg_roles grp ! i)) = Ok leaf" using auth(3) by blast
  show ?case
  proof (cases "\<exists>symbol. accepted_opening B plan h challenge i (role_commitment (cg_roles grp ! i)) (sig_value o1) symbol")
    case True
    then obtain symbol where s: "accepted_opening B plan h challenge i (role_commitment (cg_roles grp ! i)) (sig_value o1) symbol" by blast
    then have "merkle_verify_range B (role_commitment (cg_roles grp ! i)) (op_proof (sig_value o1)) = Ok symbol"
      by (simp add: accepted_opening_def)
    then have "replay_openings K C B plan h grp challenge (Suc i) openings = (Ok (Inl finding) :: (('m, 'x) coding_attempt_error, _) result)"
      using Cons.prems s unfolding replay_opening_step [OF auth(1,2) leaf] by (auto simp: and_then_Ok_iff finding_case_iff)
    from Cons.IH [OF this] show ?thesis by (auto intro: exI [of _ "Suc _"])
  next
    case False
    then have "finding = InvalidOpening (role_holder (cg_roles grp ! i)) (i mod 2 ^ 16)"
      using Cons.prems unfolding replay_opening_step [OF auth(1,2) leaf] by (auto split: sum.splits stop.splits if_splits)
    then show ?thesis using False auth by (intro exI [of _ 0]) simp
  qed
qed simp

lemma manifest_group_valid:
  assumes "manifest_validate_for_plan C B m plan = (Ok () :: (('m, 'x) coding_attempt_error, _) result)"
  shows "group_validate (ac_group C) B (mf_group m) = (Ok () :: (('m, 'x) model_error, unit) result)"
  using assms
  by (auto simp: manifest_validate_for_plan_def geometry_validate_group_def and_then_Ok_iff map_err_Ok_iff split: if_splits option.split_asm)

text \<open>What a replay that returns a finding has checked.\<close>

definition replayed ::
    "crypto \<Rightarrow> 'm attempt_codec \<Rightarrow> blake3 \<Rightarrow> coding_verification_transcript signed_record \<Rightarrow> digest \<Rightarrow> digest
      \<Rightarrow> coding_replay_finding + shard list \<Rightarrow> 'x itself \<Rightarrow> bool" where
  "replayed K C B evidence h challenge r x \<longleftrightarrow>
     (let transcript = sig_value evidence; plan = sig_value (tr_plan transcript); manifest = tr_manifest transcript;
          grp = mf_group (sig_value manifest) in
      plan_validate B plan = (Ok () :: (('m, 'x) coding_attempt_error, _) result)
      \<and> plan_hash C B plan = (Ok h :: (('m, 'x) coding_attempt_error, _) result)
      \<and> sig_signer (tr_plan transcript) = pl_delegator plan \<and> sig_signer evidence = pl_verification_coordinator plan
      \<and> sig_signer manifest = pl_coding_coordinator plan
      \<and> signed_verify K (ac_transcript C) ''mutualbackup/coding-transcript/v1'' evidence = (Ok () :: (('m, 'x) model_error, _) result)
      \<and> signed_verify K (ac_plan C) ''mutualbackup/coding-attempt-plan/v1'' (tr_plan transcript) = (Ok () :: (('m, 'x) model_error, _) result)
      \<and> signed_verify K (ac_manifest C) ''mutualbackup/coding-root-manifest/v1'' manifest = (Ok () :: (('m, 'x) model_error, _) result)
      \<and> manifest_validate_for_plan C B (sig_value manifest) plan = (Ok () :: (('m, 'x) coding_attempt_error, _) result)
      \<and> replay_challenge K C B plan h transcript = (Ok challenge :: (('m, 'x) coding_attempt_error, _) result)
      \<and> length (tr_openings transcript) = length (cg_roles grp)
      \<and> replay_openings K C B plan h grp challenge 0 (tr_openings transcript) = (Ok r :: (('m, 'x) coding_attempt_error, _) result))"

lemma replay_OkE:
  fixes R :: "'x reed_solomon" and C :: "'m attempt_codec"
  assumes "replay_coding_transcript K C B R evidence = Ok finding"
  obtains h challenge r where "replayed K C B evidence h challenge r TYPE('x)"
    "case r of Inl f \<Rightarrow> finding = f
     | Inr symbols \<Rightarrow> (let plan = sig_value (tr_plan (sig_value evidence));
           v = verify_sampled_codeword R (cg_profile (mf_group (sig_value (tr_manifest (sig_value evidence))))) symbols in
         v = Ok () \<and> finding = Verified \<or> (\<exists>e. v = Err e) \<and> finding = InvalidCoding (pl_coding_coordinator plan))"
  using assms
  unfolding replay_coding_transcript_def Let_def
  apply (clarsimp simp: and_then_Ok_iff map_err_Ok_iff split: if_split_asm)
  subgoal premises p for h challenge r
    by (rule p(1) [of h challenge r], use p in \<open>simp add: replayed_def\<close>,
      use p in \<open>auto split: sum.splits stop.splits\<close>)
  done

lemma replayed_openings_authentic:
  fixes C :: "'m attempt_codec"
  assumes "replayed K C B evidence h challenge (Inr symbols) TYPE('x)"
  shows "list_all2 (\<lambda>role opening. authentic_opening K C (role_holder role) opening TYPE('x))
    (cg_roles (mf_group (sig_value (tr_manifest (sig_value evidence))))) (tr_openings (sig_value evidence))"
proof -
  let ?tr = "sig_value evidence"
  let ?g = "mf_group (sig_value (tr_manifest ?tr))"
  have run: "replay_openings K C B (sig_value (tr_plan ?tr)) h ?g challenge 0 (tr_openings ?tr)
      = (Ok (Inr symbols) :: (('m, 'x) coding_attempt_error, _) result)"
    and len: "length (tr_openings ?tr) = length (cg_roles ?g)"
    using assms by (simp_all add: replayed_def Let_def)
  show ?thesis using replay_openings_all_authentic [OF run] len by (simp add: list_all2_conv_all_nth)
qed

text \<open>All commitments of a valid group have the same length, so one leaf is challenged in every shard.\<close>

lemma challenged_leaf_common:
  assumes "group_validate enc B g = (Ok () :: (('m, 'x) model_error, _) result)" "i < length (cg_roles g)" "j < length (cg_roles g)"
    "challenged_leaf B challenge (role_commitment (cg_roles g ! i)) = Ok leaf"
  shows "challenged_leaf B challenge (role_commitment (cg_roles g ! j)) = Ok leaf"
  using assms(4) group_validate_OkD(6) [OF assms(1,2)] group_validate_OkD(6) [OF assms(1,3)]
  by (simp add: challenged_leaf_def)

lemma accepted_symbol:
  assumes "accepted_opening B plan h challenge i c v symbol" "merkle_commit B s = Ok c"
    and "collision_free B (set (commit_queries B s) \<union> set (verify_range_queries B (length s) (op_proof v)))"
  shows "symbol = sub s (16 * rp_start_leaf (op_proof v)) 16"
proof -
  have "merkle_verify_range B c (op_proof v) = Ok symbol" "length (rp_leaves (op_proof v)) = 1"
    using assms(1) by (simp_all add: accepted_opening_def)
  then show ?thesis using verify_range_sound [OF assms(2) _ assms(3)] by simp
qed

text \<open>The proofs a transcript presents hash without collision against the committed shards.\<close>

definition evidence_collision_free :: "blake3 \<Rightarrow> coding_shard_opening signed_record list \<Rightarrow> shard list \<Rightarrow> bool" where
  "evidence_collision_free B openings shards \<longleftrightarrow> (\<forall>i < length shards. collision_free B
     (set (commit_queries B (shards ! i)) \<union> set (verify_range_queries B (length (shards ! i)) (op_proof (sig_value (openings ! i))))))"

lemma replayed_symbols:
  fixes C :: "'m attempt_codec"
  assumes rep: "replayed K C B evidence h challenge (Inr symbols) TYPE('x)"
    and com: "committed B (mf_group (sig_value (tr_manifest (sig_value evidence)))) shards"
    and cf: "evidence_collision_free B (tr_openings (sig_value evidence)) shards"
  shows "\<exists>leaf < cp_shard_size (cg_profile (mf_group (sig_value (tr_manifest (sig_value evidence))))) div 16.
    symbols = map (\<lambda>s. sub s (16 * leaf) 16) shards \<and>
    (\<forall>role \<in> set (cg_roles (mf_group (sig_value (tr_manifest (sig_value evidence))))).
      challenged_leaf B challenge (role_commitment role) = Ok leaf)"
proof -
  let ?tr = "sig_value evidence"
  let ?g = "mf_group (sig_value (tr_manifest ?tr))" and ?os = "tr_openings ?tr"
  have valid: "group_validate (ac_group C) B ?g = (Ok () :: (('m, 'x) model_error, _) result)"
    and len: "length ?os = length (cg_roles ?g)"
    and run: "replay_openings K C B (sig_value (tr_plan ?tr)) h ?g challenge 0 ?os
      = (Ok (Inr symbols) :: (('m, 'x) coding_attempt_error, _) result)"
    using rep manifest_group_valid by (auto simp: replayed_def Let_def)
  note g = group_validate_OkD [OF valid] and sym = replay_openings_symbols [OF run]
  have n: "0 < length (cg_roles ?g)" using g(1,2) by (auto elim: profile_validate_OkE)
  obtain leaf where leaf: "challenged_leaf B challenge (role_commitment (cg_roles ?g ! 0)) = Ok leaf"
      "leaf < cp_shard_size (cg_profile ?g) div 16"
    using challenged_leaf_range [of "role_commitment (cg_roles ?g ! 0)" B challenge] g(6) [OF n] by auto
  have all: "challenged_leaf B challenge (role_commitment (cg_roles ?g ! i)) = Ok leaf" if "i < length (cg_roles ?g)" for i
    by (rule challenged_leaf_common [OF valid n that leaf(1)])
  have "symbols ! i = sub (shards ! i) (16 * leaf) 16" if i: "i < length shards" for i
  proof -
    have j: "i < length ?os" using i com len by (simp add: committed_def)
    have acc: "accepted_opening B (sig_value (tr_plan ?tr)) h challenge i (role_commitment (cg_roles ?g ! i)) (sig_value (?os ! i)) (symbols ! i)"
      using sym(3) [OF j] by simp
    then have "rp_start_leaf (op_proof (sig_value (?os ! i))) = leaf"
      using all [of i] j len by (simp add: accepted_opening_def)
    then show ?thesis using accepted_symbol [OF acc] com cf i by (simp add: committed_def evidence_collision_free_def)
  qed
  then have "symbols = map (\<lambda>s. sub s (16 * leaf) 16) shards"
    using sym(1) len com by (intro nth_equalityI) (simp_all add: committed_def)
  then show ?thesis using leaf(2) all by (intro exI [of _ leaf]) (auto simp: in_set_conv_nth)
qed

lemma honest_opening_accepted:
  assumes v: "validate_commitment c = Ok ()" and c: "merkle_commit B s = Ok c"
    and leaf: "challenged_leaf B challenge c = Ok leaf" and p: "merkle_open_range B s leaf 1 = Ok p"
  shows "\<exists>symbol. accepted_opening B plan h challenge i c (honest_opening plan h challenge i c p) symbol"
proof -
  have range: "leaf < mc_byte_len c div 16" "\<not> bad_range leaf 1 (mc_byte_len c div 16)"
    using challenged_leaf_range [OF v, of B challenge] leaf by auto
  have root: "mc_root c \<noteq> 0" using v by (auto simp: validate_commitment_def split: if_splits)
  have len: "mc_byte_len c = length s" "16 * (length s div 16) = length s"
    using merkle_commit_len [OF c] c by (auto elim: merkle_commit_OkE)
  have "rp_start_leaf p = leaf" "length (rp_leaves p) = 1" "merkle_verify_range B c p = Ok (sub s (16 * leaf) (16 * 1))"
    using open_verify_range [OF c root range(2) [unfolded len(1)]] p by auto
  moreover have "16 * leaf + 16 \<le> length s" using range(1) len by linarith
  ultimately show ?thesis using leaf
    by (intro exI [of _ "sub s (16 * leaf) 16"]) (simp add: accepted_opening_def honest_opening_def)
qed

lemma sampled_of_codeword:
  fixes R :: "'x reed_solomon"
  assumes "rs_contract R (cp_data_shards p) (cp_parity_shards p) Code"
    and "profile_validate p = (Ok () :: ('x coding_error, unit) result)"
    and "shaped (cp_data_shards p + cp_parity_shards p) (cp_shard_size p) shards"
    and "j < cp_shard_size p div 16" "verify_codeword R p shards = Ok ()"
  shows "verify_sampled_codeword R p (map (\<lambda>s. sub s (16 * j) 16) shards) = Ok ()"
proof -
  have "16 * j + i < cp_shard_size p" if "i < 16" for i
    using that assms(4) profile_size_leaves [OF assms(2)] by linarith
  then show ?thesis
    using verify_sampled_leaf [OF assms(1-4)] verify_codeword_iff [OF assms(1-3)] assms(5) by (simp add: is_codeword_def)
qed

section \<open>What an encoding establishes\<close>

definition input_ok :: "blake3 \<Rightarrow> coding_attempt_plan \<Rightarrow> nat \<Rightarrow> information_role_v2 \<Rightarrow> shard option \<Rightarrow> shard \<Rightarrow> bool" where
  "input_ok B plan i role given bs \<longleftrightarrow>
     merkle_commit B bs = Ok (sec_commitment (ir_sector role)) \<and>
     (if sec_virtual_zero (ir_sector role) then given = None \<and> bs = zeros (cp_shard_size (geo_profile (pl_geometry plan)))
      else given = Some bs \<and> (pl_format_version plan = 3 \<longrightarrow>
        (\<forall>root. information_root plan i = Some root \<longrightarrow> sector_root B bs = root)))"

lemma attempt_inputs_OkD:
  assumes "attempt_inputs B plan i (zip roles given) = (Ok inputs :: (('m, 'x) coding_attempt_error, _) result)"
    "length roles = length given"
  shows "length inputs = length given" "j < length given \<Longrightarrow> input_ok B plan (i + j) (roles ! j) (given ! j) (inputs ! j)"
proof -
  have "length inputs = length given \<and> (\<forall>j < length given. input_ok B plan (i + j) (roles ! j) (given ! j) (inputs ! j))"
    using assms(2,1)
  proof (induction roles given arbitrary: i inputs rule: list_induct2)
    case (Cons role roles g given)
    obtain bs inputs' where b: "inputs = bs # inputs'" "input_ok B plan i role g bs"
      "attempt_inputs B plan (Suc i) (zip roles given) = (Ok inputs' :: (('m, 'x) coding_attempt_error, _) result)"
      using Cons.prems
      by (cases g; cases "sec_virtual_zero (ir_sector role)")
        (auto simp: and_then_Ok_iff map_err_Ok_iff input_ok_def split: if_splits option.split_asm)
    then show ?case using Cons.IH [OF b(3)] by (auto simp: All_less_Suc2)
  qed simp
  then show "length inputs = length given" "j < length given \<Longrightarrow> input_ok B plan (i + j) (roles ! j) (given ! j) (inputs ! j)"
    by auto
qed

lemma attempt_parity_roles_OkD:
  assumes "attempt_parity_roles B (zip placements parity) = (Ok roles :: (('m, 'x) coding_attempt_error, _) result)"
    "length placements = length parity"
  shows "length roles = length parity" "geometry_group_parity placements roles = (Ok () :: (('m, 'x) coding_attempt_error, _) result)"
    "j < length parity \<Longrightarrow> merkle_commit B (parity ! j) = Ok (role_commitment (roles ! j))"
proof -
  have "length roles = length parity \<and> geometry_group_parity placements roles = (Ok () :: (('m, 'x) coding_attempt_error, _) result)
      \<and> (\<forall>j < length parity. merkle_commit B (parity ! j) = Ok (role_commitment (roles ! j)))"
    using assms(2,1)
  proof (induction placements parity arbitrary: roles rule: list_induct2)
    case (Cons placement placements bytes parity)
    then obtain c roles' where r: "merkle_commit B bytes = Ok c"
      "attempt_parity_roles B (zip placements parity) = (Ok roles' :: (('m, 'x) coding_attempt_error, _) result)"
      "roles = Parity \<lparr>pa_holder = pp_holder placement, pa_failure_domain = pp_failure_domain placement,
           pa_row = pp_row placement, pa_commitment = c\<rparr> # roles'"
      by (auto simp: and_then_Ok_iff map_err_Ok_iff)
    then show ?case using Cons.IH [OF r(2)] by (auto simp: All_less_Suc2 role_commitment_def)
  qed simp
  then show "length roles = length parity" "geometry_group_parity placements roles = (Ok () :: (('m, 'x) coding_attempt_error, _) result)"
    "j < length parity \<Longrightarrow> merkle_commit B (parity ! j) = Ok (role_commitment (roles ! j))" by auto
qed

lemma geometry_group_information_map:
  "geometry_group_information infos (map Information infos @ roles) = (Ok () :: (('m, 'x) coding_attempt_error, _) result)"
  by (induction infos) auto

lemma manifest_bytes_check_inputs:
  assumes "length infos = length inputs"
    and "\<And>j. j < length inputs \<Longrightarrow> sec_virtual_zero (ir_sector (infos ! j)) \<or>
      length (inputs ! j) = n \<and> merkle_commit B (inputs ! j) = Ok (sec_commitment (ir_sector (infos ! j)))
      \<and> information_root plan (i + j) = Some (sector_root B (inputs ! j))"
  shows "manifest_bytes_check B plan n i (zip (map Information infos @ roles)
      (map (\<lambda>(role, bytes). if \<not> sec_virtual_zero (ir_sector role) then Some bytes else None) (zip infos inputs)))
    = (Ok () :: (('m, 'x) coding_attempt_error, _) result)"
  using assms
proof (induction infos inputs arbitrary: i rule: list_induct2)
  case (Cons info infos bs inputs)
  have "manifest_bytes_check B plan n (Suc i) (zip (map Information infos @ roles)
      (map (\<lambda>(role, bytes). if \<not> sec_virtual_zero (ir_sector role) then Some bytes else None) (zip infos inputs)))
    = (Ok () :: (('m, 'x) coding_attempt_error, _) result)"
    using Cons.prems [of "Suc _"] by (intro Cons.IH) auto
  then show ?case using Cons.prems [of 0] by (cases "sec_virtual_zero (ir_sector info)") simp_all
qed simp

lemma plan_validate_OkD:
  assumes "plan_validate B plan = (Ok () :: (('m, 'x) coding_attempt_error, _) result)"
  shows "length (geo_information (pl_geometry plan)) = cp_data_shards (geo_profile (pl_geometry plan))"
    "length (geo_parity (pl_geometry plan)) = cp_parity_shards (geo_profile (pl_geometry plan))"
    "pl_format_version plan \<in> {1, 2, 3}"
    "pl_format_version plan = 3 \<Longrightarrow> j < length (geo_information (pl_geometry plan)) \<Longrightarrow> \<exists>root. information_root plan j = Some root"
  using assms
  by (auto simp: plan_validate_def geometry_validate_def and_then_Ok_iff information_root_def split: if_splits option.splits)

text \<open>The intermediate values of a successful encoding.\<close>

definition attempt_group :: "coding_attempt_plan \<Rightarrow> digest \<Rightarrow> shard_role_v2 list \<Rightarrow> coding_group_v2" where
  "attempt_group plan gid parity_roles =
     \<lparr>cg_id = gid, cg_format_version = (if pl_format_version plan = 3 then 3 else 2), cg_guild_id = geo_guild_id (pl_geometry plan),
      cg_profile = geo_profile (pl_geometry plan), cg_roles = map Information (geo_information (pl_geometry plan)) @ parity_roles\<rparr>"

definition attempt_manifest :: "coding_attempt_plan \<Rightarrow> digest \<Rightarrow> coding_group_v2 \<Rightarrow> shard list \<Rightarrow> coding_root_manifest" where
  "attempt_manifest plan h g inputs =
     \<lparr>mf_format_version = (if pl_format_version plan = 3 then 3 else 1), mf_attempt_id = pl_attempt_id plan, mf_plan_hash = h, mf_group = g,
      mf_information_bytes =
        (if pl_format_version plan = 3
         then Some (map (\<lambda>(role, bytes). if \<not> sec_virtual_zero (ir_sector role) then Some bytes else None)
                      (zip (geo_information (pl_geometry plan)) inputs))
         else None)\<rparr>"

lemma encode_attempt_OkE:
  fixes R :: "'x reed_solomon" and C :: "'m attempt_codec"
  assumes "encode_coding_attempt K C B R sp given keys = Ok (manifest, parity)"
  obtains inputs encoded parity_roles gid h where
    "plan_validate B (sig_value sp) = (Ok () :: (('m, 'x) coding_attempt_error, _) result)"
    "key_node_id K keys = pl_coding_coordinator (sig_value sp)" "length given = length (geo_information (pl_geometry (sig_value sp)))"
    "attempt_inputs B (sig_value sp) 0 (zip (geo_information (pl_geometry (sig_value sp))) given) = (Ok inputs :: (('m, 'x) coding_attempt_error, _) result)"
    "encode R (geo_profile (pl_geometry (sig_value sp))) inputs = Ok encoded"
    "parity = drop (cp_data_shards (geo_profile (pl_geometry (sig_value sp)))) encoded"
    "attempt_parity_roles B (zip (geo_parity (pl_geometry (sig_value sp))) parity) = (Ok parity_roles :: (('m, 'x) coding_attempt_error, _) result)"
    "group_validate (ac_group C) B (attempt_group (sig_value sp) gid parity_roles) = (Ok () :: (('m, 'x) model_error, _) result)"
    "plan_hash C B (sig_value sp) = (Ok h :: (('m, 'x) coding_attempt_error, _) result)"
    "signed_sign K (ac_manifest C) ''mutualbackup/coding-root-manifest/v1''
       (attempt_manifest (sig_value sp) h (attempt_group (sig_value sp) gid parity_roles) inputs) keys
      = (Ok manifest :: (('m, 'x) model_error, _) result)"
proof -
  note a = assms [unfolded encode_coding_attempt_def Let_def]
  show thesis
    using a
    apply (clarsimp simp: and_then_Ok_iff map_err_Ok_iff split: if_split_asm)
    subgoal premises p for inputs encoded parity_roles gid h
      by (rule that [of inputs encoded parity_roles gid h])
        (use p in \<open>simp_all add: attempt_group_def attempt_manifest_def slice_def sub_def split: if_splits\<close>)
    subgoal premises p for inputs encoded parity_roles gid h
      by (rule that [of inputs encoded parity_roles gid h])
        (use p in \<open>simp_all add: attempt_group_def attempt_manifest_def slice_def sub_def split: if_splits\<close>)
    done
qed

lemma attempt_group_simps [simp]:
  "cg_profile (attempt_group plan gid parity_roles) = geo_profile (pl_geometry plan)"
  "cg_roles (attempt_group plan gid parity_roles) = map Information (geo_information (pl_geometry plan)) @ parity_roles"
  "cg_format_version (attempt_group plan gid parity_roles) = (if pl_format_version plan = 3 then 3 else 2)"
  "cg_guild_id (attempt_group plan gid parity_roles) = geo_guild_id (pl_geometry plan)" "cg_id (attempt_group plan gid parity_roles) = gid"
  by (simp_all add: attempt_group_def)

lemma manifest_validI:
  assumes v: "plan_validate B plan = (Ok () :: (('m, 'x) coding_attempt_error, _) result)"
    and h: "plan_hash C B plan = (Ok h :: (('m, 'x) coding_attempt_error, _) result)"
    and g: "group_validate (ac_group C) B (attempt_group plan gid parity_roles) = (Ok () :: (('m, 'x) model_error, _) result)"
    and par: "geometry_group_parity (geo_parity (pl_geometry plan)) parity_roles = (Ok () :: (('m, 'x) coding_attempt_error, _) result)"
      "length parity_roles = length (geo_parity (pl_geometry plan))"
    and ins: "length inputs = length (geo_information (pl_geometry plan))"
      "\<And>j. j < length inputs \<Longrightarrow> input_ok B plan j (geo_information (pl_geometry plan) ! j) (given ! j) (inputs ! j)
        \<and> length (inputs ! j) = cp_shard_size (geo_profile (pl_geometry plan))"
  shows "manifest_validate_for_plan C B (attempt_manifest plan h (attempt_group plan gid parity_roles) inputs) plan
    = (Ok () :: (('m, 'x) coding_attempt_error, _) result)"
proof -
  note plan = plan_validate_OkD [OF v]
  have geo: "geometry_validate_group C B (pl_geometry plan) (attempt_group plan gid parity_roles) = (Ok () :: (('m, 'x) coding_attempt_error, _) result)"
    using g par by (simp add: geometry_validate_group_def geometry_group_information_map)
  have "manifest_bytes_check B plan (cp_shard_size (geo_profile (pl_geometry plan))) 0
      (zip (map Information (geo_information (pl_geometry plan)) @ parity_roles)
        (map (\<lambda>(role, bytes). if \<not> sec_virtual_zero (ir_sector role) then Some bytes else None) (zip (geo_information (pl_geometry plan)) inputs)))
      = (Ok () :: (('m, 'x) coding_attempt_error, _) result)" if "pl_format_version plan = 3"
    using ins plan(4) [OF that] that
    by (intro manifest_bytes_check_inputs) (fastforce simp: input_ok_def split: if_splits)+
  then show ?thesis
    using h geo plan(1,3) ins(1)
    by (cases "pl_format_version plan = 3") (simp_all add: manifest_validate_for_plan_def attempt_manifest_def)
qed

section \<open>Properties\<close>

text \<open>C13: A verified transcript is a true sample. If \<open>replay_coding_transcript\<close> returns \<open>Verified\<close>, the
  transcript carries a valid signature of the plan's verification coordinator, the plan one of its
  delegator, the manifest one of its coding coordinator and every opening one of the holder of its shard;
  the manifest validates for the plan; and, when the proofs hash without collision against the shards
  the manifest's group commits to, these shards satisfy the Reed-Solomon equations on the leaf that the
  hash of the plan, the revealed nonce and the staged evidence select, the same leaf in every shard.\<close>

theorem replay_verified_sound:
  fixes R :: "'x reed_solomon" and C :: "'m attempt_codec"
  assumes run: "replay_coding_transcript K C B R evidence = Ok Verified"
    and com: "committed B (mf_group (sig_value (tr_manifest (sig_value evidence)))) shards"
    and cf: "evidence_collision_free B (tr_openings (sig_value evidence)) shards"
  shows "\<exists>h challenge leaf. let plan = sig_value (tr_plan (sig_value evidence)); g = mf_group (sig_value (tr_manifest (sig_value evidence))) in
    plan_hash C B plan = (Ok h :: (('m, 'x) coding_attempt_error, _) result)
    \<and> replay_challenge K C B plan h (sig_value evidence) = (Ok challenge :: (('m, 'x) coding_attempt_error, _) result)
    \<and> manifest_validate_for_plan C B (sig_value (tr_manifest (sig_value evidence))) plan = (Ok () :: (('m, 'x) coding_attempt_error, _) result)
    \<and> group_validate (ac_group C) B g = (Ok () :: (('m, 'x) model_error, _) result)
    \<and> sig_signer evidence = pl_verification_coordinator plan
    \<and> signed_verify K (ac_transcript C) ''mutualbackup/coding-transcript/v1'' evidence = (Ok () :: (('m, 'x) model_error, _) result)
    \<and> sig_signer (tr_plan (sig_value evidence)) = pl_delegator plan
    \<and> signed_verify K (ac_plan C) ''mutualbackup/coding-attempt-plan/v1'' (tr_plan (sig_value evidence)) = (Ok () :: (('m, 'x) model_error, _) result)
    \<and> sig_signer (tr_manifest (sig_value evidence)) = pl_coding_coordinator plan
    \<and> signed_verify K (ac_manifest C) ''mutualbackup/coding-root-manifest/v1'' (tr_manifest (sig_value evidence))
        = (Ok () :: (('m, 'x) model_error, _) result)
    \<and> list_all2 (\<lambda>role opening. authentic_opening K C (role_holder role) opening TYPE('x)) (cg_roles g) (tr_openings (sig_value evidence))
    \<and> (\<forall>role \<in> set (cg_roles g). challenged_leaf B challenge (role_commitment role) = Ok leaf)
    \<and> verify_sampled_codeword R (cg_profile g) (map (\<lambda>s. sub s (16 * leaf) 16) shards) = Ok ()"
proof -
  obtain h challenge r where r: "replayed K C B evidence h challenge r TYPE('x)"
    "case r of Inl f \<Rightarrow> Verified = f
     | Inr symbols \<Rightarrow> (let plan = sig_value (tr_plan (sig_value evidence));
           v = verify_sampled_codeword R (cg_profile (mf_group (sig_value (tr_manifest (sig_value evidence))))) symbols in
         v = Ok () \<and> Verified = Verified \<or> (\<exists>e. v = Err e) \<and> Verified = InvalidCoding (pl_coding_coordinator plan))"
    by (rule replay_OkE [OF run])
  show ?thesis
  proof (cases r)
    case (Inl f)
    then show ?thesis
      using r replay_openings_blame [of K C B "sig_value (tr_plan (sig_value evidence))" h _ challenge 0 _ f]
      by (fastforce simp: replayed_def Let_def)
  next
    case (Inr symbols)
    obtain leaf where leaf: "symbols = map (\<lambda>s. sub s (16 * leaf) 16) shards"
      "\<forall>role \<in> set (cg_roles (mf_group (sig_value (tr_manifest (sig_value evidence))))). challenged_leaf B challenge (role_commitment role) = Ok leaf"
      using replayed_symbols [OF r(1) [unfolded Inr] com cf] by blast
    note rep = r(1) [unfolded Inr]
    show ?thesis using rep r(2) Inr leaf manifest_group_valid replayed_openings_authentic [OF rep]
      by (intro exI [of _ h] exI [of _ challenge] exI [of _ leaf]) (auto simp: replayed_def Let_def)
  qed
qed

text \<open>C14: Only a holder that signed a bad opening is blamed. A finding \<open>InvalidOpening\<close> names the holder
  that the group assigns to the shard; that holder's signature on the opening in the transcript is
  valid; and it is not the opening of the challenged leaf, made for the hash of the plan, that an
  honest holder of the committed shard produces.\<close>

theorem replay_blames_bad_opening:
  fixes R :: "'x reed_solomon" and C :: "'m attempt_codec"
  assumes run: "replay_coding_transcript K C B R evidence = Ok (InvalidOpening holder i)"
  shows "\<exists>h challenge. let transcript = sig_value evidence; plan = sig_value (tr_plan transcript);
      g = mf_group (sig_value (tr_manifest transcript)); role = cg_roles g ! i; opening = tr_openings transcript ! i in
    i < length (cg_roles g) \<and> holder = role_holder role \<and> authentic_opening K C holder opening TYPE('x)
    \<and> plan_hash C B plan = (Ok h :: (('m, 'x) coding_attempt_error, _) result)
    \<and> replay_challenge K C B plan h transcript = (Ok challenge :: (('m, 'x) coding_attempt_error, _) result)
    \<and> (\<forall>s leaf p. merkle_commit B s = Ok (role_commitment role) \<longrightarrow> challenged_leaf B challenge (role_commitment role) = Ok leaf \<longrightarrow>
        merkle_open_range B s leaf 1 = Ok p \<longrightarrow> sig_value opening \<noteq> honest_opening plan h challenge i (role_commitment role) p)"
proof -
  let ?tr = "sig_value evidence"
  let ?plan = "sig_value (tr_plan ?tr)" and ?g = "mf_group (sig_value (tr_manifest ?tr))" and ?os = "tr_openings ?tr"
  obtain h challenge r where r: "replayed K C B evidence h challenge r TYPE('x)"
    "case r of Inl f \<Rightarrow> InvalidOpening holder i = f
     | Inr symbols \<Rightarrow> (let plan = ?plan; v = verify_sampled_codeword R (cg_profile ?g) symbols in
         v = Ok () \<and> InvalidOpening holder i = Verified \<or> (\<exists>e. v = Err e) \<and> InvalidOpening holder i = InvalidCoding (pl_coding_coordinator plan))"
    by (rule replay_OkE [OF run])
  have rf: "r = Inl (InvalidOpening holder i)" using r(2) by (cases r) (auto simp: Let_def)
  have valid: "group_validate (ac_group C) B ?g = (Ok () :: (('m, 'x) model_error, _) result)"
    and ph: "plan_hash C B ?plan = (Ok h :: (('m, 'x) coding_attempt_error, _) result)"
    and chal: "replay_challenge K C B ?plan h ?tr = (Ok challenge :: (('m, 'x) coding_attempt_error, _) result)"
    and loop: "replay_openings K C B ?plan h ?g challenge 0 ?os = (Ok (Inl (InvalidOpening holder i)) :: (('m, 'x) coding_attempt_error, _) result)"
    using r(1) manifest_group_valid unfolding rf by (auto simp: replayed_def Let_def)
  note g = group_validate_OkD [OF valid]
  obtain j where j: "j < length (cg_roles ?g)" "InvalidOpening holder i = InvalidOpening (role_holder (cg_roles ?g ! j)) (j mod 2 ^ 16)"
    "authentic_opening K C (role_holder (cg_roles ?g ! j)) (?os ! j) TYPE('x)"
    "\<nexists>symbol. accepted_opening B ?plan h challenge j (role_commitment (cg_roles ?g ! j)) (sig_value (?os ! j)) symbol"
    using replay_openings_blame [OF loop] by (auto simp: Let_def)
  have "length (cg_roles ?g) \<le> 64" using g(1,2) by (auto elim: profile_validate_OkE)
  then have ij: "i = j" "holder = role_holder (cg_roles ?g ! j)" using j(1,2) by simp_all
  have "sig_value (?os ! j) \<noteq> honest_opening ?plan h challenge j (role_commitment (cg_roles ?g ! j)) p"
    if c: "merkle_commit B s = Ok (role_commitment (cg_roles ?g ! j))"
      and l: "challenged_leaf B challenge (role_commitment (cg_roles ?g ! j)) = Ok leaf" and p: "merkle_open_range B s leaf 1 = Ok p" for s leaf p
    using honest_opening_accepted [OF g(6) [OF j(1), THEN conjunct2, THEN conjunct2, THEN conjunct1] c l p] j(4) by metis
  then show ?thesis using j ij ph chal by (intro exI [of _ h] exI [of _ challenge]) (simp add: Let_def)
qed

text \<open>C15: Only a bad encoding is blamed on the coding coordinator. A finding \<open>InvalidCoding\<close> names the
  coordinator that signed the manifest, and the shards the manifest commits to are not a codeword: a
  coordinator that committed to the shards it encoded is never blamed.\<close>

theorem replay_blames_bad_coding:
  fixes R :: "'x reed_solomon" and C :: "'m attempt_codec"
  assumes run: "replay_coding_transcript K C B R evidence = Ok (InvalidCoding coordinator)"
    and com: "committed B (mf_group (sig_value (tr_manifest (sig_value evidence)))) shards"
    and cf: "evidence_collision_free B (tr_openings (sig_value evidence)) shards"
    and R: "rs_contract R (cp_data_shards (cg_profile (mf_group (sig_value (tr_manifest (sig_value evidence))))))
      (cp_parity_shards (cg_profile (mf_group (sig_value (tr_manifest (sig_value evidence)))))) Code"
  shows "coordinator = pl_coding_coordinator (sig_value (tr_plan (sig_value evidence)))
    \<and> sig_signer (tr_manifest (sig_value evidence)) = coordinator
    \<and> signed_verify K (ac_manifest C) ''mutualbackup/coding-root-manifest/v1'' (tr_manifest (sig_value evidence))
        = (Ok () :: (('m, 'x) model_error, _) result)
    \<and> verify_codeword R (cg_profile (mf_group (sig_value (tr_manifest (sig_value evidence))))) shards \<noteq> Ok ()"
proof -
  let ?tr = "sig_value evidence"
  let ?plan = "sig_value (tr_plan ?tr)" and ?g = "mf_group (sig_value (tr_manifest ?tr))"
  obtain h challenge r where r: "replayed K C B evidence h challenge r TYPE('x)"
    "case r of Inl f \<Rightarrow> InvalidCoding coordinator = f
     | Inr symbols \<Rightarrow> (let plan = ?plan; v = verify_sampled_codeword R (cg_profile ?g) symbols in
         v = Ok () \<and> InvalidCoding coordinator = Verified \<or> (\<exists>e. v = Err e) \<and> InvalidCoding coordinator = InvalidCoding (pl_coding_coordinator plan))"
    by (rule replay_OkE [OF run])
  note rep = r(1) [unfolded replayed_def Let_def]
  have valid: "group_validate (ac_group C) B ?g = (Ok () :: (('m, 'x) model_error, _) result)"
    using rep manifest_group_valid by blast
  obtain symbols where s: "r = Inr symbols"
  proof (cases r)
    case (Inl f)
    then have "replay_openings K C B ?plan h ?g challenge 0 (tr_openings ?tr) = (Ok (Inl f) :: (('m, 'x) coding_attempt_error, _) result)"
      "f = InvalidCoding coordinator" using rep r(2) by auto
    then show ?thesis using replay_openings_blame [of K C B ?plan h ?g challenge 0 "tr_openings ?tr" f] by (auto simp: Let_def)
  qed
  have v: "verify_sampled_codeword R (cg_profile ?g) symbols \<noteq> Ok ()" "coordinator = pl_coding_coordinator ?plan"
    using r(2) s by (auto simp: Let_def)
  obtain leaf where leaf: "leaf < cp_shard_size (cg_profile ?g) div 16" "symbols = map (\<lambda>s. sub s (16 * leaf) 16) shards"
    using replayed_symbols [OF r(1) [unfolded s] com cf] by blast
  have "verify_codeword R (cg_profile ?g) shards \<noteq> Ok ()"
    using sampled_of_codeword [OF R group_validate_OkD(1) [OF valid] committed_shaped [OF valid com] leaf(1)] v(1) leaf(2) by auto
  then show ?thesis using rep v(2) by simp
qed

text \<open>C16: An encoded attempt is the attempt that was planned. A successful \<open>encode_coding_attempt\<close> yields a
  manifest that carries the coordinator's valid signature and passes \<open>validate_for_plan\<close>; the group in
  it commits to the delegated information shards (virtual-zero ones as zeros) followed by the returned
  parity, and these shards are a codeword of the planned profile.\<close>

theorem encode_attempt_correct:
  fixes R :: "'x reed_solomon" and C :: "'m attempt_codec"
  assumes run: "encode_coding_attempt K C B R signed_plan given keys = Ok (manifest, parity)"
    and ed: "ed25519_correct K" "\<not> ed_weak K (key_node_id K keys)"
    and R: "rs_contract R (cp_data_shards (geo_profile (pl_geometry (sig_value signed_plan))))
      (cp_parity_shards (geo_profile (pl_geometry (sig_value signed_plan)))) Code"
  shows "\<exists>inputs. let plan = sig_value signed_plan; g = mf_group (sig_value manifest) in
    manifest_validate_for_plan C B (sig_value manifest) plan = (Ok () :: (('m, 'x) coding_attempt_error, _) result)
    \<and> sig_signer manifest = pl_coding_coordinator plan
    \<and> signed_verify K (ac_manifest C) ''mutualbackup/coding-root-manifest/v1'' manifest = (Ok () :: (('m, 'x) model_error, _) result)
    \<and> committed B g (inputs @ parity) \<and> verify_codeword R (cg_profile g) (inputs @ parity) = Ok ()
    \<and> length inputs = length given \<and> (\<forall>i < length given. given ! i = Some (inputs ! i)
        \<or> given ! i = None \<and> inputs ! i = zeros (cp_shard_size (geo_profile (pl_geometry plan))))"
proof -
  let ?plan = "sig_value signed_plan"
  let ?geo = "pl_geometry ?plan" let ?p = "geo_profile ?geo"
  obtain inputs encoded parity_roles gid h where
    v: "plan_validate B ?plan = (Ok () :: (('m, 'x) coding_attempt_error, _) result)"
    and keys: "key_node_id K keys = pl_coding_coordinator ?plan" and len: "length given = length (geo_information ?geo)"
    and ins: "attempt_inputs B ?plan 0 (zip (geo_information ?geo) given) = (Ok inputs :: (('m, 'x) coding_attempt_error, _) result)"
    and enc: "encode R ?p inputs = Ok encoded" and par: "parity = drop (cp_data_shards ?p) encoded"
    and roles: "attempt_parity_roles B (zip (geo_parity ?geo) parity) = (Ok parity_roles :: (('m, 'x) coding_attempt_error, _) result)"
    and grp: "group_validate (ac_group C) B (attempt_group ?plan gid parity_roles) = (Ok () :: (('m, 'x) model_error, _) result)"
    and h: "plan_hash C B ?plan = (Ok h :: (('m, 'x) coding_attempt_error, _) result)"
    and sgn: "signed_sign K (ac_manifest C) ''mutualbackup/coding-root-manifest/v1''
       (attempt_manifest ?plan h (attempt_group ?plan gid parity_roles) inputs) keys = (Ok manifest :: (('m, 'x) model_error, _) result)"
    by (rule encode_attempt_OkE [OF run])
  note plan = plan_validate_OkD [OF v] and input = attempt_inputs_OkD [OF ins len [symmetric]]
  note sig = signed_sign_verify [OF ed sgn]
  obtain par' where e: "encoded = inputs @ par'" "length inputs = cp_data_shards ?p"
      "shaped (cp_data_shards ?p + cp_parity_shards ?p) (cp_shard_size ?p) encoded" "is_codeword Code (cp_shard_size ?p) encoded"
      "profile_validate ?p = (Ok () :: ('x coding_error, unit) result)"
    using encode_OkE [OF enc R] by metis
  have cw: "inputs @ parity = encoded" using e(1,2) par by simp
  have plen: "length (geo_parity ?geo) = length parity" using e(1,2,3) par plan(2) by (simp add: shaped_def)
  note pr = attempt_parity_roles_OkD [OF roles plen]
  let ?g = "attempt_group ?plan gid parity_roles"
  have com: "committed B ?g (inputs @ parity)"
    using input pr(1,3) len
    by (auto simp: committed_def attempt_group_def nth_append input_ok_def role_commitment_def)
  have "manifest_validate_for_plan C B (attempt_manifest ?plan h ?g inputs) ?plan = (Ok () :: (('m, 'x) coding_attempt_error, _) result)"
  proof (rule manifest_validI [OF v h grp])
    show "geometry_group_parity (geo_parity ?geo) parity_roles = (Ok () :: (('m, 'x) coding_attempt_error, _) result)" by (rule pr(2))
    show "length parity_roles = length (geo_parity ?geo)" using pr(1) plen by simp
    show "length inputs = length (geo_information ?geo)" using input(1) len by simp
    fix j assume j: "j < length inputs"
    have "length (inputs ! j) = cp_shard_size ?p" using e(1,3) j by (auto simp: shaped_def)
    then show "input_ok B ?plan j (geo_information ?geo ! j) (given ! j) (inputs ! j) \<and> length (inputs ! j) = cp_shard_size ?p"
      using input(2) [of j] input(1) j by simp
  qed
  moreover have "verify_codeword R ?p (inputs @ parity) = Ok ()" using verify_codeword_iff [OF R e(5,3)] e(4) cw by simp
  moreover have "given ! i = Some (inputs ! i) \<or> given ! i = None \<and> inputs ! i = zeros (cp_shard_size ?p)" if "i < length given" for i
    using input(2) [OF that] by (auto simp: input_ok_def split: if_splits)
  moreover have "mf_group (sig_value manifest) = ?g" "cg_profile ?g = ?p" by (simp_all add: sig(3) attempt_manifest_def attempt_group_def)
  ultimately show ?thesis using com sig keys input(1) by (intro exI [of _ inputs]) simp
qed

end
