(* ===== verification/Guild.thy ===== *)
theory Guild
  imports Attempt "HOL-Library.Product_Lexorder"
begin

text \<open>
  The dynamic guild of \<open>src/crates/mb-core/src/guild.rs\<close>: the quorum policy, the certified events and
  the replicated state they drive (members, writer and recovery keys, retained coding groups). An
  event is applied only with the signatures of a quorum of the active members, and events form a hash
  chain from genesis. Identifiers are compared as arrays of bytes, which is the order of the words.
  The code looks members and groups up by binary search; every caller validates the state first, so the
  lists are strictly sorted by that key and the search is a membership test.
\<close>

section \<open>Data\<close>

datatype quorum_rule = Unanimous | Majority | Threshold nat

record quorum_policy =
  qp_format_version :: nat
  qp_rule :: quorum_rule

record member =
  mb_node_id :: node_id
  mb_recovery_public_key :: digest
  mb_failure_domain :: string

record dynamic_member =
  dm_member :: member
  dm_joined_at_event :: nat
  dm_removed_at_event :: "nat option"

record writer_key_epoch =
  wr_owner :: node_id
  wr_epoch :: nat
  wr_public_key :: digest
  wr_activated_at_event :: nat
  wr_revoked_at_event :: "nat option"

record recovery_key_envelope =
  en_format_version :: nat
  en_guild_id :: digest
  en_subject :: node_id
  en_epoch :: nat
  en_public_key :: digest
  en_sealed_private_key :: sealed_recovery_record

record recovery_key_epoch =
  rk_envelope :: recovery_key_envelope
  rk_activated_at_event :: nat
  rk_revoked_at_event :: "nat option"

record retained_coding_group =
  rg_group :: coding_group_v2
  rg_added_at_event :: nat
  rg_retired_at_event :: "nat option"
  rg_retain_through_event :: "nat option"

datatype guild_event_kind =
    AddMember member
  | RemoveMember node_id
  | RelabelMember node_id string
  | SetQuorum quorum_policy
  | RotateWriterKey node_id nat digest
  | RevokeWriterKey node_id nat
  | RotateRecoveryKey recovery_key_envelope
  | RevokeRecoveryKey node_id nat
  | AddCodingGroup coding_group_v2
  | RetireCodingGroup digest nat
  | ForgetCodingGroup digest
  | AddCodingGroupBound coding_group_v2 digest

record guild_event =
  ev_format_version :: nat
  ev_guild_id :: digest
  ev_sequence :: nat
  ev_parent :: digest
  ev_kind :: guild_event_kind

record quorum_guild_event =
  qe_event :: guild_event
  qe_signatures :: "member_signature list"

record legacy_coding_add_statement =
  ls_format_version :: nat
  ls_guild_id :: digest
  ls_event_sequence :: nat
  ls_event_hash :: digest
  ls_transcript_hash :: digest

record quorum_legacy_coding_add_binding =
  lb_statement :: legacy_coding_add_statement
  lb_signatures :: "member_signature list"

record guild_event_tail =
  gt_format_version :: nat
  gt_base_sequence :: nat
  gt_base_head :: digest
  gt_events :: "quorum_guild_event list"

record dynamic_guild_state =
  gs_format_version :: nat
  gs_guild_id :: digest
  gs_event_sequence :: nat
  gs_event_head :: digest
  gs_membership_epoch :: nat
  gs_quorum :: quorum_policy
  gs_members :: "dynamic_member list"
  gs_writer_keys :: "writer_key_epoch list"
  gs_recovery_keys :: "recovery_key_epoch list"
  gs_coding_groups :: "retained_coding_group list"

datatype ('m, 'x) guild_state_error =
    InvalidState | InvalidEvent | InsufficientQuorum nat nat | InactiveMember node_id | InvalidPlacement | InvalidAttempt
  | RetentionActive | InvalidEnvelope | Model "('m, 'x) model_error" | Recovery recovery_crypto_error | Signature

text \<open>The canonical encodings the module uses, and the third-party code behind them.\<close>

record 'm guild_env =
  gv_crypto :: crypto
  gv_blake3 :: blake3
  gv_group :: "'m group_encoder"
  gv_event :: "('m, guild_event) encoder"
  gv_statement :: "('m, legacy_coding_add_statement) encoder"

section \<open>Quorums and events\<close>

definition quorum_required :: "quorum_policy \<Rightarrow> nat \<Rightarrow> (('m, 'x) guild_state_error, nat) result" where
  "quorum_required self active_members =
     (if qp_format_version self \<noteq> 1 \<or> active_members = 0 then Err InvalidState
      else and_then
        (case qp_rule self of
           Unanimous \<Rightarrow> Ok active_members
         | Majority \<Rightarrow> Ok (active_members div 2 + 1)
         | Threshold threshold \<Rightarrow> if threshold \<le> active_members div 2 then Err InvalidState else Ok threshold)
        (\<lambda>required. if required = 0 \<or> active_members < required then Err InvalidState else Ok required))"

definition is_active :: "dynamic_member \<Rightarrow> bool" where
  "is_active self \<longleftrightarrow> dm_removed_at_event self = None"

definition coding_group_add :: "guild_event_kind \<Rightarrow> (coding_group_v2 \<times> digest option) option" where
  "coding_group_add self =
     (case self of AddCodingGroup g \<Rightarrow> Some (g, None) | AddCodingGroupBound g h \<Rightarrow> Some (g, Some h) | _ \<Rightarrow> None)"

definition event_hash :: "'m guild_env \<Rightarrow> guild_event \<Rightarrow> (('m, 'x) guild_state_error, digest) result" where
  "event_hash E self = map_err Model (hash_canonical (gv_blake3 E) (gv_event E) ''mutualbackup guild event v1'' self)"

definition valid_event_format :: "guild_event \<Rightarrow> bool" where
  "valid_event_format event =
     (case ev_kind event of
        AddCodingGroupBound _ h \<Rightarrow> ev_format_version event = 2 \<and> h \<noteq> 0
      | _ \<Rightarrow> ev_format_version event = 1)"

text \<open>The strict verification of a member's signature over an encoded value, under a domain.\<close>

definition verify_member_signature ::
    "'m guild_env \<Rightarrow> string \<Rightarrow> ('m, 'a) encoder \<Rightarrow> 'a \<Rightarrow> member_signature \<Rightarrow> (('m, 'x) guild_state_error, unit) result" where
  "verify_member_signature E domain enc v sig =
     (let K = gv_crypto E in
      if \<not> ed_valid K (ms_signer sig) then Err Signature
      else if ed_weak K (ms_signer sig) then Err InvalidEvent
      else and_then (map_err Model (canonical_bytes enc v)) (\<lambda>bytes.
        if length (ms_signature sig) \<noteq> 64 then Err Signature
        else if ed_verify_strict K (ms_signer sig) (signing_payload (ascii domain) bytes) (ms_signature sig)
        then Ok () else Err Signature))"

definition verify_guild_event_signature ::
    "'m guild_env \<Rightarrow> guild_event \<Rightarrow> member_signature \<Rightarrow> (('m, 'x) guild_state_error, unit) result" where
  "verify_guild_event_signature E event sig = verify_member_signature E ''mutualbackup/guild-event/v1'' (gv_event E) event sig"

definition sign_guild_event ::
    "'m guild_env \<Rightarrow> guild_event \<Rightarrow> key_material \<Rightarrow> (('m, 'x) guild_state_error, member_signature) result" where
  "sign_guild_event E event keys =
     and_then (map_err Model (canonical_bytes (gv_event E) event)) (\<lambda>bytes.
     Ok \<lparr>ms_signer = key_node_id (gv_crypto E) keys, ms_signature = sign (gv_crypto E) keys (ascii ''mutualbackup/guild-event/v1'') bytes\<rparr>)"

section \<open>Validation\<close>

fun validate_members_loop ::
    "crypto \<Rightarrow> nat \<Rightarrow> node_id option \<Rightarrow> dynamic_member list \<Rightarrow> (('m, 'x) guild_state_error, unit) result" where
  "validate_members_loop K sequence previous [] = Ok ()"
| "validate_members_loop K sequence previous (entry # rest) =
     (let node = mb_node_id (dm_member entry); domain = mb_failure_domain (dm_member entry) in
      if (case previous of None \<Rightarrow> False | Some p \<Rightarrow> node \<le> p) \<or> node = 0 \<or> domain = [] \<or> 256 < length domain
         \<or> \<not> is_contributory K (mb_recovery_public_key (dm_member entry)) \<or> sequence < dm_joined_at_event entry
         \<or> (case dm_removed_at_event entry of None \<Rightarrow> False
            | Some removed \<Rightarrow> removed \<le> dm_joined_at_event entry \<or> sequence < removed)
      then Err InvalidState
      else if \<not> ed_valid K node then Err Signature
      else if ed_weak K node then Err InvalidState
      else validate_members_loop K sequence (Some node) rest)"

fun validate_writer_keys_loop ::
    "crypto \<Rightarrow> nat \<Rightarrow> (node_id \<times> nat) option \<Rightarrow> (node_id \<Rightarrow> nat) \<Rightarrow> writer_key_epoch list \<Rightarrow> (('m, 'x) guild_state_error, unit) result" where
  "validate_writer_keys_loop K sequence previous expected [] = Ok ()"
| "validate_writer_keys_loop K sequence previous expected (entry # rest) =
     (let order = (wr_owner entry, wr_epoch entry) in
      if \<not> ed_valid K (wr_public_key entry) then Err Signature
      else if (case previous of None \<Rightarrow> False | Some p \<Rightarrow> order \<le> p) then Err InvalidState
      else and_then (uadd 64 (expected (wr_owner entry)) 1) (\<lambda>next.
      if wr_epoch entry \<noteq> next \<or> wr_activated_at_event entry = 0 \<or> sequence < wr_activated_at_event entry
         \<or> (case wr_revoked_at_event entry of None \<Rightarrow> False
            | Some event \<Rightarrow> event \<le> wr_activated_at_event entry \<or> sequence < event)
         \<or> ed_weak K (wr_public_key entry)
      then Err InvalidState
      else validate_writer_keys_loop K sequence (Some order) (expected(wr_owner entry := wr_epoch entry)) rest))"

definition validate_writer_keys :: "crypto \<Rightarrow> dynamic_guild_state \<Rightarrow> (('m, 'x) guild_state_error, unit) result" where
  "validate_writer_keys K state = validate_writer_keys_loop K (gs_event_sequence state) None (\<lambda>_. 0) (gs_writer_keys state)"

definition validate_recovery_envelope :: "crypto \<Rightarrow> recovery_key_envelope \<Rightarrow> digest \<Rightarrow> (('m, 'x) guild_state_error, unit) result" where
  "validate_recovery_envelope K envelope guild_id =
     (if en_format_version envelope \<noteq> 1 \<or> en_guild_id envelope \<noteq> guild_id \<or> en_subject envelope = 0 \<or> en_epoch envelope = 0
         \<or> \<not> is_contributory K (en_public_key envelope) \<or> 4096 < length (sr_ciphertext (en_sealed_private_key envelope))
      then Err InvalidEnvelope else Ok ())"

fun validate_recovery_keys_loop ::
    "crypto \<Rightarrow> digest \<Rightarrow> nat \<Rightarrow> (node_id \<times> nat) option \<Rightarrow> (node_id \<Rightarrow> nat) \<Rightarrow> recovery_key_epoch list
      \<Rightarrow> (('m, 'x) guild_state_error, unit) result" where
  "validate_recovery_keys_loop K guild_id sequence previous expected [] = Ok ()"
| "validate_recovery_keys_loop K guild_id sequence previous expected (entry # rest) =
     and_then (validate_recovery_envelope K (rk_envelope entry) guild_id) (\<lambda>_.
     let subject = en_subject (rk_envelope entry); epoch = en_epoch (rk_envelope entry); order = (subject, epoch) in
     if (case previous of None \<Rightarrow> False | Some p \<Rightarrow> order \<le> p) then Err InvalidState
     else and_then (uadd 64 (expected subject) 1) (\<lambda>next.
     if epoch \<noteq> next \<or> rk_activated_at_event entry = 0 \<or> sequence < rk_activated_at_event entry
        \<or> (case rk_revoked_at_event entry of None \<Rightarrow> False
           | Some event \<Rightarrow> event \<le> rk_activated_at_event entry \<or> sequence < event)
     then Err InvalidState
     else validate_recovery_keys_loop K guild_id sequence (Some order) (expected(subject := epoch)) rest))"

definition validate_recovery_keys :: "crypto \<Rightarrow> dynamic_guild_state \<Rightarrow> (('m, 'x) guild_state_error, unit) result" where
  "validate_recovery_keys K state =
     validate_recovery_keys_loop K (gs_guild_id state) (gs_event_sequence state) None (\<lambda>_. 0) (gs_recovery_keys state)"

fun validate_coding_groups_loop ::
    "'m guild_env \<Rightarrow> digest \<Rightarrow> nat \<Rightarrow> digest option \<Rightarrow> retained_coding_group list \<Rightarrow> (('m, 'x) guild_state_error, unit) result" where
  "validate_coding_groups_loop E guild_id sequence previous [] = Ok ()"
| "validate_coding_groups_loop E guild_id sequence previous (retained # rest) =
     and_then (map_err Model (group_validate (gv_group E) (gv_blake3 E) (rg_group retained))) (\<lambda>_.
     if cg_guild_id (rg_group retained) \<noteq> guild_id
        \<or> (case previous of None \<Rightarrow> False | Some p \<Rightarrow> cg_id (rg_group retained) \<le> p)
        \<or> rg_added_at_event retained = 0 \<or> sequence < rg_added_at_event retained
        \<or> (rg_retired_at_event retained \<noteq> None) \<noteq> (rg_retain_through_event retained \<noteq> None)
        \<or> (case rg_retired_at_event retained of None \<Rightarrow> False
           | Some event \<Rightarrow> event < rg_added_at_event retained \<or> sequence < event)
        \<or> (case rg_retain_through_event retained of None \<Rightarrow> False
           | Some event \<Rightarrow> event < (case rg_retired_at_event retained of None \<Rightarrow> 0 | Some retired \<Rightarrow> retired))
     then Err InvalidState
     else validate_coding_groups_loop E guild_id sequence (Some (cg_id (rg_group retained))) rest)"

definition active_members :: "dynamic_guild_state \<Rightarrow> member list" where
  "active_members self = map dm_member (filter is_active (gs_members self))"

definition guild_validate :: "'m guild_env \<Rightarrow> dynamic_guild_state \<Rightarrow> (('m, 'x) guild_state_error, unit) result" where
  "guild_validate E self =
     (if gs_format_version self \<noteq> 1 \<or> gs_guild_id self = 0 \<or> gs_event_head self = 0 \<or> gs_membership_epoch self = 0
         \<or> gs_members self = [] \<or> 256 < length (gs_members self)
      then Err InvalidState
      else and_then (validate_members_loop (gv_crypto E) (gs_event_sequence self) None (gs_members self)) (\<lambda>_.
      and_then (quorum_required (gs_quorum self) (length (active_members self))) (\<lambda>_.
      and_then (validate_writer_keys (gv_crypto E) self) (\<lambda>_.
      and_then (validate_recovery_keys (gv_crypto E) self) (\<lambda>_.
      validate_coding_groups_loop E (gs_guild_id self) (gs_event_sequence self) None (gs_coding_groups self))))))"

definition guild_new ::
    "'m guild_env \<Rightarrow> digest \<Rightarrow> digest \<Rightarrow> quorum_policy \<Rightarrow> member list \<Rightarrow> (('m, 'x) guild_state_error, dynamic_guild_state) result" where
  "guild_new E guild_id genesis_hash quorum members =
     (let state = \<lparr>gs_format_version = 1, gs_guild_id = guild_id, gs_event_sequence = 0, gs_event_head = genesis_hash,
        gs_membership_epoch = 1, gs_quorum = quorum,
        gs_members = map (\<lambda>m. \<lparr>dm_member = m, dm_joined_at_event = 0, dm_removed_at_event = None\<rparr>) (sort_key mb_node_id members),
        gs_writer_keys = [], gs_recovery_keys = [], gs_coding_groups = []\<rparr> in
      and_then (guild_validate E state) (\<lambda>_. Ok state))"

section \<open>Certification\<close>

definition require_active_member :: "dynamic_guild_state \<Rightarrow> node_id \<Rightarrow> (('m, 'x) guild_state_error, dynamic_member) result" where
  "require_active_member self node =
     ok_or (find (\<lambda>entry. mb_node_id (dm_member entry) = node \<and> is_active entry) (gs_members self)) (InactiveMember node)"

text \<open>The loop over the signatures of an event; the result is the number of valid ones.\<close>

fun verify_signatures_loop ::
    "'m guild_env \<Rightarrow> guild_event \<Rightarrow> node_id set \<Rightarrow> node_id option \<Rightarrow> nat \<Rightarrow> member_signature list \<Rightarrow> (('m, 'x) guild_state_error, nat) result" where
  "verify_signatures_loop E event active previous valid [] = Ok valid"
| "verify_signatures_loop E event active previous valid (sig # sigs) =
     (if ms_signer sig \<notin> active \<or> (case previous of None \<Rightarrow> False | Some p \<Rightarrow> ms_signer sig \<le> p) then Err InvalidEvent
      else and_then (verify_guild_event_signature E event sig) (\<lambda>_.
        verify_signatures_loop E event active (Some (ms_signer sig)) (Suc valid) sigs))"

definition subject_authorization :: "guild_event_kind \<Rightarrow> node_id option" where
  "subject_authorization kind =
     (case kind of RotateWriterKey owner _ _ \<Rightarrow> Some owner | RotateRecoveryKey envelope \<Rightarrow> Some (en_subject envelope) | _ \<Rightarrow> None)"

definition verify_event ::
    "'m guild_env \<Rightarrow> dynamic_guild_state \<Rightarrow> quorum_guild_event \<Rightarrow> (('m, 'x) guild_state_error, unit) result" where
  "verify_event E self certified =
     and_then (guild_validate E self) (\<lambda>_.
     let event = qe_event certified in
     if \<not> valid_event_format event \<or> ev_guild_id event \<noteq> gs_guild_id self
        \<or> Some (ev_sequence event) \<noteq> checked_add 64 (gs_event_sequence self) 1 \<or> ev_parent event \<noteq> gs_event_head self
     then Err InvalidEvent
     else
      (let active = set (map mb_node_id (active_members self)) in
       and_then (verify_signatures_loop E event active None 0 (qe_signatures certified)) (\<lambda>valid.
       and_then (quorum_required (gs_quorum self) (card active)) (\<lambda>required.
       if valid < required then Err (InsufficientQuorum valid required)
       else if (case subject_authorization (ev_kind event) of None \<Rightarrow> False
             | Some subject \<Rightarrow> \<not> list_ex (\<lambda>sig. ms_signer sig = subject) (qe_signatures certified))
       then Err InvalidEvent
       else Ok ()))))"

section \<open>Applying events\<close>

text \<open>\<open>iter_mut().find(p)\<close> followed by an assignment, and \<open>remove\<close> at the position of the first match.\<close>

fun update_first :: "('a \<Rightarrow> bool) \<Rightarrow> ('a \<Rightarrow> 'a) \<Rightarrow> 'a list \<Rightarrow> 'a list option" where
  "update_first p f [] = None"
| "update_first p f (x # xs) = (if p x then Some (f x # xs) else map_option (Cons x) (update_first p f xs))"

fun remove_first :: "('a \<Rightarrow> bool) \<Rightarrow> 'a list \<Rightarrow> 'a list" where
  "remove_first p [] = []"
| "remove_first p (x # xs) = (if p x then xs else x # remove_first p xs)"

text \<open>\<open>insert\<close> at the partition point of the keys below \<open>k\<close>.\<close>

definition insert_sorted :: "('a \<Rightarrow> 'k :: linorder) \<Rightarrow> 'a \<Rightarrow> 'a list \<Rightarrow> 'a list" where
  "insert_sorted key x xs = takeWhile (\<lambda>e. key e < key x) xs @ x # dropWhile (\<lambda>e. key e < key x) xs"

definition max_epoch :: "nat list \<Rightarrow> nat" where
  "max_epoch epochs = fold max epochs 0"

definition validate_member :: "crypto \<Rightarrow> member \<Rightarrow> (('m, 'x) guild_state_error, unit) result" where
  "validate_member K m =
     (if mb_node_id m = 0 \<or> mb_failure_domain m = [] \<or> 256 < length (mb_failure_domain m) \<or> \<not> is_contributory K (mb_recovery_public_key m)
      then Err InvalidEvent
      else if \<not> ed_valid K (mb_node_id m) then Err Signature
      else if ed_weak K (mb_node_id m) then Err InvalidEvent
      else Ok ())"

definition update_active_member ::
    "dynamic_guild_state \<Rightarrow> node_id \<Rightarrow> (dynamic_member \<Rightarrow> dynamic_member) \<Rightarrow> (('m, 'x) guild_state_error, dynamic_guild_state) result" where
  "update_active_member self node f =
     and_then (ok_or (update_first (\<lambda>entry. mb_node_id (dm_member entry) = node \<and> is_active entry) f (gs_members self)) (InactiveMember node))
       (\<lambda>members. Ok (self\<lparr>gs_members := members\<rparr>))"

definition next_membership_epoch :: "dynamic_guild_state \<Rightarrow> (('m, 'x) guild_state_error, dynamic_guild_state) result" where
  "next_membership_epoch self = and_then (uadd 64 (gs_membership_epoch self) 1) (\<lambda>epoch. Ok (self\<lparr>gs_membership_epoch := epoch\<rparr>))"

fun group_placement_check :: "dynamic_guild_state \<Rightarrow> shard_role_v2 list \<Rightarrow> (('m, 'x) guild_state_error, unit) result" where
  "group_placement_check self [] = Ok ()"
| "group_placement_check self (role # roles) =
     and_then (require_active_member self (role_holder role)) (\<lambda>entry.
     if mb_failure_domain (dm_member entry) \<noteq> role_domain role then Err InvalidPlacement
     else group_placement_check self roles)"

definition validate_current_group_placement ::
    "dynamic_guild_state \<Rightarrow> coding_group_v2 \<Rightarrow> (('m, 'x) guild_state_error, unit) result" where
  "validate_current_group_placement self g = group_placement_check self (cg_roles g)"

text \<open>The membership events.\<close>

definition apply_membership_event ::
    "'m guild_env \<Rightarrow> nat \<Rightarrow> guild_event_kind \<Rightarrow> dynamic_guild_state \<Rightarrow> (('m, 'x) guild_state_error, dynamic_guild_state) result" where
  "apply_membership_event E sequence kind self =
     (case kind of
        AddMember m \<Rightarrow>
          and_then (validate_member (gv_crypto E) m) (\<lambda>_.
          if mb_node_id m \<in> set (map (\<lambda>entry. mb_node_id (dm_member entry)) (gs_members self)) then Err InvalidEvent
          else next_membership_epoch (self\<lparr>gs_members := insert_sorted (\<lambda>entry. mb_node_id (dm_member entry))
            \<lparr>dm_member = m, dm_joined_at_event = sequence, dm_removed_at_event = None\<rparr> (gs_members self)\<rparr>))
      | RemoveMember node \<Rightarrow>
          and_then (update_active_member self node (\<lambda>entry. entry\<lparr>dm_removed_at_event := Some sequence\<rparr>)) (\<lambda>self1.
          and_then (next_membership_epoch self1) (\<lambda>self2.
          and_then (quorum_required (gs_quorum self2) (length (active_members self2))) (\<lambda>_. Ok self2)))
      | RelabelMember node domain \<Rightarrow>
          if domain = [] \<or> 256 < length domain then Err InvalidEvent
          else and_then (update_active_member self node (\<lambda>entry. entry\<lparr>dm_member := (dm_member entry)\<lparr>mb_failure_domain := domain\<rparr>\<rparr>))
            next_membership_epoch
      | SetQuorum policy \<Rightarrow>
          and_then (quorum_required policy (length (active_members self))) (\<lambda>_. next_membership_epoch (self\<lparr>gs_quorum := policy\<rparr>))
      | _ \<Rightarrow> Ok self)"

text \<open>The key events.\<close>

definition apply_key_event ::
    "'m guild_env \<Rightarrow> nat \<Rightarrow> guild_event_kind \<Rightarrow> dynamic_guild_state \<Rightarrow> (('m, 'x) guild_state_error, dynamic_guild_state) result" where
  "apply_key_event E sequence kind self =
     (case kind of
        RotateWriterKey owner epoch public_key \<Rightarrow>
          and_then (require_active_member self owner) (\<lambda>_.
          if \<not> ed_valid (gv_crypto E) public_key then Err Signature
          else if ed_weak (gv_crypto E) public_key then Err InvalidEvent
          else and_then (uadd 64 (max_epoch (map wr_epoch (filter (\<lambda>entry. wr_owner entry = owner) (gs_writer_keys self)))) 1) (\<lambda>next.
            if epoch \<noteq> next then Err InvalidEvent
            else Ok (self\<lparr>gs_writer_keys := sort_key (\<lambda>entry. (wr_owner entry, wr_epoch entry)) (gs_writer_keys self @
              [\<lparr>wr_owner = owner, wr_epoch = epoch, wr_public_key = public_key, wr_activated_at_event = sequence, wr_revoked_at_event = None\<rparr>])\<rparr>)))
      | RevokeWriterKey owner epoch \<Rightarrow>
          and_then (ok_or (find (\<lambda>entry. wr_owner entry = owner \<and> wr_epoch entry = epoch) (gs_writer_keys self)) InvalidEvent) (\<lambda>entry.
          if wr_revoked_at_event entry \<noteq> None then Err InvalidEvent
          else and_then (ok_or (update_first (\<lambda>entry. wr_owner entry = owner \<and> wr_epoch entry = epoch)
              (\<lambda>entry. entry\<lparr>wr_revoked_at_event := Some sequence\<rparr>) (gs_writer_keys self)) InvalidEvent) (\<lambda>writer_keys.
            Ok (self\<lparr>gs_writer_keys := writer_keys\<rparr>)))
      | RotateRecoveryKey envelope \<Rightarrow>
          and_then (require_active_member self (en_subject envelope)) (\<lambda>_.
          and_then (validate_recovery_envelope (gv_crypto E) envelope (gs_guild_id self)) (\<lambda>_.
          and_then (uadd 64 (max_epoch (map (\<lambda>entry. en_epoch (rk_envelope entry))
              (filter (\<lambda>entry. en_subject (rk_envelope entry) = en_subject envelope) (gs_recovery_keys self)))) 1) (\<lambda>next.
          if en_epoch envelope \<noteq> next then Err InvalidEvent
          else Ok (self\<lparr>gs_recovery_keys := sort_key (\<lambda>entry. (en_subject (rk_envelope entry), en_epoch (rk_envelope entry)))
            (gs_recovery_keys self @ [\<lparr>rk_envelope = envelope, rk_activated_at_event = sequence, rk_revoked_at_event = None\<rparr>])\<rparr>))))
      | RevokeRecoveryKey subject epoch \<Rightarrow>
          and_then (ok_or (find (\<lambda>entry. en_subject (rk_envelope entry) = subject \<and> en_epoch (rk_envelope entry) = epoch)
              (gs_recovery_keys self)) InvalidEvent) (\<lambda>entry.
          if rk_revoked_at_event entry \<noteq> None then Err InvalidEvent
          else and_then (ok_or (update_first (\<lambda>entry. en_subject (rk_envelope entry) = subject \<and> en_epoch (rk_envelope entry) = epoch)
              (\<lambda>entry. entry\<lparr>rk_revoked_at_event := Some sequence\<rparr>) (gs_recovery_keys self)) InvalidEvent) (\<lambda>recovery_keys.
            Ok (self\<lparr>gs_recovery_keys := recovery_keys\<rparr>)))
      | _ \<Rightarrow> Ok self)"

text \<open>The coding-group events.\<close>

definition add_coding_group ::
    "'m guild_env \<Rightarrow> nat \<Rightarrow> coding_group_v2 \<Rightarrow> dynamic_guild_state \<Rightarrow> (('m, 'x) guild_state_error, dynamic_guild_state) result" where
  "add_coding_group E sequence g self =
     and_then (map_err Model (group_validate (gv_group E) (gv_blake3 E) g)) (\<lambda>_.
     if cg_guild_id g \<noteq> gs_guild_id self \<or> cg_id g \<in> set (map (\<lambda>entry. cg_id (rg_group entry)) (gs_coding_groups self)) then Err InvalidEvent
     else and_then (validate_current_group_placement self g) (\<lambda>_.
       Ok (self\<lparr>gs_coding_groups := insert_sorted (\<lambda>entry. cg_id (rg_group entry))
         \<lparr>rg_group = g, rg_added_at_event = sequence, rg_retired_at_event = None, rg_retain_through_event = None\<rparr> (gs_coding_groups self)\<rparr>)))"

definition apply_group_event ::
    "'m guild_env \<Rightarrow> nat \<Rightarrow> guild_event_kind \<Rightarrow> dynamic_guild_state \<Rightarrow> (('m, 'x) guild_state_error, dynamic_guild_state) result" where
  "apply_group_event E sequence kind self =
     (case kind of
        AddCodingGroup g \<Rightarrow> add_coding_group E sequence g self
      | AddCodingGroupBound g _ \<Rightarrow> add_coding_group E sequence g self
      | RetireCodingGroup gid retain_through \<Rightarrow>
          and_then (ok_or (find (\<lambda>entry. cg_id (rg_group entry) = gid) (gs_coding_groups self)) InvalidEvent) (\<lambda>entry.
          if rg_retired_at_event entry \<noteq> None \<or> retain_through < sequence then Err InvalidEvent
          else and_then (ok_or (update_first (\<lambda>entry. cg_id (rg_group entry) = gid)
              (\<lambda>entry. entry\<lparr>rg_retired_at_event := Some sequence, rg_retain_through_event := Some retain_through\<rparr>)
              (gs_coding_groups self)) InvalidEvent) (\<lambda>coding_groups.
            Ok (self\<lparr>gs_coding_groups := coding_groups\<rparr>)))
      | ForgetCodingGroup gid \<Rightarrow>
          and_then (ok_or (find (\<lambda>entry. cg_id (rg_group entry) = gid) (gs_coding_groups self)) InvalidEvent) (\<lambda>entry.
          if (case rg_retain_through_event entry of None \<Rightarrow> True | Some retained \<Rightarrow> sequence \<le> retained) then Err RetentionActive
          else Ok (self\<lparr>gs_coding_groups := remove_first (\<lambda>entry. cg_id (rg_group entry) = gid) (gs_coding_groups self)\<rparr>))
      | _ \<Rightarrow> Ok self)"

text \<open>Each kind is handled by exactly one of the three groups of branches.\<close>

definition apply_verified_event ::
    "'m guild_env \<Rightarrow> quorum_guild_event \<Rightarrow> dynamic_guild_state \<Rightarrow> (('m, 'x) guild_state_error, dynamic_guild_state) result" where
  "apply_verified_event E certified self =
     (let sequence = ev_sequence (qe_event certified); kind = ev_kind (qe_event certified) in
      and_then (apply_membership_event E sequence kind self) (\<lambda>self1.
      and_then (apply_key_event E sequence kind self1) (\<lambda>self2.
      and_then (apply_group_event E sequence kind self2) (\<lambda>self3.
      and_then (event_hash E (qe_event certified)) (\<lambda>h.
      let self4 = self3\<lparr>gs_event_sequence := sequence, gs_event_head := h\<rparr> in
      and_then (guild_validate E self4) (\<lambda>_. Ok self4))))))"

definition apply_event :: "'m guild_env \<Rightarrow> quorum_guild_event \<Rightarrow> (dynamic_guild_state, ('m, 'x) guild_state_error, unit) op" where
  "apply_event E certified self =
     (case and_then (verify_event E self certified) (\<lambda>_. apply_verified_event E certified self) of
        Inl e \<Rightarrow> (self, Inl e)
      | Inr next \<Rightarrow> (next, Ok ()))"

definition validate_event_proposal ::
    "'m guild_env \<Rightarrow> dynamic_guild_state \<Rightarrow> guild_event \<Rightarrow> (('m, 'x) guild_state_error, unit) result" where
  "validate_event_proposal E self event =
     and_then (guild_validate E self) (\<lambda>_.
     if \<not> valid_event_format event \<or> ev_guild_id event \<noteq> gs_guild_id self then Err InvalidEvent
     else and_then (uadd 64 (gs_event_sequence self) 1) (\<lambda>sequence.
     if ev_sequence event \<noteq> sequence \<or> ev_parent event \<noteq> gs_event_head self then Err InvalidEvent
     else and_then (apply_verified_event E \<lparr>qe_event = event, qe_signatures = []\<rparr> self) (\<lambda>_. Ok ())))"

fun apply_events :: "'m guild_env \<Rightarrow> quorum_guild_event list \<Rightarrow> (dynamic_guild_state, ('m, 'x) guild_state_error, unit) op" where
  "apply_events E [] self = (self, Ok ())"
| "apply_events E (event # events) self =
     (case apply_event E event self of
        (self1, Inl e) \<Rightarrow> (self1, Inl e)
      | (self1, Inr _) \<Rightarrow> apply_events E events self1)"

definition apply_tail :: "'m guild_env \<Rightarrow> guild_event_tail \<Rightarrow> (dynamic_guild_state, ('m, 'x) guild_state_error, unit) op" where
  "apply_tail E tail self =
     (if gt_format_version tail \<noteq> 1 \<or> gt_base_sequence tail \<noteq> gs_event_sequence self \<or> gt_base_head tail \<noteq> gs_event_head self
         \<or> 4096 < length (gt_events tail)
      then (self, Err InvalidEvent)
      else case apply_events E (gt_events tail) self of
        (next, Inl e) \<Rightarrow> (self, Inl e)
      | (next, Inr _) \<Rightarrow> (next, Ok ()))"

section \<open>Queries\<close>

fun attempt_nodes_check :: "dynamic_guild_state \<Rightarrow> node_id list \<Rightarrow> (('m, 'x) guild_state_error, unit) result" where
  "attempt_nodes_check self [] = Ok ()"
| "attempt_nodes_check self (node # nodes) =
     and_then (map_err (\<lambda>_ :: ('m, 'x) guild_state_error. InvalidAttempt) (require_active_member self node)) (\<lambda>_. attempt_nodes_check self nodes)"

fun attempt_placement_check :: "dynamic_guild_state \<Rightarrow> (node_id \<times> string) list \<Rightarrow> (('m, 'x) guild_state_error, unit) result" where
  "attempt_placement_check self [] = Ok ()"
| "attempt_placement_check self ((node, domain) # rest) =
     and_then (map_err (\<lambda>_ :: ('m, 'x) guild_state_error. InvalidAttempt) (require_active_member self node)) (\<lambda>entry.
     if mb_failure_domain (dm_member entry) \<noteq> domain then Err InvalidAttempt else attempt_placement_check self rest)"

definition validate_attempt_authority ::
    "'m guild_env \<Rightarrow> dynamic_guild_state \<Rightarrow> coding_attempt_plan \<Rightarrow> (('m, 'x) guild_state_error, unit) result" where
  "validate_attempt_authority E self plan =
     and_then (map_err (\<lambda>_ :: ('m, 'x) coding_attempt_error. InvalidAttempt) (plan_validate (gv_blake3 E) plan)) (\<lambda>_.
     if geo_guild_id (pl_geometry plan) \<noteq> gs_guild_id self \<or> pl_membership_epoch plan \<noteq> gs_membership_epoch self then Err InvalidAttempt
     else and_then (attempt_nodes_check self [pl_delegator plan, pl_coding_coordinator plan, pl_verification_coordinator plan]) (\<lambda>_.
     and_then (attempt_placement_check self
       (map (\<lambda>role. (ir_owner role, ir_failure_domain role)) (geo_information (pl_geometry plan)))) (\<lambda>_.
     attempt_placement_check self (map (\<lambda>role. (pp_holder role, pp_failure_domain role)) (geo_parity (pl_geometry plan))))))"

definition validate_attempt ::
    "'m guild_env \<Rightarrow> dynamic_guild_state \<Rightarrow> coding_attempt_plan \<Rightarrow> nat \<Rightarrow> (('m, 'x) guild_state_error, unit) result" where
  "validate_attempt E self plan now =
     and_then (validate_attempt_authority E self plan) (\<lambda>_.
     if pl_expires_at_unix_seconds plan < now then Err InvalidAttempt else Ok ())"

definition writer_key_for_retained_revision :: "dynamic_guild_state \<Rightarrow> node_id \<Rightarrow> nat \<Rightarrow> digest option" where
  "writer_key_for_retained_revision self owner epoch =
     map_option wr_public_key (find (\<lambda>entry. wr_owner entry = owner \<and> wr_epoch entry = epoch) (gs_writer_keys self))"

text \<open>\<open>max_by_key\<close> returns the last of several maximal elements.\<close>

fun max_by_key :: "('a \<Rightarrow> nat) \<Rightarrow> 'a list \<Rightarrow> 'a option" where
  "max_by_key key [] = None"
| "max_by_key key (x # xs) =
     (case max_by_key key xs of None \<Rightarrow> Some x | Some y \<Rightarrow> if key y < key x then Some x else Some y)"

definition current_recovery_key :: "dynamic_guild_state \<Rightarrow> node_id \<Rightarrow> recovery_key_epoch option" where
  "current_recovery_key self subject =
     (case max_by_key (\<lambda>entry. en_epoch (rk_envelope entry)) (filter (\<lambda>entry. en_subject (rk_envelope entry) = subject) (gs_recovery_keys self)) of
        None \<Rightarrow> None
      | Some entry \<Rightarrow> if rk_revoked_at_event entry = None then Some entry else None)"

definition writer_epoch_is_current :: "dynamic_guild_state \<Rightarrow> node_id \<Rightarrow> nat \<Rightarrow> bool" where
  "writer_epoch_is_current self owner epoch \<longleftrightarrow>
     (case max_by_key wr_epoch (filter (\<lambda>entry. wr_owner entry = owner) (gs_writer_keys self)) of
        None \<Rightarrow> False
      | Some entry \<Rightarrow> wr_epoch entry = epoch \<and> wr_revoked_at_event entry = None)"

end
