(* ===== verification/Genesis.thy ===== *)
theory Genesis
  imports Guild_Safety
begin

text \<open>
  The genesis of a guild and two small signed records, from \<open>src/crates/mb-core/src/model.rs\<close>. A genesis
  names five members in five failure domains and counts only with the signatures of all of them.
\<close>

section \<open>Data\<close>

record guild_genesis =
  ge_format_version :: nat
  ge_guild_id :: digest
  ge_coordinator :: node_id
  ge_members :: "member list"

record quorum_guild_genesis =
  qg_genesis :: guild_genesis
  qg_signatures :: "member_signature list"

record guild_invite =
  iv_format_version :: nat
  iv_guild_id :: digest
  iv_coordinator :: member
  iv_coordinator_endpoints :: "string list"
  iv_nonce :: "128 word"
  iv_expires_at_unix_seconds :: nat

record storage_acknowledgement =
  ak_format_version :: nat
  ak_operation_id :: "128 word"
  ak_guild_id :: digest
  ak_group_id :: digest
  ak_shard_index :: nat
  ak_row :: nat
  ak_root :: digest
  ak_holder :: node_id

section \<open>Operations\<close>

fun validate_members_from ::
    "crypto \<Rightarrow> node_id option \<Rightarrow> node_id set \<Rightarrow> string set \<Rightarrow> member list \<Rightarrow> (('m, 'x) model_error, unit) result" where
  "validate_members_from K previous node_ids failure_domains [] = Ok ()"
| "validate_members_from K previous node_ids failure_domains (m # ms) =
     (if (case previous of None \<Rightarrow> False | Some p \<Rightarrow> mb_node_id m \<le> p) \<or> mb_node_id m \<in> node_ids
         \<or> mb_failure_domain m \<in> failure_domains \<or> mb_failure_domain m = [] \<or> 256 < length (mb_failure_domain m)
         \<or> \<not> is_contributory K (mb_recovery_public_key m)
      then Err InvalidGenesis
      else if \<not> ed_valid K (mb_node_id m) then Err PublicKey
      else if ed_weak K (mb_node_id m) then Err WeakPublicKey
      else validate_members_from K (Some (mb_node_id m)) (insert (mb_node_id m) node_ids) (insert (mb_failure_domain m) failure_domains) ms)"

definition validate_members :: "crypto \<Rightarrow> member list \<Rightarrow> (('m, 'x) model_error, unit) result" where
  "validate_members K ms = validate_members_from K None {} {} ms"

definition genesis_validate :: "crypto \<Rightarrow> guild_genesis \<Rightarrow> (('m, 'x) model_error, unit) result" where
  "genesis_validate K self =
     (if ge_format_version self \<noteq> 1 \<or> ge_guild_id self = 0 \<or> length (ge_members self) \<noteq> 5
         \<or> \<not> list_ex (\<lambda>m. mb_node_id m = ge_coordinator self) (ge_members self)
      then Err InvalidGenesis
      else map_err (\<lambda>_ :: ('m, 'x) model_error. InvalidGenesis) (validate_members K (ge_members self)))"

definition genesis_hash :: "crypto \<Rightarrow> blake3 \<Rightarrow> ('m, guild_genesis) encoder \<Rightarrow> guild_genesis \<Rightarrow> (('m, 'x) model_error, digest) result" where
  "genesis_hash K B enc self =
     and_then (genesis_validate K self) (\<lambda>_. hash_canonical B enc ''mutualbackup guild genesis v1'' self)"

definition genesis_member_signature ::
    "crypto \<Rightarrow> ('m, guild_genesis) encoder \<Rightarrow> guild_genesis \<Rightarrow> key_material \<Rightarrow> (('m, 'x) model_error, member_signature) result" where
  "genesis_member_signature K enc self keys =
     and_then (genesis_validate K self) (\<lambda>_.
     let signer = key_node_id K keys in
     if \<not> list_ex (\<lambda>m. mb_node_id m = signer) (ge_members self) then Err (NonMemberSigner signer)
     else and_then (canonical_bytes enc self) (\<lambda>bytes.
       Ok \<lparr>ms_signer = signer, ms_signature = sign K keys (ascii ''mutualbackup/guild-genesis/v1'') bytes\<rparr>))"

text \<open>The loop over the signatures; the result is the set of signers.\<close>

fun genesis_signatures_loop ::
    "crypto \<Rightarrow> byte list \<Rightarrow> node_id set \<Rightarrow> node_id option \<Rightarrow> node_id set \<Rightarrow> member_signature list \<Rightarrow> (('m, 'x) model_error, node_id set) result" where
  "genesis_signatures_loop K encoded member_ids previous signers [] = Ok signers"
| "genesis_signatures_loop K encoded member_ids previous signers (sig # sigs) =
     (if ms_signer sig \<notin> member_ids \<or> (case previous of None \<Rightarrow> False | Some p \<Rightarrow> ms_signer sig \<le> p) \<or> ms_signer sig \<in> signers
      then Err InvalidGenesis
      else if \<not> ed_valid K (ms_signer sig) then Err PublicKey
      else if ed_weak K (ms_signer sig) then Err WeakPublicKey
      else if length (ms_signature sig) \<noteq> 64
        \<or> \<not> ed_verify_strict K (ms_signer sig) (signing_payload (ascii ''mutualbackup/guild-genesis/v1'') encoded) (ms_signature sig)
      then Err PublicKey
      else genesis_signatures_loop K encoded member_ids (Some (ms_signer sig)) (insert (ms_signer sig) signers) sigs)"

definition quorum_genesis_verify ::
    "crypto \<Rightarrow> ('m, guild_genesis) encoder \<Rightarrow> quorum_guild_genesis \<Rightarrow> (('m, 'x) model_error, unit) result" where
  "quorum_genesis_verify K enc self =
     and_then (genesis_validate K (qg_genesis self)) (\<lambda>_.
     and_then (canonical_bytes enc (qg_genesis self)) (\<lambda>encoded.
     let member_ids = set (map mb_node_id (ge_members (qg_genesis self))) in
     and_then (genesis_signatures_loop K encoded member_ids None {} (qg_signatures self)) (\<lambda>signers.
     if card signers \<noteq> card member_ids then Err (model_error.InsufficientQuorum (card signers) (card member_ids)) else Ok ())))"

definition quorum_genesis_hash ::
    "crypto \<Rightarrow> blake3 \<Rightarrow> ('m, guild_genesis) encoder \<Rightarrow> quorum_guild_genesis \<Rightarrow> (('m, 'x) model_error, digest) result" where
  "quorum_genesis_hash K B enc self =
     and_then (quorum_genesis_verify K enc self) (\<lambda>_. genesis_hash K B enc (qg_genesis self))"

definition invite_validate :: "crypto \<Rightarrow> guild_invite \<Rightarrow> (('m, 'x) model_error, unit) result" where
  "invite_validate K self =
     (if iv_format_version self \<noteq> 1 \<or> iv_guild_id self = 0 \<or> iv_coordinator_endpoints self = []
         \<or> 8 < length (iv_coordinator_endpoints self)
         \<or> list_ex (\<lambda>endpoint. endpoint = [] \<or> 512 < length endpoint) (iv_coordinator_endpoints self)
         \<or> iv_nonce self = 0 \<or> iv_expires_at_unix_seconds self = 0
         \<or> is_err (validate_members K [iv_coordinator self] :: (('m, 'x) model_error, unit) result)
      then Err InvalidInvite else Ok ())"

definition acknowledgement_validate :: "storage_acknowledgement \<Rightarrow> (('m, 'x) model_error, unit) result" where
  "acknowledgement_validate self =
     (if ak_format_version self \<noteq> 1 \<or> ak_operation_id self = 0 \<or> ak_guild_id self = 0 \<or> ak_group_id self = 0
         \<or> \<not> (3 \<le> ak_shard_index self \<and> ak_shard_index self \<le> 4) \<or> ak_row self \<noteq> ak_shard_index self - 3 \<or> ak_root self = 0
      then Err InvalidStorageAcknowledgement else Ok ())"

section \<open>Properties\<close>

lemma validate_members_from_OkD:
  assumes "validate_members_from K previous node_ids domains ms = (Ok () :: (('m, 'x) model_error, _) result)"
  shows "sorted_wrt (<) (map mb_node_id ms) \<and> distinct (map mb_failure_domain ms) \<and> mb_failure_domain ` set ms \<inter> domains = {} \<and>
    (\<forall>m \<in> set ms. \<forall>p. previous = Some p \<longrightarrow> p < mb_node_id m)"
  using assms
proof (induction ms arbitrary: previous node_ids domains)
  case (Cons m ms)
  have step: "\<forall>p. previous = Some p \<longrightarrow> p < mb_node_id m" "mb_failure_domain m \<notin> domains"
    "validate_members_from K (Some (mb_node_id m)) (insert (mb_node_id m) node_ids) (insert (mb_failure_domain m) domains) ms
      = (Ok () :: (('m, 'x) model_error, _) result)"
    using Cons.prems by (auto simp: not_le split: if_splits option.splits)
  note ih = Cons.IH [OF step(3)]
  have "mb_failure_domain m \<notin> mb_failure_domain ` set ms" using ih by blast
  then show ?case using ih step(1,2) by (auto intro: less_trans)
qed simp

lemma genesis_signatures_loop_OkD:
  assumes "genesis_signatures_loop K encoded ids previous signers sigs = (Ok result :: (('m, 'x) model_error, _) result)"
  shows "result = signers \<union> ms_signer ` set sigs \<and> ms_signer ` set sigs \<subseteq> ids \<and>
    (\<forall>sig \<in> set sigs. ed_verify_strict K (ms_signer sig) (signing_payload (ascii ''mutualbackup/guild-genesis/v1'') encoded) (ms_signature sig))"
  using assms
proof (induction sigs arbitrary: previous signers)
  case (Cons sig sigs)
  have step: "genesis_signatures_loop K encoded ids (Some (ms_signer sig)) (insert (ms_signer sig) signers) sigs = (Ok result :: (('m, 'x) model_error, _) result)"
    "ms_signer sig \<in> ids" "ed_verify_strict K (ms_signer sig) (signing_payload (ascii ''mutualbackup/guild-genesis/v1'') encoded) (ms_signature sig)"
    using Cons.prems by (auto split: if_splits)
  show ?case using Cons.IH [OF step(1)] step(2,3) by auto
qed simp

text \<open>C31: A genesis is accepted only unanimously: if it verifies, it has exactly five members with distinct
  node identifiers in five distinct failure domains, and every one of them, the coordinator included,
  has signed the genesis with a signature that verifies strictly.\<close>

theorem genesis_unanimous:
  assumes "quorum_genesis_verify K enc g = (Ok () :: (('m, 'x) model_error, _) result)"
  shows "\<exists>encoded. enc (qg_genesis g) = Inr encoded \<and> length (ge_members (qg_genesis g)) = 5
    \<and> distinct (map mb_node_id (ge_members (qg_genesis g))) \<and> distinct (map mb_failure_domain (ge_members (qg_genesis g)))
    \<and> ge_coordinator (qg_genesis g) \<in> mb_node_id ` set (ge_members (qg_genesis g))
    \<and> (\<forall>m \<in> set (ge_members (qg_genesis g)). \<exists>sig \<in> set (qg_signatures g). ms_signer sig = mb_node_id m
      \<and> ed_verify_strict K (mb_node_id m) (signing_payload (ascii ''mutualbackup/guild-genesis/v1'') encoded) (ms_signature sig))"
proof -
  let ?ms = "ge_members (qg_genesis g)"
  obtain encoded signers where a: "genesis_validate K (qg_genesis g) = (Ok () :: (('m, 'x) model_error, _) result)"
      "enc (qg_genesis g) = Inr encoded"
      "genesis_signatures_loop K encoded (mb_node_id ` set ?ms) None {} (qg_signatures g) = (Ok signers :: (('m, 'x) model_error, _) result)"
      "card signers = card (mb_node_id ` set ?ms)"
    using assms by (auto simp: quorum_genesis_verify_def Let_def and_then_Ok_iff canonical_bytes_def split: if_splits sum.splits)
  have shape: "length ?ms = 5" "ge_coordinator (qg_genesis g) \<in> mb_node_id ` set ?ms"
      "validate_members_from K None {} {} ?ms = (Ok () :: (('m, 'x) model_error, _) result)"
    using a(1) by (auto simp: genesis_validate_def validate_members_def map_err_Ok_iff list_ex_iff intro: rev_image_eqI split: if_splits)
  have sigs: "signers = ms_signer ` set (qg_signatures g)" "signers \<subseteq> mb_node_id ` set ?ms"
    "\<forall>sig \<in> set (qg_signatures g). ed_verify_strict K (ms_signer sig) (signing_payload (ascii ''mutualbackup/guild-genesis/v1'') encoded) (ms_signature sig)"
    using genesis_signatures_loop_OkD [OF a(3)] by auto
  have signed: "mb_node_id ` set ?ms = ms_signer ` set (qg_signatures g)"
    using card_subset_eq [OF _ sigs(2) a(4)] sigs(1) by simp
  have all: "\<exists>sig \<in> set (qg_signatures g). ms_signer sig = mb_node_id m
      \<and> ed_verify_strict K (mb_node_id m) (signing_payload (ascii ''mutualbackup/guild-genesis/v1'') encoded) (ms_signature sig)"
    if "m \<in> set ?ms" for m
  proof -
    have "mb_node_id m \<in> ms_signer ` set (qg_signatures g)" using that signed by blast
    then obtain sig where "sig \<in> set (qg_signatures g)" "ms_signer sig = mb_node_id m" by auto
    then show ?thesis using sigs(3) by (intro bexI [of _ sig]) auto
  qed
  have "distinct (map mb_node_id ?ms)" "distinct (map mb_failure_domain ?ms)"
    using validate_members_from_OkD [OF shape(3)] strict_sorted_iff [of "map mb_node_id ?ms"] by auto
  then show ?thesis using a(2) shape(1,2) all by (intro exI [of _ encoded]) simp
qed

end
