(* ===== verification/Guild_Binding.thy ===== *)
theory Guild_Binding
  imports Guild_Safety
begin

text \<open>
  Two records that hang on a guild event, from \<open>src/crates/mb-core/src/guild.rs\<close>: the quorum binding of a
  coding transcript to an event certified before transcripts were bound, and the recovery key
  envelopes. The random bytes an envelope draws are arguments, and so is the codec of its plaintext.
\<close>

section \<open>Legacy transcript bindings\<close>

definition LEGACY_CODING_ADD_BINDING_DOMAIN :: string where
  "LEGACY_CODING_ADD_BINDING_DOMAIN = ''mutualbackup/legacy-coding-add-binding/v1''"

definition is_legacy_add :: "guild_event_kind \<Rightarrow> bool" where
  "is_legacy_add kind \<longleftrightarrow> (case kind of AddCodingGroup _ \<Rightarrow> True | _ \<Rightarrow> False)"

definition statement_for_event ::
    "'m guild_env \<Rightarrow> quorum_guild_event \<Rightarrow> digest \<Rightarrow> (('m, 'x) guild_state_error, legacy_coding_add_statement) result" where
  "statement_for_event E certified transcript_hash =
     (if \<not> is_legacy_add (ev_kind (qe_event certified)) \<or> transcript_hash = 0 then Err InvalidEvent
      else and_then (event_hash E (qe_event certified)) (\<lambda>h.
        Ok \<lparr>ls_format_version = 1, ls_guild_id = ev_guild_id (qe_event certified), ls_event_sequence = ev_sequence (qe_event certified),
            ls_event_hash = h, ls_transcript_hash = transcript_hash\<rparr>))"

definition sign_legacy_coding_add_binding ::
    "'m guild_env \<Rightarrow> legacy_coding_add_statement \<Rightarrow> key_material \<Rightarrow> (('m, 'x) guild_state_error, member_signature) result" where
  "sign_legacy_coding_add_binding E statement keys =
     and_then (map_err Model (canonical_bytes (gv_statement E) statement)) (\<lambda>bytes.
     Ok \<lparr>ms_signer = key_node_id (gv_crypto E) keys,
         ms_signature = sign (gv_crypto E) keys (ascii LEGACY_CODING_ADD_BINDING_DOMAIN) bytes\<rparr>)"

definition verify_legacy_coding_add_signature ::
    "'m guild_env \<Rightarrow> legacy_coding_add_statement \<Rightarrow> member_signature \<Rightarrow> (('m, 'x) guild_state_error, unit) result" where
  "verify_legacy_coding_add_signature E statement sig =
     verify_member_signature E LEGACY_CODING_ADD_BINDING_DOMAIN (gv_statement E) statement sig"

fun binding_signatures_loop ::
    "'m guild_env \<Rightarrow> legacy_coding_add_statement \<Rightarrow> node_id set \<Rightarrow> node_id set \<Rightarrow> node_id option \<Rightarrow> member_signature list
      \<Rightarrow> (('m, 'x) guild_state_error, unit) result" where
  "binding_signatures_loop E statement active original_signers previous [] = Ok ()"
| "binding_signatures_loop E statement active original_signers previous (sig # sigs) =
     (if ms_signer sig \<notin> active \<or> ms_signer sig \<notin> original_signers
         \<or> (case previous of None \<Rightarrow> False | Some p \<Rightarrow> ms_signer sig \<le> p)
      then Err InvalidEvent
      else and_then (verify_legacy_coding_add_signature E statement sig) (\<lambda>_.
        binding_signatures_loop E statement active original_signers (Some (ms_signer sig)) sigs))"

text \<open>The event hash is computed only when the tests before it pass.\<close>

definition binding_verify ::
    "'m guild_env \<Rightarrow> quorum_legacy_coding_add_binding \<Rightarrow> dynamic_guild_state \<Rightarrow> quorum_guild_event \<Rightarrow> (('m, 'x) guild_state_error, unit) result" where
  "binding_verify E self state_before certified =
     and_then (verify_event E state_before certified) (\<lambda>_.
     let event = qe_event certified; statement = lb_statement self in
     if \<not> is_legacy_add (ev_kind event) \<or> ls_format_version statement \<noteq> 1 \<or> ls_guild_id statement \<noteq> ev_guild_id event
        \<or> ls_event_sequence statement \<noteq> ev_sequence event
     then Err InvalidEvent
     else and_then (event_hash E event) (\<lambda>h.
     if ls_event_hash statement \<noteq> h \<or> ls_transcript_hash statement = 0 then Err InvalidEvent
     else
      (let active = set (map mb_node_id (active_members state_before));
           original_signers = set (map ms_signer (qe_signatures certified)) in
       and_then (binding_signatures_loop E statement active original_signers None (lb_signatures self)) (\<lambda>_.
       and_then (quorum_required (gs_quorum state_before) (card active)) (\<lambda>required.
       if length (lb_signatures self) < required then Err (InsufficientQuorum (length (lb_signatures self)) required)
       else Ok ())))))"

lemma binding_signatures_loop_OkD:
  assumes "binding_signatures_loop E statement active original_signers previous sigs = (Ok () :: (('m, 'x) guild_state_error, _) result)"
  shows "sorted_wrt (<) (map ms_signer sigs) \<and> (\<forall>sig \<in> set sigs. ms_signer sig \<in> active \<and> ms_signer sig \<in> original_signers
      \<and> verify_legacy_coding_add_signature E statement sig = (Ok () :: (('m, 'x) guild_state_error, _) result)
      \<and> (\<forall>p. previous = Some p \<longrightarrow> p < ms_signer sig))"
  using assms
proof (induction sigs arbitrary: previous)
  case (Cons sig sigs)
  have step: "ms_signer sig \<in> active" "ms_signer sig \<in> original_signers" "\<forall>p. previous = Some p \<longrightarrow> p < ms_signer sig"
    "verify_legacy_coding_add_signature E statement sig = (Ok () :: (('m, 'x) guild_state_error, _) result)"
    "binding_signatures_loop E statement active original_signers (Some (ms_signer sig)) sigs = (Ok () :: (('m, 'x) guild_state_error, _) result)"
    using Cons.prems by (auto simp: and_then_Ok_iff not_le split: if_splits option.splits)
  from Cons.IH [OF step(5)] step(1-4) show ?case by (auto intro: less_trans)
qed simp

lemma binding_verify_OkD:
  assumes "binding_verify E self s c = (Ok () :: (('m, 'x) guild_state_error, _) result)"
  shows "binding_signatures_loop E (lb_statement self) (mb_node_id ` set (active_members s)) (ms_signer ` set (qe_signatures c)) None (lb_signatures self)
      = (Ok () :: (('m, 'x) guild_state_error, _) result)"
    "\<exists>r. quorum_required (gs_quorum s) (card (mb_node_id ` set (active_members s))) = (Ok r :: (('m, 'x) guild_state_error, _) result)
      \<and> r \<le> length (lb_signatures self)"
    "is_legacy_add (ev_kind (qe_event c))" "ls_event_sequence (lb_statement self) = ev_sequence (qe_event c)"
    "event_hash E (qe_event c) = (Ok (ls_event_hash (lb_statement self)) :: (('m, 'x) guild_state_error, _) result)"
    "verify_event E s c = (Ok () :: (('m, 'x) guild_state_error, _) result)" "ls_guild_id (lb_statement self) = ev_guild_id (qe_event c)"
  using assms by (auto simp: binding_verify_def Let_def and_then_Ok_iff not_less split: if_splits)

text \<open>C30: A legacy coding addition has one transcript unless a member equivocates. If two bindings verify for
  the same certified event at the same state, some active member signed both statements and the event
  itself, and all three signatures verify strictly; both statements name the hash of that event.\<close>

theorem bindings_share_signer:
  assumes "binding_verify E a s c = (Ok () :: (('m, 'x) guild_state_error, _) result)"
    "binding_verify E b s c = (Ok () :: (('m, 'x) guild_state_error, _) result)"
  shows "\<exists>sig \<in> set (lb_signatures a). \<exists>sig' \<in> set (lb_signatures b). ms_signer sig = ms_signer sig'
    \<and> ms_signer sig \<in> mb_node_id ` set (active_members s) \<inter> ms_signer ` set (qe_signatures c)
    \<and> (\<exists>own \<in> set (qe_signatures c). ms_signer own = ms_signer sig
        \<and> verify_guild_event_signature E (qe_event c) own = (Ok () :: (('m, 'x) guild_state_error, _) result))
    \<and> verify_legacy_coding_add_signature E (lb_statement a) sig = (Ok () :: (('m, 'x) guild_state_error, _) result)
    \<and> verify_legacy_coding_add_signature E (lb_statement b) sig' = (Ok () :: (('m, 'x) guild_state_error, _) result)
    \<and> event_hash E (qe_event c) = (Ok (ls_event_hash (lb_statement a)) :: (('m, 'x) guild_state_error, _) result)
    \<and> ls_event_hash (lb_statement a) = ls_event_hash (lb_statement b)"
proof -
  let ?M = "mb_node_id ` set (active_members s)"
  note A = binding_signatures_loop_OkD [OF binding_verify_OkD(1) [OF assms(1)]]
  note B = binding_signatures_loop_OkD [OF binding_verify_OkD(1) [OF assms(2)]]
  obtain r where r: "quorum_required (gs_quorum s) (card ?M) = (Ok r :: (('m, 'x) guild_state_error, _) result)" "r \<le> length (lb_signatures a)"
    using binding_verify_OkD(2) [OF assms(1)] by blast
  have rb: "r \<le> length (lb_signatures b)" using binding_verify_OkD(2) [OF assms(2)] r(1) by auto
  have "card (ms_signer ` set (lb_signatures x)) = length (lb_signatures x)" if "sorted_wrt (<) (map ms_signer (lb_signatures x))" for x
    using that strict_sorted_iff [of "map ms_signer (lb_signatures x)"] by (simp add: distinct_card flip: set_map)
  then have "ms_signer ` set (lb_signatures a) \<inter> ms_signer ` set (lb_signatures b) \<noteq> {}"
    using A B r(2) rb by (intro policy.quorums_intersect [OF _ quorum_required_policy [OF r(1)]]) auto
  then obtain sig sig' where sig: "sig \<in> set (lb_signatures a)" "sig' \<in> set (lb_signatures b)" "ms_signer sig = ms_signer sig'" by auto
  obtain own where own: "own \<in> set (qe_signatures c)" "ms_signer own = ms_signer sig" using A sig(1) by force
  have "verify_guild_event_signature E (qe_event c) own = (Ok () :: (('m, 'x) guild_state_error, _) result)"
    using verify_event_OkD(8) [OF binding_verify_OkD(6) [OF assms(1)]] own(1) by blast
  moreover have "ls_event_hash (lb_statement a) = ls_event_hash (lb_statement b)"
    using binding_verify_OkD(5) [OF assms(1)] binding_verify_OkD(5) [OF assms(2)] by simp
  ultimately show ?thesis using A B sig own binding_verify_OkD(5) [OF assms(1)] by blast
qed

section \<open>Recovery key envelopes\<close>

type_synonym envelope_plaintext = "nat \<times> digest \<times> node_id \<times> nat \<times> digest \<times> secret"

definition epoch_public_key :: "crypto \<Rightarrow> secret \<Rightarrow> digest" where
  "epoch_public_key K secret = x_public K secret"

definition epoch_open_record :: "crypto \<Rightarrow> secret \<Rightarrow> sealed_recovery_record \<Rightarrow> (recovery_crypto_error, byte list) result" where
  "epoch_open_record K secret record = open_recovery_record_with_secret K secret (epoch_public_key K secret) record"

definition create_recovery_key_envelope ::
    "crypto \<Rightarrow> ('m, envelope_plaintext) encoder \<Rightarrow> secret \<Rightarrow> secret \<Rightarrow> byte list \<Rightarrow> key_material \<Rightarrow> digest \<Rightarrow> nat
      \<Rightarrow> (('m, 'x) guild_state_error, recovery_key_envelope \<times> secret) result" where
  "create_recovery_key_envelope K enc secret_bytes ephemeral nonce keys guild_id epoch =
     (if guild_id = 0 \<or> epoch = 0 then Err InvalidEnvelope
      else
       (let public_key = epoch_public_key K secret_bytes in
        and_then (map_err Model (canonical_bytes enc (1, guild_id, key_node_id K keys, epoch, public_key, secret_bytes))) (\<lambda>plaintext.
        and_then (map_err Recovery (seal_recovery_record K ephemeral nonce (recovery_public_key K keys) plaintext)) (\<lambda>sealed.
        Ok (\<lparr>en_format_version = 1, en_guild_id = guild_id, en_subject = key_node_id K keys, en_epoch = epoch,
             en_public_key = public_key, en_sealed_private_key = sealed\<rparr>, secret_bytes)))))"

definition open_recovery_key_envelope ::
    "crypto \<Rightarrow> ('m, envelope_plaintext) decoder \<Rightarrow> key_material \<Rightarrow> recovery_key_envelope \<Rightarrow> (('m, 'x) guild_state_error, secret) result" where
  "open_recovery_key_envelope K dec keys envelope =
     and_then (validate_recovery_envelope K envelope (en_guild_id envelope)) (\<lambda>_.
     if en_subject envelope \<noteq> key_node_id K keys then Err InvalidEnvelope
     else and_then (map_err Recovery (open_recovery_record K keys (en_sealed_private_key envelope))) (\<lambda>plaintext.
     and_then (map_err Model (decode_canonical dec plaintext)) (\<lambda>(version, guild_id, subject, epoch, public_key, secret).
     if version \<noteq> 1 \<or> guild_id \<noteq> en_guild_id envelope \<or> subject \<noteq> en_subject envelope \<or> epoch \<noteq> en_epoch envelope
        \<or> public_key \<noteq> en_public_key envelope
     then Err InvalidEnvelope
     else if epoch_public_key K secret \<noteq> en_public_key envelope then Err InvalidEnvelope
     else Ok secret)))"

text \<open>C32: A recovery key envelope is opened by its subject to the secret it was created with, and that secret
  opens every record sealed to the envelope's public key. Needed of the primitives: correct AEAD and
  Diffie-Hellman, a plaintext codec that decodes what it encodes, and an envelope that validates.\<close>

theorem envelope_roundtrip:
  assumes "aead_correct (xchacha20 K)" "x25519_correct K" "\<And>v bs. enc v = Inr bs \<Longrightarrow> dec bs = Inr v"
    and "create_recovery_key_envelope K enc secret ephemeral nonce keys guild_id epoch = (Ok (envelope, secret') :: (('m, 'x) guild_state_error, _) result)"
    and "validate_recovery_envelope K envelope guild_id = (Ok () :: (('m, 'x) guild_state_error, _) result)"
  shows "open_recovery_key_envelope K dec keys envelope = (Ok secret' :: (('m, 'x) guild_state_error, _) result)
    \<and> (seal_recovery_record K ephemeral' nonce' (en_public_key envelope) m = Ok record \<longrightarrow> epoch_open_record K secret' record = Ok m)"
proof -
  obtain plaintext sealed where a: "secret' = secret"
      "canonical_bytes enc (1, guild_id, key_node_id K keys, epoch, x_public K secret, secret) = (Ok plaintext :: (('m, 'x) model_error, _) result)"
      "seal_recovery_record K ephemeral nonce (recovery_public_key K keys) plaintext = Ok sealed"
      "envelope = \<lparr>en_format_version = 1, en_guild_id = guild_id, en_subject = key_node_id K keys, en_epoch = epoch,
         en_public_key = x_public K secret, en_sealed_private_key = sealed\<rparr>"
    using assms(4) by (auto simp: create_recovery_key_envelope_def epoch_public_key_def Let_def and_then_Ok_iff map_err_Ok_iff split: if_splits)
  have "dec plaintext = Inr (1, guild_id, key_node_id K keys, epoch, x_public K secret, secret)"
    using a(2) by (intro assms(3)) (auto simp: canonical_bytes_def split: sum.splits)
  then have "open_recovery_key_envelope K dec keys envelope = (Ok secret' :: (('m, 'x) guild_state_error, _) result)"
    using sealed_record_opens [OF assms(1,2) a(3)] assms(5)
    by (simp add: open_recovery_key_envelope_def a(1,4) decode_canonical_def epoch_public_key_def)
  moreover have "epoch_open_record K secret' record = Ok m" if "seal_recovery_record K ephemeral' nonce' (en_public_key envelope) m = Ok record"
    using sealed_record_opens [OF assms(1,2), of ephemeral' nonce' "\<lparr>km_signing = 0, km_recovery_secret = secret, km_storage_key = 0\<rparr>" m "record"] that
    by (simp add: a(1,4) recovery_public_key_def open_recovery_record_def epoch_open_record_def epoch_public_key_def)
  ultimately show ?thesis by blast
qed

end
