(* ===== verification/Guild_History.thy ===== *)
theory Guild_History
  imports Guild_Safety
begin

text \<open>
  What a run of certified events may change: records of members and keys are only ever added or
  closed, coding groups leave the state only after their retention window, and every membership
  event opens a new epoch. Stated for \<open>apply_events\<close>, the loop of \<open>apply_tail\<close>.
\<close>

section \<open>Append-only records\<close>

definition set_once :: "'a option \<Rightarrow> 'a option \<Rightarrow> bool" where
  "set_once a b \<longleftrightarrow> a = None \<or> b = a"

lemma set_once_simps [simp]: "set_once a a" "set_once None b" "set_once (Some x) b \<longleftrightarrow> b = Some x"
  by (auto simp: set_once_def)

lemma set_once_trans: "set_once a b \<Longrightarrow> set_once b c \<Longrightarrow> set_once a c"
  by (auto simp: set_once_def)

lemma update_first_SomeD:
  assumes "update_first p f xs = Some ys"
  obtains a x b where "xs = a @ x # b" "ys = a @ f x # b" "p x" "find p xs = Some x"
  using assms
proof (induction xs arbitrary: ys thesis)
  case (Cons y xs)
  show ?case
  proof (cases "p y")
    case True
    then show ?thesis using Cons.prems(2) by (intro Cons.prems(1) [of "[]" y xs]) auto
  next
    case False
    then obtain zs where zs: "update_first p f xs = Some zs" "ys = y # zs" using Cons.prems(2) by auto
    obtain a x b where "xs = a @ x # b" "zs = a @ f x # b" "p x" "find p xs = Some x" using Cons.IH [OF _ zs(1)] .
    then show ?thesis using False zs(2) by (intro Cons.prems(1) [of "y # a" x b]) auto
  qed
qed simp

lemma set_insert_sorted [simp]: "set (insert_sorted key x xs) = insert x (set xs)"
proof -
  have "set xs = set (takeWhile (\<lambda>e. key e < key x) xs) \<union> set (dropWhile (\<lambda>e. key e < key x) xs)"
    by (metis set_append takeWhile_dropWhile_id)
  then show ?thesis by (auto simp: insert_sorted_def)
qed

lemma remove_first_keeps: "x \<in> set xs \<Longrightarrow> x \<in> set (remove_first p xs) \<or> find p xs = Some x"
  by (induction xs) auto

definition kept :: "('a \<Rightarrow> 'a \<Rightarrow> bool) \<Rightarrow> 'a list \<Rightarrow> 'a list \<Rightarrow> bool" where
  "kept R xs ys \<longleftrightarrow> (\<forall>x \<in> set xs. \<exists>y \<in> set ys. R x y)"

text \<open>A record relation that may hold between an entry and what later events make of it.\<close>

locale record_history =
  fixes extending :: "'a \<Rightarrow> 'a \<Rightarrow> bool"
  assumes extends_refl: "extending x x"
    and extends_trans: "extending x y \<Longrightarrow> extending y z \<Longrightarrow> extending x z"
begin

lemma kept_subset: "set xs \<subseteq> set ys \<Longrightarrow> kept extending xs ys"
  unfolding kept_def using extends_refl by blast

lemma kept_trans: "kept extending xs ys \<Longrightarrow> kept extending ys zs \<Longrightarrow> kept extending xs zs"
  unfolding kept_def using extends_trans by meson

lemma kept_update_first:
  assumes "update_first p f xs = Some ys" "\<And>x. find p xs = Some x \<Longrightarrow> extending x (f x)"
  shows "kept extending xs ys"
proof -
  obtain a x b where ab: "xs = a @ x # b" "ys = a @ f x # b" "find p xs = Some x" using assms(1) by (rule update_first_SomeD)
  then have "extending x (f x)" using assms(2) by blast
  then show ?thesis unfolding kept_def ab(1,2) using extends_refl by auto
qed

end

definition member_extends :: "dynamic_member \<Rightarrow> dynamic_member \<Rightarrow> bool" where
  "member_extends m m' \<longleftrightarrow> mb_node_id (dm_member m') = mb_node_id (dm_member m)
     \<and> mb_recovery_public_key (dm_member m') = mb_recovery_public_key (dm_member m)
     \<and> dm_joined_at_event m' = dm_joined_at_event m \<and> set_once (dm_removed_at_event m) (dm_removed_at_event m')"

definition writer_extends :: "writer_key_epoch \<Rightarrow> writer_key_epoch \<Rightarrow> bool" where
  "writer_extends w w' \<longleftrightarrow> wr_owner w' = wr_owner w \<and> wr_epoch w' = wr_epoch w \<and> wr_public_key w' = wr_public_key w
     \<and> wr_activated_at_event w' = wr_activated_at_event w \<and> set_once (wr_revoked_at_event w) (wr_revoked_at_event w')"

definition recovery_extends :: "recovery_key_epoch \<Rightarrow> recovery_key_epoch \<Rightarrow> bool" where
  "recovery_extends k k' \<longleftrightarrow> rk_envelope k' = rk_envelope k \<and> rk_activated_at_event k' = rk_activated_at_event k
     \<and> set_once (rk_revoked_at_event k) (rk_revoked_at_event k')"

interpretation mem: record_history member_extends
  by unfold_locales (auto simp: member_extends_def intro: set_once_trans)

interpretation wri: record_history writer_extends
  by unfold_locales (auto simp: writer_extends_def intro: set_once_trans)

interpretation rec: record_history recovery_extends
  by unfold_locales (auto simp: recovery_extends_def intro: set_once_trans)

definition history_kept :: "dynamic_guild_state \<Rightarrow> dynamic_guild_state \<Rightarrow> bool" where
  "history_kept s s' \<longleftrightarrow> gs_guild_id s' = gs_guild_id s \<and> gs_membership_epoch s \<le> gs_membership_epoch s'
     \<and> kept member_extends (gs_members s) (gs_members s') \<and> kept writer_extends (gs_writer_keys s) (gs_writer_keys s')
     \<and> kept recovery_extends (gs_recovery_keys s) (gs_recovery_keys s')"

lemmas kept_refl [simp] = mem.kept_subset [OF order_refl] wri.kept_subset [OF order_refl] rec.kept_subset [OF order_refl]

lemma history_kept_refl [simp]: "history_kept s s"
  by (simp add: history_kept_def)

lemma history_kept_trans: "history_kept s t \<Longrightarrow> history_kept t u \<Longrightarrow> history_kept s u"
  unfolding history_kept_def using mem.kept_trans wri.kept_trans rec.kept_trans by (auto intro: order_trans)

section \<open>The effect of each branch\<close>

lemma next_membership_epoch_OkD:
  "next_membership_epoch s = (Ok t :: (('m, 'x) guild_state_error, _) result) \<Longrightarrow> t = s\<lparr>gs_membership_epoch := Suc (gs_membership_epoch s)\<rparr>"
  by (auto simp: next_membership_epoch_def and_then_Ok_iff uadd_iff)

lemma update_active_member_OkD:
  assumes "update_active_member s node f = (Ok t :: (('m, 'x) guild_state_error, _) result)"
    "\<And>m. is_active m \<Longrightarrow> member_extends m (f m)"
  shows "kept member_extends (gs_members s) (gs_members t)" "t = s\<lparr>gs_members := gs_members t\<rparr>"
proof -
  obtain ms where ms: "update_first (\<lambda>entry. mb_node_id (dm_member entry) = node \<and> is_active entry) f (gs_members s) = Some ms"
      "t = s\<lparr>gs_members := ms\<rparr>"
    using assms(1) by (auto simp: update_active_member_def and_then_Ok_iff ok_or_iff)
  show "t = s\<lparr>gs_members := gs_members t\<rparr>" using ms(2) by simp
  show "kept member_extends (gs_members s) (gs_members t)" unfolding ms(2) using assms(2)
    by (auto intro!: mem.kept_update_first [OF ms(1)] simp: find_Some_iff)
qed

lemma apply_membership_event_kept:
  assumes "apply_membership_event E n kind s = (Ok t :: (('m, 'x) guild_state_error, _) result)"
  shows "history_kept s t"
proof (cases kind)
  case (AddMember m)
  then show ?thesis using assms
    by (auto simp: apply_membership_event_def and_then_Ok_iff history_kept_def dest!: next_membership_epoch_OkD
        intro!: mem.kept_subset split: if_splits)
next
  case (RemoveMember node)
  then obtain t1 where t: "update_active_member s node (\<lambda>entry. entry\<lparr>dm_removed_at_event := Some n\<rparr>) = (Ok t1 :: (('m, 'x) guild_state_error, _) result)"
      "t = t1\<lparr>gs_membership_epoch := Suc (gs_membership_epoch t1)\<rparr>"
    using assms by (auto simp: apply_membership_event_def and_then_Ok_iff dest!: next_membership_epoch_OkD)
  have "kept member_extends (gs_members s) (gs_members t1)" "t1 = s\<lparr>gs_members := gs_members t1\<rparr>"
    by (rule update_active_member_OkD [OF t(1)]; simp add: member_extends_def is_active_def)+
  then show ?thesis unfolding t(2) history_kept_def by (cases t1) simp
next
  case (RelabelMember node domain)
  then obtain t1 where t: "update_active_member s node (\<lambda>entry. entry\<lparr>dm_member := (dm_member entry)\<lparr>mb_failure_domain := domain\<rparr>\<rparr>)
        = (Ok t1 :: (('m, 'x) guild_state_error, _) result)"
      "t = t1\<lparr>gs_membership_epoch := Suc (gs_membership_epoch t1)\<rparr>"
    using assms by (auto simp: apply_membership_event_def and_then_Ok_iff split: if_splits dest!: next_membership_epoch_OkD)
  have "kept member_extends (gs_members s) (gs_members t1)" "t1 = s\<lparr>gs_members := gs_members t1\<rparr>"
    by (rule update_active_member_OkD [OF t(1)]; simp add: member_extends_def)+
  then show ?thesis unfolding t(2) history_kept_def by (cases t1) simp
qed (use assms in \<open>auto simp: apply_membership_event_def and_then_Ok_iff history_kept_def dest!: next_membership_epoch_OkD\<close>)

lemma apply_key_event_kept:
  assumes "apply_key_event E n kind s = (Ok t :: (('m, 'x) guild_state_error, _) result)"
  shows "history_kept s t"
proof (cases kind)
  case (RevokeWriterKey owner epoch)
  then show ?thesis using assms
    by (auto simp: apply_key_event_def and_then_Ok_iff ok_or_iff history_kept_def writer_extends_def
        intro!: wri.kept_update_first split: if_splits)
next
  case (RevokeRecoveryKey subject epoch)
  then show ?thesis using assms
    by (auto simp: apply_key_event_def and_then_Ok_iff ok_or_iff history_kept_def recovery_extends_def
        intro!: rec.kept_update_first split: if_splits)
qed (use assms in \<open>auto simp: apply_key_event_def and_then_Ok_iff history_kept_def intro!: wri.kept_subset rec.kept_subset split: if_splits\<close>)


text \<open>The fields no branch of a group touches.\<close>

lemma apply_membership_event_frame:
  assumes "apply_membership_event E n kind s = (Ok t :: (('m, 'x) guild_state_error, _) result)"
  shows "gs_writer_keys t = gs_writer_keys s" "gs_recovery_keys t = gs_recovery_keys s" "gs_coding_groups t = gs_coding_groups s"
    "gs_event_sequence t = gs_event_sequence s" "gs_event_head t = gs_event_head s" "gs_format_version t = gs_format_version s"
  using assms
  by (cases kind; auto simp: apply_membership_event_def update_active_member_def next_membership_epoch_def and_then_Ok_iff split: if_splits)+

lemma apply_key_event_frame:
  assumes "apply_key_event E n kind s = (Ok t :: (('m, 'x) guild_state_error, _) result)"
  shows "gs_members t = gs_members s" "gs_quorum t = gs_quorum s" "gs_membership_epoch t = gs_membership_epoch s"
    "gs_coding_groups t = gs_coding_groups s" "gs_event_sequence t = gs_event_sequence s" "gs_event_head t = gs_event_head s"
    "gs_format_version t = gs_format_version s" "gs_guild_id t = gs_guild_id s"
  using assms
  by (cases kind; auto simp: apply_key_event_def and_then_Ok_iff split: if_splits)+

lemma apply_group_event_frame:
  assumes "apply_group_event E n kind s = (Ok t :: (('m, 'x) guild_state_error, _) result)"
  shows "t = s\<lparr>gs_coding_groups := gs_coding_groups t\<rparr>"
  using assms
  by (cases kind; auto simp: apply_group_event_def add_coding_group_def and_then_Ok_iff split: if_splits)

lemma apply_event_OkE:
  assumes "apply_event E c s = (s', Ok () :: (('m, 'x) guild_state_error, unit) result)"
  obtains s1 s2 s3 h where "verify_event E s c = (Ok () :: (('m, 'x) guild_state_error, _) result)"
    "apply_membership_event E (gs_event_sequence s + 1) (ev_kind (qe_event c)) s = (Ok s1 :: (('m, 'x) guild_state_error, _) result)"
    "apply_key_event E (gs_event_sequence s + 1) (ev_kind (qe_event c)) s1 = (Ok s2 :: (('m, 'x) guild_state_error, _) result)"
    "apply_group_event E (gs_event_sequence s + 1) (ev_kind (qe_event c)) s2 = (Ok s3 :: (('m, 'x) guild_state_error, _) result)"
    "event_hash E (qe_event c) = (Ok h :: (('m, 'x) guild_state_error, _) result)"
    "s' = s3\<lparr>gs_event_sequence := gs_event_sequence s + 1, gs_event_head := h\<rparr>"
    "guild_validate E s' = (Ok () :: (('m, 'x) guild_state_error, _) result)"
proof -
  have v: "verify_event E s c = (Ok () :: (('m, 'x) guild_state_error, _) result)"
    and a: "apply_verified_event E c s = (Ok s' :: (('m, 'x) guild_state_error, _) result)"
    using assms by (auto simp: apply_event_def and_then_Ok_iff split: sum.splits)
  show thesis using a verify_event_OkD(3) [OF v] v
    by (auto simp: apply_verified_event_def Let_def and_then_Ok_iff intro: that)
qed

lemma apply_events_Cons_Ok:
  "apply_events E (c # cs) s = (s', Ok () :: (('m, 'x) guild_state_error, unit) result) \<longleftrightarrow>
    (\<exists>t. apply_event E c s = (t, Ok () :: (('m, 'x) guild_state_error, unit) result)
      \<and> apply_events E cs t = (s', Ok () :: (('m, 'x) guild_state_error, unit) result))"
  by (cases "apply_event E c s :: _ \<times> (('m, 'x) guild_state_error, unit) result") (auto split: sum.splits)

lemma apply_event_frame:
  assumes "apply_event E c s = (s', Ok () :: (('m, 'x) guild_state_error, unit) result)"
  shows "gs_event_sequence s' = gs_event_sequence s + 1" "gs_event_sequence s' < 2 ^ 64"
    "event_hash E (qe_event c) = (Ok (gs_event_head s') :: (('m, 'x) guild_state_error, _) result)"
    "gs_guild_id s' = gs_guild_id s" "history_kept s s'"
proof -
  obtain s1 s2 s3 h where a: "verify_event E s c = (Ok () :: (('m, 'x) guild_state_error, _) result)"
    "apply_membership_event E (gs_event_sequence s + 1) (ev_kind (qe_event c)) s = (Ok s1 :: (('m, 'x) guild_state_error, _) result)"
    "apply_key_event E (gs_event_sequence s + 1) (ev_kind (qe_event c)) s1 = (Ok s2 :: (('m, 'x) guild_state_error, _) result)"
    "apply_group_event E (gs_event_sequence s + 1) (ev_kind (qe_event c)) s2 = (Ok s3 :: (('m, 'x) guild_state_error, _) result)"
    "event_hash E (qe_event c) = (Ok h :: (('m, 'x) guild_state_error, _) result)"
    "s' = s3\<lparr>gs_event_sequence := gs_event_sequence s + 1, gs_event_head := h\<rparr>"
    using assms by (rule apply_event_OkE)
  show "gs_event_sequence s' = gs_event_sequence s + 1" "gs_event_sequence s' < 2 ^ 64"
    "event_hash E (qe_event c) = (Ok (gs_event_head s') :: (('m, 'x) guild_state_error, _) result)"
    using a(5,6) verify_event_OkD(5) [OF a(1)] by simp_all
  have "history_kept s s2" using apply_membership_event_kept [OF a(2)] apply_key_event_kept [OF a(3)] by (rule history_kept_trans)
  moreover have "s' = s2\<lparr>gs_coding_groups := gs_coding_groups s3, gs_event_sequence := gs_event_sequence s + 1, gs_event_head := h\<rparr>"
    unfolding a(6) by (subst apply_group_event_frame [OF a(4)]) simp
  ultimately show "history_kept s s'" by (simp add: history_kept_def)
  then show "gs_guild_id s' = gs_guild_id s" by (simp add: history_kept_def)
qed

section \<open>Relations carried along a run\<close>

abbreviation event_kind :: "quorum_guild_event \<Rightarrow> guild_event_kind" where
  "event_kind c \<equiv> ev_kind (qe_event c)"

locale run_relation =
  fixes E :: "'m guild_env" and R :: "guild_event_kind list \<Rightarrow> dynamic_guild_state \<Rightarrow> dynamic_guild_state \<Rightarrow> bool"
    and errors :: "('m, 'x) guild_state_error itself"
  assumes run_refl: "R [] s s"
    and run_trans: "R ks s t \<Longrightarrow> R ls t u \<Longrightarrow> R (ks @ ls) s u"
    and run_step: "apply_event E c s = (t, Ok () :: (('m, 'x) guild_state_error, unit) result) \<Longrightarrow> R [event_kind c] s t"
begin

lemma run:
  "apply_events E cs s = (s', Ok () :: (('m, 'x) guild_state_error, unit) result) \<Longrightarrow> R (map event_kind cs) s s'"
proof (induction cs arbitrary: s)
  case (Cons c cs)
  obtain t where t: "apply_event E c s = (t, Ok () :: (('m, 'x) guild_state_error, unit) result)"
      "apply_events E cs t = (s', Ok () :: (('m, 'x) guild_state_error, unit) result)"
    using Cons.prems unfolding apply_events_Cons_Ok by blast
  show ?case using run_trans [OF run_step [OF t(1)] Cons.IH [OF t(2)]] by simp
qed (simp add: run_refl)

end

definition advanced :: "guild_event_kind list \<Rightarrow> dynamic_guild_state \<Rightarrow> dynamic_guild_state \<Rightarrow> bool" where
  "advanced ks s s' \<longleftrightarrow> gs_event_sequence s' = gs_event_sequence s + length ks \<and> history_kept s s'"

interpretation advance: run_relation E advanced "errors :: ('m, 'x) guild_state_error itself" for E errors
  by unfold_locales (auto simp: advanced_def intro: history_kept_trans apply_event_frame(5) dest: apply_event_frame(1))


section \<open>Retention of coding groups\<close>

definition group_extends :: "guild_event_kind list \<Rightarrow> retained_coding_group \<Rightarrow> retained_coding_group \<Rightarrow> bool" where
  "group_extends ks e e' \<longleftrightarrow> rg_group e' = rg_group e \<and> rg_added_at_event e' = rg_added_at_event e
     \<and> set_once (rg_retired_at_event e) (rg_retired_at_event e')
     \<and> (case rg_retain_through_event e of
          Some r \<Rightarrow> rg_retain_through_event e' = Some r
        | None \<Rightarrow> (\<forall>r. rg_retain_through_event e' = Some r \<longrightarrow> RetireCodingGroup (cg_id (rg_group e)) r \<in> set ks))"

definition retention_ended :: "guild_event_kind list \<Rightarrow> nat \<Rightarrow> retained_coding_group \<Rightarrow> bool" where
  "retention_ended ks n e \<longleftrightarrow>
     (\<exists>r < n. case rg_retain_through_event e of
        Some r' \<Rightarrow> r' = r
      | None \<Rightarrow> RetireCodingGroup (cg_id (rg_group e)) r \<in> set ks)"

definition groups_retained :: "guild_event_kind list \<Rightarrow> dynamic_guild_state \<Rightarrow> dynamic_guild_state \<Rightarrow> bool" where
  "groups_retained ks s s' \<longleftrightarrow> gs_event_sequence s \<le> gs_event_sequence s' \<and>
     (\<forall>e \<in> set (gs_coding_groups s).
       (\<exists>e' \<in> set (gs_coding_groups s'). group_extends ks e e') \<or> retention_ended ks (gs_event_sequence s') e)"

lemma group_extends_refl [simp]: "group_extends ks e e"
  by (simp add: group_extends_def split: option.splits)

lemma group_extends_trans:
  assumes "group_extends ks e e'" "group_extends ls e' e''"
  shows "group_extends (ks @ ls) e e''"
  using assms unfolding group_extends_def
  by (cases "rg_retain_through_event e"; cases "rg_retain_through_event e'") (auto intro: set_once_trans)

lemma retention_ended_mono: "retention_ended ks n e \<Longrightarrow> n \<le> n' \<Longrightarrow> retention_ended (ks @ ls) n' e"
  unfolding retention_ended_def by (auto split: option.splits intro: less_le_trans)

lemma retention_ended_back: "group_extends ks e e' \<Longrightarrow> retention_ended ls n e' \<Longrightarrow> retention_ended (ks @ ls) n e"
  unfolding retention_ended_def group_extends_def
  by (cases "rg_retain_through_event e"; cases "rg_retain_through_event e'") auto

lemma groups_retained_trans:
  assumes "groups_retained ks s t" "groups_retained ls t u"
  shows "groups_retained (ks @ ls) s u"
  unfolding groups_retained_def
proof (intro conjI ballI)
  show "gs_event_sequence s \<le> gs_event_sequence u" using assms by (auto simp: groups_retained_def)
  fix e assume e: "e \<in> set (gs_coding_groups s)"
  consider e' where "e' \<in> set (gs_coding_groups t)" "group_extends ks e e'" | "retention_ended ks (gs_event_sequence t) e"
    using assms(1) e unfolding groups_retained_def by blast
  then show "(\<exists>e'' \<in> set (gs_coding_groups u). group_extends (ks @ ls) e e'') \<or> retention_ended (ks @ ls) (gs_event_sequence u) e"
  proof cases
    case 1
    then show ?thesis using assms(2) group_extends_trans [OF 1(2)] retention_ended_back [OF 1(2)] unfolding groups_retained_def by meson
  next
    case 2
    then show ?thesis using assms(2) retention_ended_mono unfolding groups_retained_def by blast
  qed
qed

lemma validate_coding_groups_loop_retire:
  "validate_coding_groups_loop E g n previous groups = (Ok () :: (('m, 'x) guild_state_error, _) result) \<Longrightarrow>
    \<forall>e \<in> set groups. rg_retired_at_event e = None \<longleftrightarrow> rg_retain_through_event e = None"
  by (induction groups arbitrary: previous) (auto simp: and_then_Ok_iff split: if_splits)

lemma apply_group_event_retained:
  assumes "apply_group_event E n kind s = (Ok t :: (('m, 'x) guild_state_error, _) result)" "e \<in> set (gs_coding_groups s)"
    "\<forall>e \<in> set (gs_coding_groups s). rg_retired_at_event e = None \<longleftrightarrow> rg_retain_through_event e = None"
  shows "(\<exists>e' \<in> set (gs_coding_groups t). group_extends [kind] e e') \<or> retention_ended [kind] n e"
proof (cases kind)
  case (RetireCodingGroup gid r)
  define p where "p = (\<lambda>entry :: retained_coding_group. cg_id (rg_group entry) = gid)"
  obtain x groups where x: "find p (gs_coding_groups s) = Some x" "rg_retired_at_event x = None"
      "update_first p (\<lambda>entry. entry\<lparr>rg_retired_at_event := Some n, rg_retain_through_event := Some r\<rparr>) (gs_coding_groups s) = Some groups"
      "t = s\<lparr>gs_coding_groups := groups\<rparr>"
    using assms(1) RetireCodingGroup unfolding p_def
    by (auto simp: apply_group_event_def and_then_Ok_iff ok_or_iff split: if_splits)
  obtain a y b where ab: "gs_coding_groups s = a @ y # b"
      "groups = a @ (y\<lparr>rg_retired_at_event := Some n, rg_retain_through_event := Some r\<rparr>) # b" "p y" "find p (gs_coding_groups s) = Some y"
    using x(3) by (rule update_first_SomeD)
  have "group_extends [kind] y (y\<lparr>rg_retired_at_event := Some n, rg_retain_through_event := Some r\<rparr>)"
    using x(1,2) ab(1,3,4) assms(3) RetireCodingGroup by (simp add: group_extends_def p_def)
  then show ?thesis using assms(2) unfolding ab(1) x(4) ab(2) by (auto intro: group_extends_refl)
next
  case (ForgetCodingGroup gid)
  define p where "p = (\<lambda>entry :: retained_coding_group. cg_id (rg_group entry) = gid)"
  obtain x r where x: "find p (gs_coding_groups s) = Some x" "rg_retain_through_event x = Some r" "r < n"
      "t = s\<lparr>gs_coding_groups := remove_first p (gs_coding_groups s)\<rparr>"
    using assms(1) ForgetCodingGroup unfolding p_def
    by (auto simp: apply_group_event_def and_then_Ok_iff ok_or_iff split: if_splits option.splits)
  show ?thesis using remove_first_keeps [OF assms(2), of p] x by (auto simp: retention_ended_def intro: group_extends_refl)
qed (use assms(1,2) in \<open>auto simp: apply_group_event_def add_coding_group_def and_then_Ok_iff intro!: disjI1 bexI [of _ e] split: if_splits\<close>)

lemma apply_event_groups_retained:
  assumes "apply_event E c s = (s', Ok () :: (('m, 'x) guild_state_error, unit) result)"
  shows "groups_retained [event_kind c] s s'"
proof -
  obtain s1 s2 s3 h where a: "verify_event E s c = (Ok () :: (('m, 'x) guild_state_error, _) result)"
    "apply_membership_event E (gs_event_sequence s + 1) (event_kind c) s = (Ok s1 :: (('m, 'x) guild_state_error, _) result)"
    "apply_key_event E (gs_event_sequence s + 1) (event_kind c) s1 = (Ok s2 :: (('m, 'x) guild_state_error, _) result)"
    "apply_group_event E (gs_event_sequence s + 1) (event_kind c) s2 = (Ok s3 :: (('m, 'x) guild_state_error, _) result)"
    "event_hash E (qe_event c) = (Ok h :: (('m, 'x) guild_state_error, _) result)"
    "s' = s3\<lparr>gs_event_sequence := gs_event_sequence s + 1, gs_event_head := h\<rparr>"
    using assms by (rule apply_event_OkE)
  have groups: "gs_coding_groups s2 = gs_coding_groups s"
    using apply_membership_event_frame(3) [OF a(2)] apply_key_event_frame(4) [OF a(3)] by simp
  have "validate_coding_groups_loop E (gs_guild_id s) (gs_event_sequence s) None (gs_coding_groups s) = (Ok () :: (('m, 'x) guild_state_error, _) result)"
    using verify_event_OkD(1) [OF a(1)] by (auto simp: guild_validate_def and_then_Ok_iff split: if_splits)
  from validate_coding_groups_loop_retire [OF this] apply_group_event_retained [OF a(4), unfolded groups]
  show ?thesis unfolding groups_retained_def a(6) by simp
qed

interpretation retention: run_relation E groups_retained "errors :: ('m, 'x) guild_state_error itself" for E errors
proof
  show "groups_retained [] s s" for s by (auto simp: groups_retained_def intro: group_extends_refl)
qed (auto intro: groups_retained_trans apply_event_groups_retained)


section \<open>Membership epochs\<close>

definition is_membership :: "guild_event_kind \<Rightarrow> bool" where
  "is_membership kind \<longleftrightarrow>
     (case kind of AddMember _ \<Rightarrow> True | RemoveMember _ \<Rightarrow> True | RelabelMember _ _ \<Rightarrow> True | SetQuorum _ \<Rightarrow> True | _ \<Rightarrow> False)"

definition epoch_counted :: "guild_event_kind list \<Rightarrow> dynamic_guild_state \<Rightarrow> dynamic_guild_state \<Rightarrow> bool" where
  "epoch_counted ks s s' \<longleftrightarrow> gs_guild_id s' = gs_guild_id s
     \<and> gs_membership_epoch s' = gs_membership_epoch s + length (filter is_membership ks)"

lemma apply_membership_event_epoch:
  assumes "apply_membership_event E n kind s = (Ok t :: (('m, 'x) guild_state_error, _) result)"
  shows "gs_membership_epoch t = gs_membership_epoch s + length (filter is_membership [kind])"
  using assms
  by (cases kind) (auto simp: apply_membership_event_def is_membership_def update_active_member_def and_then_Ok_iff
      split: if_splits dest!: next_membership_epoch_OkD)

lemma apply_event_epoch_counted:
  assumes "apply_event E c s = (s', Ok () :: (('m, 'x) guild_state_error, unit) result)"
  shows "epoch_counted [event_kind c] s s'"
proof -
  obtain s1 s2 s3 h where a:
    "apply_membership_event E (gs_event_sequence s + 1) (event_kind c) s = (Ok s1 :: (('m, 'x) guild_state_error, _) result)"
    "apply_key_event E (gs_event_sequence s + 1) (event_kind c) s1 = (Ok s2 :: (('m, 'x) guild_state_error, _) result)"
    "apply_group_event E (gs_event_sequence s + 1) (event_kind c) s2 = (Ok s3 :: (('m, 'x) guild_state_error, _) result)"
    "s' = s3\<lparr>gs_event_sequence := gs_event_sequence s + 1, gs_event_head := h\<rparr>"
    using assms by (rule apply_event_OkE)
  have "gs_membership_epoch s3 = gs_membership_epoch s2" by (subst apply_group_event_frame [OF a(3)]) simp
  then show ?thesis
    using apply_membership_event_epoch [OF a(1)] apply_key_event_frame(3) [OF a(2)] apply_event_frame(4) [OF assms]
    by (simp add: epoch_counted_def a(4))
qed

interpretation epochs: run_relation E epoch_counted "errors :: ('m, 'x) guild_state_error itself" for E errors
  by unfold_locales (auto simp: epoch_counted_def dest: apply_event_epoch_counted [unfolded epoch_counted_def])

section \<open>Properties\<close>

lemma validate_writer_keys_loop_sorted:
  assumes "validate_writer_keys_loop K n previous expected keys = (Ok () :: (('m, 'x) guild_state_error, _) result)"
  shows "sorted_wrt (<) (map (\<lambda>e. (wr_owner e, wr_epoch e)) keys) \<and> (\<forall>e \<in> set keys. \<forall>p. previous = Some p \<longrightarrow> p < (wr_owner e, wr_epoch e))"
  using assms
proof (induction keys arbitrary: previous expected)
  case (Cons e keys)
  obtain x where step: "\<forall>p. previous = Some p \<longrightarrow> p < (wr_owner e, wr_epoch e)"
      "validate_writer_keys_loop K n (Some (wr_owner e, wr_epoch e)) x keys = (Ok () :: (('m, 'x) guild_state_error, _) result)"
    using Cons.prems by (auto simp: and_then_Ok_iff not_le Let_def split: if_splits option.splits simp del: less_prod_simp)
  from Cons.IH [OF step(2)] step(1) show ?case by (auto simp del: less_prod_simp intro: less_trans)
qed simp

lemma guild_validate_writers_distinct:
  assumes "guild_validate E s = (Ok () :: (('m, 'x) guild_state_error, _) result)"
  shows "distinct (map (\<lambda>e. (wr_owner e, wr_epoch e)) (gs_writer_keys s))"
proof -
  have "validate_writer_keys_loop (gv_crypto E) (gs_event_sequence s) None (\<lambda>_. 0) (gs_writer_keys s) = (Ok () :: (('m, 'x) guild_state_error, _) result)"
    using assms by (auto simp: guild_validate_def validate_writer_keys_def and_then_Ok_iff split: if_splits)
  from validate_writer_keys_loop_sorted [OF this] show ?thesis using strict_sorted_iff by blast
qed

lemma writer_key_kept:
  assumes "kept writer_extends (gs_writer_keys s) (gs_writer_keys s')" "distinct (map (\<lambda>e. (wr_owner e, wr_epoch e)) (gs_writer_keys s'))"
    "writer_key_for_retained_revision s owner epoch = Some key"
  shows "writer_key_for_retained_revision s' owner epoch = Some key"
proof -
  let ?p = "\<lambda>e. wr_owner e = owner \<and> wr_epoch e = epoch"
  obtain e where "find ?p (gs_writer_keys s) = Some e" and key: "key = wr_public_key e"
    using assms(3) by (auto simp: writer_key_for_retained_revision_def)
  then have e: "e \<in> set (gs_writer_keys s)" "?p e" by (auto simp: find_Some_iff)
  then obtain e' where e': "e' \<in> set (gs_writer_keys s')" "?p e'" "wr_public_key e' = key"
    using assms(1) key unfolding kept_def writer_extends_def by blast
  then obtain f where f: "find ?p (gs_writer_keys s') = Some f" by (cases "find ?p (gs_writer_keys s')") (auto simp: find_None_iff)
  then have "f \<in> set (gs_writer_keys s')" "?p f" by (auto simp: find_Some_iff)
  then have "f = e'" using e'(1,2) assms(2) by (auto simp: distinct_map inj_on_def)
  then show ?thesis using f e'(3) by (simp add: writer_key_for_retained_revision_def)
qed

lemma apply_events_valid:
  assumes "apply_events E cs s = (s', Ok () :: (('m, 'x) guild_state_error, unit) result)"
    "guild_validate E s = (Ok () :: (('m, 'x) guild_state_error, _) result)"
  shows "guild_validate E s' = (Ok () :: (('m, 'x) guild_state_error, _) result)"
  using assms
proof (induction cs arbitrary: s)
  case (Cons c cs)
  obtain t where t: "apply_event E c s = (t, Ok () :: (('m, 'x) guild_state_error, unit) result)"
      "apply_events E cs t = (s', Ok () :: (('m, 'x) guild_state_error, unit) result)"
    using Cons.prems(1) unfolding apply_events_Cons_Ok by blast
  have "guild_validate E t = (Ok () :: (('m, 'x) guild_state_error, _) result)" using t(1) by (rule apply_event_OkE)
  then show ?case by (rule Cons.IH [OF t(2)])
qed simp

text \<open>C4: The history of a guild is append-only. Along any run of certified events from a valid state, the
  sequence number grows by one per event, every member, writer key and recovery key recorded before is
  still recorded with the same identity and key, a removal or revocation once set never changes (so a
  removed member never becomes active again), and the writer key found for a retained revision stays
  the same key forever.\<close>

theorem guild_history_append_only:
  assumes "apply_events E cs s = (s', Ok () :: (('m, 'x) guild_state_error, unit) result)"
    "guild_validate E s = (Ok () :: (('m, 'x) guild_state_error, _) result)"
  shows "gs_event_sequence s' = gs_event_sequence s + length cs \<and> history_kept s s' \<and>
    (\<forall>owner epoch key. writer_key_for_retained_revision s owner epoch = Some key \<longrightarrow> writer_key_for_retained_revision s' owner epoch = Some key)"
proof -
  have adv: "gs_event_sequence s' = gs_event_sequence s + length cs" "history_kept s s'"
    using advance.run [OF assms(1)] by (simp_all add: advanced_def)
  then have "kept writer_extends (gs_writer_keys s) (gs_writer_keys s')" by (simp add: history_kept_def)
  from writer_key_kept [OF this guild_validate_writers_distinct [OF apply_events_valid [OF assms]]] adv
  show ?thesis by blast
qed

text \<open>C5: A coding group is never lost inside its retention window. Along any run of certified events, a
  retained group is still recorded, unchanged, unless it was retired (already, or by an event of the
  run) with a bound that lies before the sequence number reached.\<close>

theorem coding_groups_survive_retention:
  assumes "apply_events E cs s = (s', Ok () :: (('m, 'x) guild_state_error, unit) result)" "e \<in> set (gs_coding_groups s)"
  shows "(\<exists>e' \<in> set (gs_coding_groups s'). group_extends (map event_kind cs) e e')
    \<or> retention_ended (map event_kind cs) (gs_event_sequence s') e"
  using retention.run [OF assms(1)] assms(2) by (auto simp: groups_retained_def)

text \<open>C21: Every membership event fences the attempts planned before it. A coding attempt authorized at a
  state is refused, as an invalid attempt, at every later state that some addition, removal,
  relabelling or quorum change precedes, whatever other events happen in between.\<close>

theorem membership_change_fences_attempts:
  assumes "validate_attempt_authority E s plan = (Ok () :: (('m, 'x) guild_state_error, _) result)"
    "apply_events E cs s = (s', Ok () :: (('m, 'x) guild_state_error, unit) result)" "\<exists>c \<in> set cs. is_membership (event_kind c)"
  shows "validate_attempt_authority E s' plan = (Err InvalidAttempt :: (('m, 'x) guild_state_error, _) result)"
proof -
  have "gs_membership_epoch s < gs_membership_epoch s'"
    using epochs.run [OF assms(2)] assms(3) by (auto simp: epoch_counted_def filter_empty_conv)
  then show ?thesis using assms(1) by (auto simp: validate_attempt_authority_def and_then_Ok_iff map_err_Ok_iff split: if_splits)
qed


text \<open>The tail a state asks for next, with the given events.\<close>

definition tail_at :: "dynamic_guild_state \<Rightarrow> quorum_guild_event list \<Rightarrow> guild_event_tail" where
  "tail_at s events = \<lparr>gt_format_version = 1, gt_base_sequence = gs_event_sequence s, gt_base_head = gs_event_head s, gt_events = events\<rparr>"

lemma apply_events_append_Ok:
  "apply_events E (cs @ ds) s = (s', Ok () :: (('m, 'x) guild_state_error, unit) result) \<longleftrightarrow>
    (\<exists>t. apply_events E cs s = (t, Ok () :: (('m, 'x) guild_state_error, unit) result)
      \<and> apply_events E ds t = (s', Ok () :: (('m, 'x) guild_state_error, unit) result))"
proof (induction cs arbitrary: s)
  case (Cons c cs)
  then show ?case unfolding append_Cons apply_events_Cons_Ok by blast
qed simp

lemma apply_tail_at_Ok:
  "length events \<le> 4096 \<Longrightarrow> apply_tail E (tail_at s events) s = (s', Ok () :: (('m, 'x) guild_state_error, unit) result) \<longleftrightarrow>
    apply_events E events s = (s', Ok () :: (('m, 'x) guild_state_error, unit) result)"
  by (auto simp: apply_tail_def tail_at_def split: prod.splits sum.splits)

text \<open>C22: A tail of events is applied all or nothing, and how a history is cut into tails does not matter.
  A failing tail leaves the state as it was. A tail that consists of two parts succeeds with a state
  exactly when the parts succeed one after the other, each based on the state it finds, with the same
  final state.\<close>

theorem apply_tail_atomic_and_batched:
  assumes "length (cs @ ds) \<le> 4096"
  shows "(\<forall>tail s' e. apply_tail E tail s = (s', Inl e :: (('m, 'x) guild_state_error, unit) result) \<longrightarrow> s' = s)
    \<and> (apply_tail E (tail_at s (cs @ ds)) s = (s', Ok () :: (('m, 'x) guild_state_error, unit) result) \<longleftrightarrow>
      (\<exists>t. apply_tail E (tail_at s cs) s = (t, Ok () :: (('m, 'x) guild_state_error, unit) result)
        \<and> apply_tail E (tail_at t ds) t = (s', Ok () :: (('m, 'x) guild_state_error, unit) result)))"
proof -
  have "length cs \<le> 4096" "length ds \<le> 4096" using assms by simp_all
  then show ?thesis using assms
    by (auto simp only: apply_tail_at_Ok apply_events_append_Ok) (auto simp: apply_tail_def split: if_splits prod.splits sum.splits)
qed

end
