(* ===== verification/Guild_Reachable.thy ===== *)
theory Guild_Reachable
  imports Guild_History
begin

text \<open>
  The states a guild can reach from its genesis: what \<open>validate\<close> establishes, stated without loops, and
  that neither validating nor applying an event panics there.
\<close>

section \<open>What a validated state looks like\<close>

definition members_wf :: "dynamic_guild_state \<Rightarrow> bool" where
  "members_wf s \<longleftrightarrow> sorted_wrt (<) (map (\<lambda>e. mb_node_id (dm_member e)) (gs_members s)) \<and> length (gs_members s) \<le> 256 \<and>
     (\<forall>e \<in> set (gs_members s). mb_node_id (dm_member e) \<noteq> 0 \<and> dm_joined_at_event e \<le> gs_event_sequence s \<and>
       (\<forall>r. dm_removed_at_event e = Some r \<longrightarrow> dm_joined_at_event e < r \<and> r \<le> gs_event_sequence s))"

text \<open>The epochs of every owner are the consecutive numbers from one.\<close>

definition epochs_consecutive :: "(node_id \<times> nat) list \<Rightarrow> bool" where
  "epochs_consecutive keys \<longleftrightarrow> sorted_wrt (<) keys \<and>
     (\<forall>owner. map snd (filter (\<lambda>k. fst k = owner) keys) = [1..<Suc (length (filter (\<lambda>k. fst k = owner) keys))])"

definition writer_ids :: "dynamic_guild_state \<Rightarrow> (node_id \<times> nat) list" where
  "writer_ids s = map (\<lambda>e. (wr_owner e, wr_epoch e)) (gs_writer_keys s)"

definition recovery_ids :: "dynamic_guild_state \<Rightarrow> (node_id \<times> nat) list" where
  "recovery_ids s = map (\<lambda>e. (en_subject (rk_envelope e), en_epoch (rk_envelope e))) (gs_recovery_keys s)"

definition groups_wf :: "'m guild_env \<Rightarrow> dynamic_guild_state \<Rightarrow> bool" where
  "groups_wf E s \<longleftrightarrow> sorted_wrt (<) (map (\<lambda>e. cg_id (rg_group e)) (gs_coding_groups s)) \<and>
     (\<forall>e \<in> set (gs_coding_groups s). group_validate (gv_group E) (gv_blake3 E) (rg_group e) = (Ok () :: (('m, unit) model_error, unit) result)
       \<and> cg_guild_id (rg_group e) = gs_guild_id s \<and> rg_added_at_event e \<le> gs_event_sequence s
       \<and> (case (rg_retired_at_event e, rg_retain_through_event e) of
            (None, None) \<Rightarrow> True
          | (Some a, Some b) \<Rightarrow> rg_added_at_event e \<le> a \<and> a \<le> gs_event_sequence s \<and> a \<le> b
          | _ \<Rightarrow> False))"

definition guild_wf :: "'m guild_env \<Rightarrow> dynamic_guild_state \<Rightarrow> bool" where
  "guild_wf E s \<longleftrightarrow> members_wf s \<and> epochs_consecutive (writer_ids s) \<and> epochs_consecutive (recovery_ids s) \<and> groups_wf E s \<and>
     (\<exists>r. policy_quorum (gs_quorum s) (length (active_members s)) = Some r \<and> 0 < r \<and> r \<le> length (active_members s))"

lemma validate_members_loop_OkD:
  assumes "validate_members_loop K n previous ms = (Ok () :: (('m, 'x) guild_state_error, _) result)"
  shows "sorted_wrt (<) (map (\<lambda>e. mb_node_id (dm_member e)) ms) \<and>
    (\<forall>e \<in> set ms. (\<forall>p. previous = Some p \<longrightarrow> p < mb_node_id (dm_member e)) \<and> mb_node_id (dm_member e) \<noteq> 0 \<and> dm_joined_at_event e \<le> n \<and>
       (\<forall>r. dm_removed_at_event e = Some r \<longrightarrow> dm_joined_at_event e < r \<and> r \<le> n))"
  using assms
proof (induction ms arbitrary: previous)
  case (Cons e ms)
  have step: "\<forall>p. previous = Some p \<longrightarrow> p < mb_node_id (dm_member e)" "mb_node_id (dm_member e) \<noteq> 0" "dm_joined_at_event e \<le> n"
      "\<forall>r. dm_removed_at_event e = Some r \<longrightarrow> dm_joined_at_event e < r \<and> r \<le> n"
      "validate_members_loop K n (Some (mb_node_id (dm_member e))) ms = (Ok () :: (('m, 'x) guild_state_error, _) result)"
    using Cons.prems by (auto simp: Let_def not_le not_less split: if_splits option.splits)
  from Cons.IH [OF step(5)] step(1-4) show ?case by (auto intro: less_trans)
qed simp

text \<open>The two key loops have the same shape; their test on a key is this predicate.\<close>

fun epochs_from :: "(node_id \<times> nat) option \<Rightarrow> (node_id \<Rightarrow> nat) \<Rightarrow> (node_id \<times> nat) list \<Rightarrow> bool" where
  "epochs_from previous expected [] \<longleftrightarrow> True"
| "epochs_from previous expected (k # ks) \<longleftrightarrow> (\<forall>p. previous = Some p \<longrightarrow> p < k) \<and> snd k = Suc (expected (fst k))
     \<and> epochs_from (Some k) (expected(fst k := snd k)) ks"

lemma epochs_from_sorted: "epochs_from previous expected ks \<Longrightarrow>
    sorted_wrt (<) ks \<and> (\<forall>k \<in> set ks. \<forall>p. previous = Some p \<longrightarrow> p < k)"
proof (induction ks arbitrary: previous expected)
  case (Cons k ks)
  have "sorted_wrt (<) ks" "\<forall>k' \<in> set ks. k < k'" using Cons.IH [of "Some k"] Cons.prems by auto
  moreover have "\<forall>p. previous = Some p \<longrightarrow> p < k" using Cons.prems by simp
  ultimately show ?case by (auto simp del: less_prod_simp intro: less_trans)
qed simp

lemma epochs_from_consecutive:
  "epochs_from previous expected ks \<Longrightarrow>
    map snd (filter (\<lambda>k. fst k = owner) ks) =
      [Suc (expected owner)..<Suc (expected owner + length (filter (\<lambda>k. fst k = owner) ks))]"
proof (induction ks arbitrary: previous expected)
  case (Cons k ks)
  have step: "snd k = Suc (expected (fst k))" "epochs_from (Some k) (expected(fst k := snd k)) ks" using Cons.prems by auto
  from Cons.IH [OF step(2)] step(1) show ?case by (auto simp: upt_rec)
qed simp

lemma epochs_from_start: "epochs_from None (\<lambda>_. 0) ks \<Longrightarrow> epochs_consecutive ks"
  unfolding epochs_consecutive_def using epochs_from_sorted epochs_from_consecutive [of None "\<lambda>_. 0" ks] by force

lemma validate_writer_keys_loop_epochs:
  "validate_writer_keys_loop K n previous expected keys = (Ok () :: (('m, 'x) guild_state_error, _) result) \<Longrightarrow>
    epochs_from previous expected (map (\<lambda>e. (wr_owner e, wr_epoch e)) keys)"
  by (induction keys arbitrary: previous expected)
    (auto simp: Let_def and_then_Ok_iff not_le simp del: less_prod_simp less_eq_prod_simp split: if_splits option.splits)

lemma validate_recovery_keys_loop_epochs:
  "validate_recovery_keys_loop K g n previous expected keys = (Ok () :: (('m, 'x) guild_state_error, _) result) \<Longrightarrow>
    epochs_from previous expected (map (\<lambda>e. (en_subject (rk_envelope e), en_epoch (rk_envelope e))) keys)"
  by (induction keys arbitrary: previous expected)
    (auto simp: Let_def and_then_Ok_iff not_le simp del: less_prod_simp less_eq_prod_simp split: if_splits option.splits)

lemma validate_coding_groups_loop_OkD:
  assumes "validate_coding_groups_loop E g n previous groups = (Ok () :: (('m, unit) guild_state_error, _) result)"
  shows "sorted_wrt (<) (map (\<lambda>e. cg_id (rg_group e)) groups) \<and>
    (\<forall>e \<in> set groups. (\<forall>p. previous = Some p \<longrightarrow> p < cg_id (rg_group e)) \<and>
      group_validate (gv_group E) (gv_blake3 E) (rg_group e) = (Ok () :: (('m, unit) model_error, unit) result)
      \<and> cg_guild_id (rg_group e) = g \<and> rg_added_at_event e \<le> n
      \<and> (case (rg_retired_at_event e, rg_retain_through_event e) of
           (None, None) \<Rightarrow> True
         | (Some a, Some b) \<Rightarrow> rg_added_at_event e \<le> a \<and> a \<le> n \<and> a \<le> b
         | _ \<Rightarrow> False))"
  using assms
proof (induction groups arbitrary: previous)
  case (Cons e groups)
  have step: "\<forall>p. previous = Some p \<longrightarrow> p < cg_id (rg_group e)"
      "group_validate (gv_group E) (gv_blake3 E) (rg_group e) = (Ok () :: (('m, unit) model_error, unit) result)"
      "cg_guild_id (rg_group e) = g" "rg_added_at_event e \<le> n"
      "validate_coding_groups_loop E g n (Some (cg_id (rg_group e))) groups = (Ok () :: (('m, unit) guild_state_error, _) result)"
    using Cons.prems by (auto simp: and_then_Ok_iff map_err_Ok_iff not_le not_less split: if_splits option.splits)
  have "case (rg_retired_at_event e, rg_retain_through_event e) of (None, None) \<Rightarrow> True
         | (Some a, Some b) \<Rightarrow> rg_added_at_event e \<le> a \<and> a \<le> n \<and> a \<le> b | _ \<Rightarrow> False"
    using Cons.prems
    by (cases "rg_retired_at_event e"; cases "rg_retain_through_event e") (auto simp: and_then_Ok_iff not_less split: if_splits)
  with Cons.IH [OF step(5)] step(1-4) show ?case by (auto intro: less_trans)
qed simp

lemma guild_validate_OkD:
  assumes "guild_validate E s = (Ok () :: (('m, 'x) guild_state_error, _) result)"
  shows "validate_members_loop (gv_crypto E) (gs_event_sequence s) None (gs_members s) = (Ok () :: (('m, 'x) guild_state_error, _) result)"
    "\<exists>r. quorum_required (gs_quorum s) (length (active_members s)) = (Ok r :: (('m, 'x) guild_state_error, _) result)"
    "validate_writer_keys (gv_crypto E) s = (Ok () :: (('m, 'x) guild_state_error, _) result)"
    "validate_recovery_keys (gv_crypto E) s = (Ok () :: (('m, 'x) guild_state_error, _) result)"
    "validate_coding_groups_loop E (gs_guild_id s) (gs_event_sequence s) None (gs_coding_groups s) = (Ok () :: (('m, 'x) guild_state_error, _) result)"
    "length (gs_members s) \<le> 256"
  using assms by (auto simp: guild_validate_def and_then_Ok_iff split: if_splits)

lemma guild_validate_wf:
  assumes "guild_validate E s = (Ok () :: (('m, unit) guild_state_error, _) result)"
  shows "guild_wf E s"
proof -
  note v = guild_validate_OkD [OF assms]
  obtain r where r: "quorum_required (gs_quorum s) (length (active_members s)) = (Ok r :: (('m, unit) guild_state_error, _) result)"
    using v(2) by blast
  have "0 < r \<and> r \<le> length (active_members s)" using r unfolding quorum_required_Ok_iff by linarith
  then have "\<exists>r. policy_quorum (gs_quorum s) (length (active_members s)) = Some r \<and> 0 < r \<and> r \<le> length (active_members s)"
    using quorum_required_policy [OF r] by blast
  moreover have "members_wf s" unfolding members_wf_def using validate_members_loop_OkD [OF v(1)] v(6) by blast
  moreover have "groups_wf E s" unfolding groups_wf_def using validate_coding_groups_loop_OkD [OF v(5)] by blast
  moreover have "epochs_consecutive (writer_ids s)" unfolding writer_ids_def
    by (rule epochs_from_start [OF validate_writer_keys_loop_epochs [OF v(3) [unfolded validate_writer_keys_def]]])
  moreover have "epochs_consecutive (recovery_ids s)" unfolding recovery_ids_def
    by (rule epochs_from_start [OF validate_recovery_keys_loop_epochs [OF v(4) [unfolded validate_recovery_keys_def]]])
  ultimately show ?thesis by (simp add: guild_wf_def)
qed


section \<open>Freedom from panics\<close>

lemma group_role_check_panic_free [simp]: "panic_free (group_role_check B p i role)"
  unfolding group_role_check_def merkle_zero_commitment_def merkle_zero_subtree_root_def validate_commitment_def validate_data_len_def
  by (cases role) (auto simp: Let_def)

lemma group_roles_check_panic_free [simp]: "panic_free (group_roles_check B p i domains roles)"
  by (induction roles arbitrary: i domains) auto

lemma canonical_panic_free [simp]: "panic_free (canonical_bytes enc v)" "panic_free (hash_canonical B enc domain v)"
  by (auto simp: canonical_bytes_def hash_canonical_def split: sum.splits)

lemma profile_validate_panic_free [simp]: "panic_free (profile_validate p)"
  by (auto simp: profile_validate_def)

lemma group_validate_panic_free [simp]: "panic_free (group_validate enc B g :: (('m, 'x) model_error, _) result)"
proof -
  have "panic_free (total_shards (cg_profile g) :: ('x coding_error, _) result)"
    if "profile_validate (cg_profile g) = (Ok () :: ('x coding_error, _) result)"
    using total_shards_eq [OF that] by simp
  then show ?thesis unfolding group_validate_def group_calculate_id_def coding_group_v2_id_def by (auto simp: map_err_Ok_iff)
qed

lemma validate_members_loop_panic_free [simp]: "panic_free (validate_members_loop K n previous ms)"
  by (induction ms arbitrary: previous) (auto simp: Let_def)

lemma validate_writer_keys_loop_panic_free:
  "(\<forall>owner. Suc (expected owner) < 2 ^ 64) \<Longrightarrow> (\<forall>e \<in> set keys. Suc (wr_epoch e) < 2 ^ 64) \<Longrightarrow>
    panic_free (validate_writer_keys_loop K n previous expected keys)"
  by (induction keys arbitrary: previous expected) (auto simp: Let_def)

lemma validate_recovery_envelope_panic_free [simp]: "panic_free (validate_recovery_envelope K envelope g)"
  by (simp add: validate_recovery_envelope_def)

lemma validate_recovery_keys_loop_panic_free:
  "(\<forall>owner. Suc (expected owner) < 2 ^ 64) \<Longrightarrow> (\<forall>e \<in> set keys. Suc (en_epoch (rk_envelope e)) < 2 ^ 64) \<Longrightarrow>
    panic_free (validate_recovery_keys_loop K g n previous expected keys)"
  by (induction keys arbitrary: previous expected) (auto simp: Let_def)

lemma validate_coding_groups_loop_panic_free [simp]: "panic_free (validate_coding_groups_loop E g n previous groups)"
  by (induction groups arbitrary: previous) auto

lemma quorum_required_panic_free [simp]: "panic_free (quorum_required policy n)"
  by (auto simp: quorum_required_def split: quorum_rule.splits)

definition epochs_below :: "nat \<Rightarrow> dynamic_guild_state \<Rightarrow> bool" where
  "epochs_below n s \<longleftrightarrow> (\<forall>k \<in> set (writer_ids s) \<union> set (recovery_ids s). snd k \<le> n)"

lemma epochs_below_iff:
  "epochs_below n s \<longleftrightarrow> (\<forall>e \<in> set (gs_writer_keys s). wr_epoch e \<le> n) \<and> (\<forall>e \<in> set (gs_recovery_keys s). en_epoch (rk_envelope e) \<le> n)"
  by (simp add: epochs_below_def writer_ids_def recovery_ids_def ball_Un)

lemma guild_validate_panic_free:
  assumes "epochs_below n s" "Suc n < 2 ^ 64"
  shows "panic_free (guild_validate E s)"
proof -
  have "panic_free (validate_writer_keys (gv_crypto E) s)" "panic_free (validate_recovery_keys (gv_crypto E) s)"
    unfolding validate_writer_keys_def validate_recovery_keys_def using assms
    by (auto intro!: validate_writer_keys_loop_panic_free validate_recovery_keys_loop_panic_free simp: epochs_below_iff intro: le_less_trans [of _ n])
  then show ?thesis unfolding guild_validate_def by auto
qed

lemma verify_signatures_loop_panic_free [simp]: "panic_free (verify_signatures_loop E event active previous valid sigs)"
  by (induction sigs arbitrary: previous valid)
    (auto simp: verify_guild_event_signature_def verify_member_signature_def Let_def)

lemma verify_event_panic_free: "panic_free (guild_validate E s :: (('m, 'x) guild_state_error, _) result) \<Longrightarrow>
    panic_free (verify_event E s c :: (('m, 'x) guild_state_error, _) result)"
  unfolding verify_event_def Let_def by auto

lemma apply_membership_event_panic_free:
  "Suc (gs_membership_epoch s) < 2 ^ 64 \<Longrightarrow> panic_free (apply_membership_event E n kind s)"
  by (cases kind) (auto simp: apply_membership_event_def validate_member_def update_active_member_def next_membership_epoch_def
      and_then_Ok_iff ok_or_iff)

lemma max_epoch_le: "\<forall>e \<in> set es. e \<le> n \<Longrightarrow> max_epoch es \<le> n"
proof -
  have "a \<le> n \<Longrightarrow> \<forall>e \<in> set es. e \<le> n \<Longrightarrow> fold max es a \<le> n" for a by (induction es arbitrary: a) auto
  then show "\<forall>e \<in> set es. e \<le> n \<Longrightarrow> max_epoch es \<le> n" by (simp add: max_epoch_def)
qed

lemma next_epoch_le:
  assumes "epochs_below n s"
  shows "max_epoch (map wr_epoch (filter p (gs_writer_keys s))) \<le> n"
    "max_epoch (map (\<lambda>entry. en_epoch (rk_envelope entry)) (filter q (gs_recovery_keys s))) \<le> n"
  using assms by (auto intro!: max_epoch_le simp: epochs_below_iff)

lemma apply_key_event_panic_free:
  assumes "epochs_below m s" "Suc m < 2 ^ 64"
  shows "panic_free (apply_key_event E n kind s)"
proof -
  have "uadd 64 (max_epoch (map wr_epoch (filter p (gs_writer_keys s)))) 1 \<noteq> (panic :: ('e, _) result)"
    "uadd 64 (max_epoch (map (\<lambda>entry. en_epoch (rk_envelope entry)) (filter q (gs_recovery_keys s)))) 1 \<noteq> (panic :: ('e, _) result)" for p q
    using next_epoch_le [OF assms(1)] assms(2) by (auto simp: not_le intro: le_less_trans [of _ m])
  then show ?thesis
    by (cases kind) (auto simp: apply_key_event_def require_active_member_def panic_free_def [of "uadd _ _ _"])
qed

lemma group_placement_check_panic_free [simp]: "panic_free (group_placement_check s roles)"
  by (induction roles) (auto simp: require_active_member_def)

lemma apply_group_event_panic_free [simp]: "panic_free (apply_group_event E n kind s)"
  by (cases kind) (auto simp: apply_group_event_def add_coding_group_def validate_current_group_placement_def)

lemma apply_key_event_epochs:
  assumes "apply_key_event E n kind s = (Ok t :: (('m, 'x) guild_state_error, _) result)" "epochs_below m s"
  shows "epochs_below (Suc m) t"
proof -
  have old: "\<forall>e \<in> set (gs_writer_keys s). wr_epoch e \<le> Suc m" "\<forall>e \<in> set (gs_recovery_keys s). en_epoch (rk_envelope e) \<le> Suc m"
    using assms(2) by (auto simp: epochs_below_iff le_SucI)
  show ?thesis
  proof (cases kind)
    case (RevokeWriterKey owner epoch)
    then show ?thesis using assms(1) old
      by (auto simp: apply_key_event_def and_then_Ok_iff ok_or_iff epochs_below_iff
          elim!: update_first_SomeD split: if_splits)
  next
    case (RevokeRecoveryKey subject epoch)
    then show ?thesis using assms(1) old
      by (auto simp: apply_key_event_def and_then_Ok_iff ok_or_iff epochs_below_iff
          elim!: update_first_SomeD split: if_splits)
  qed (use assms(1) old next_epoch_le [OF assms(2)] in
      \<open>auto simp: apply_key_event_def and_then_Ok_iff epochs_below_iff split: if_splits\<close>)
qed


section \<open>Reachable states\<close>

inductive reachable :: "'m guild_env \<Rightarrow> dynamic_guild_state \<Rightarrow> bool" for E :: "'m guild_env" where
  genesis: "guild_new E guild_id genesis_hash quorum ms = (Ok s :: (('m, unit) guild_state_error, _) result) \<Longrightarrow> reachable E s"
| event: "reachable E s \<Longrightarrow> apply_event E c s = (t, Ok () :: (('m, unit) guild_state_error, unit) result) \<Longrightarrow> reachable E t"

text \<open>The counters of a state: each of them moves by at most one per event.\<close>

definition counters_bounded :: "dynamic_guild_state \<Rightarrow> bool" where
  "counters_bounded s \<longleftrightarrow> gs_membership_epoch s \<le> gs_event_sequence s + 1 \<and> epochs_below (gs_event_sequence s) s"

lemma apply_verified_stages:
  assumes "counters_bounded s" "apply_membership_event E n kind s = (Ok s1 :: (('m, 'x) guild_state_error, _) result)"
  shows "epochs_below (gs_event_sequence s) s1"
  using assms(1) apply_membership_event_frame(1,2) [OF assms(2)] by (simp add: counters_bounded_def epochs_below_iff)

lemma apply_event_counters:
  assumes "apply_event E c s = (s', Ok () :: (('m, 'x) guild_state_error, unit) result)" "counters_bounded s"
  shows "counters_bounded s'"
proof -
  obtain s1 s2 s3 h where a:
    "apply_membership_event E (gs_event_sequence s + 1) (event_kind c) s = (Ok s1 :: (('m, 'x) guild_state_error, _) result)"
    "apply_key_event E (gs_event_sequence s + 1) (event_kind c) s1 = (Ok s2 :: (('m, 'x) guild_state_error, _) result)"
    "apply_group_event E (gs_event_sequence s + 1) (event_kind c) s2 = (Ok s3 :: (('m, 'x) guild_state_error, _) result)"
    "s' = s3\<lparr>gs_event_sequence := gs_event_sequence s + 1, gs_event_head := h\<rparr>"
    using assms(1) by (rule apply_event_OkE)
  have "epochs_below (Suc (gs_event_sequence s)) s2"
    using apply_key_event_epochs [OF a(2) apply_verified_stages [OF assms(2) a(1)]] .
  moreover have "gs_writer_keys s3 = gs_writer_keys s2" "gs_recovery_keys s3 = gs_recovery_keys s2"
    by (subst apply_group_event_frame [OF a(3)], simp)+
  ultimately have "epochs_below (gs_event_sequence s') s'" by (simp add: epochs_below_iff a(4))
  moreover have "gs_membership_epoch s' \<le> gs_membership_epoch s + 1"
    using apply_event_epoch_counted [OF assms(1)] by (simp add: epoch_counted_def)
  ultimately show ?thesis using assms(2) apply_event_frame(1) [OF assms(1)] by (simp add: counters_bounded_def)
qed

lemma reachable_valid:
  assumes "reachable E (s :: dynamic_guild_state)"
  shows "guild_validate E s = (Ok () :: (('m, unit) guild_state_error, _) result)" "counters_bounded s"
proof -
  have "guild_validate E s = (Ok () :: (('m, unit) guild_state_error, _) result) \<and> counters_bounded s"
    using assms
  proof (induction rule: reachable.induct)
    case (genesis guild_id genesis_hash quorum ms s)
    then show ?case by (auto simp: guild_new_def Let_def and_then_Ok_iff counters_bounded_def epochs_below_iff)
  next
    case (event s c t)
    have "guild_validate E t = (Ok () :: (('m, unit) guild_state_error, _) result)" using event(2) by (rule apply_event_OkE)
    then show ?case using apply_event_counters [OF event(2)] event(3) by blast
  qed
  then show "guild_validate E s = (Ok () :: (('m, unit) guild_state_error, _) result)" "counters_bounded s" by auto
qed

lemma apply_verified_event_panic_free:
  assumes "counters_bounded s" "gs_event_sequence s + 2 < 2 ^ 64"
  shows "panic_free (apply_verified_event E c s :: (('m, 'x) guild_state_error, _) result)"
  unfolding apply_verified_event_def Let_def
proof (intro panic_free_and_then)
  show "panic_free (apply_membership_event E (ev_sequence (qe_event c)) (event_kind c) s)"
    using assms by (intro apply_membership_event_panic_free) (simp add: counters_bounded_def)
  fix s1 assume s1: "apply_membership_event E (ev_sequence (qe_event c)) (event_kind c) s = (Ok s1 :: (('m, 'x) guild_state_error, _) result)"
  note below = apply_verified_stages [OF assms(1) s1]
  show "panic_free (apply_key_event E (ev_sequence (qe_event c)) (event_kind c) s1)"
    using below assms(2) by (intro apply_key_event_panic_free [of "gs_event_sequence s"]) simp_all
  fix s2 assume s2: "apply_key_event E (ev_sequence (qe_event c)) (event_kind c) s1 = (Ok s2 :: (('m, 'x) guild_state_error, _) result)"
  fix s3 assume s3: "apply_group_event E (ev_sequence (qe_event c)) (event_kind c) s2 = (Ok s3 :: (('m, 'x) guild_state_error, _) result)"
  fix h
  have "gs_writer_keys s3 = gs_writer_keys s2" "gs_recovery_keys s3 = gs_recovery_keys s2"
    by (subst apply_group_event_frame [OF s3], simp)+
  then have "epochs_below (Suc (gs_event_sequence s)) (s3\<lparr>gs_event_sequence := ev_sequence (qe_event c), gs_event_head := h\<rparr>)"
    using apply_key_event_epochs [OF s2 below] by (simp add: epochs_below_iff)
  then show "panic_free (guild_validate E (s3\<lparr>gs_event_sequence := ev_sequence (qe_event c), gs_event_head := h\<rparr>))"
    by (rule guild_validate_panic_free) (use assms(2) in linarith)
qed (simp_all add: event_hash_def)

text \<open>The bound below is needed: at the last sequence number a proposal makes the unchecked addition overflow,
  where a certified event is refused.\<close>

lemma proposal_overflow_panics:
  assumes "guild_validate E s = (Ok () :: (('m, 'x) guild_state_error, unit) result)" "gs_event_sequence s = 2 ^ 64 - 1"
    "valid_event_format event" "ev_guild_id event = gs_guild_id s"
  shows "validate_event_proposal E s event = (panic :: (('m, 'x) guild_state_error, unit) result)"
    "verify_event E s \<lparr>qe_event = event, qe_signatures = sigs\<rparr> = (Err InvalidEvent :: (('m, 'x) guild_state_error, unit) result)"
  unfolding validate_event_proposal_def verify_event_def assms(1,2)
  by (simp_all add: assms(3,4) uadd_def expect_def checked_add_def)

text \<open>C20: Every state a guild reaches from its genesis is well formed: members are strictly ordered by node
  identifier and their dates lie within the history, the quorum rule can be met by the active members,
  the key epochs of every owner are exactly one to the number of the owner's keys, coding groups are
  strictly ordered, individually valid and consistently retired, and every counter is bounded by the
  number of events.\<close>

theorem reachable_guild_wf:
  assumes "reachable E s"
  shows "guild_wf E s \<and> counters_bounded s"
  using guild_validate_wf [OF reachable_valid(1) [OF assms]] reachable_valid(2) [OF assms] by blast

text \<open>C19: No event, certified or not and whatever it contains, makes a reachable guild panic: applying it
  returns a new state or an error, as long as the guild has seen fewer than \<open>2\<^sup>6\<^sup>4 - 2\<close> events. The same
  holds for checking an unsigned proposal.\<close>

theorem guild_events_never_panic:
  assumes "reachable E s" "gs_event_sequence s + 2 < 2 ^ 64"
  shows "panic_free (snd (apply_event E c s) :: (('m, 'x) guild_state_error, unit) result)
    \<and> panic_free (validate_event_proposal E s event :: (('m, 'x) guild_state_error, unit) result)"
proof -
  have bounds: "counters_bounded s" using reachable_valid(2) [OF assms(1)] .
  have valid: "panic_free (guild_validate E s :: (('m, 'x) guild_state_error, unit) result)"
    using bounds assms(2) by (intro guild_validate_panic_free [of "gs_event_sequence s"]) (simp_all add: counters_bounded_def)
  note applied = apply_verified_event_panic_free [OF bounds assms(2)]
  have "panic_free (and_then (verify_event E s c) (\<lambda>_. apply_verified_event E c s) :: (('m, 'x) guild_state_error, _) result)"
    using verify_event_panic_free [OF valid] applied by blast
  then have "panic_free (snd (apply_event E c s) :: (('m, 'x) guild_state_error, unit) result)"
    by (auto simp: apply_event_def panic_free_def split: sum.splits)
  moreover have "panic_free (validate_event_proposal E s event :: (('m, 'x) guild_state_error, unit) result)"
    unfolding validate_event_proposal_def using valid applied assms(2) by auto
  ultimately show ?thesis ..
qed

end
