(* ===== verification/Guild_Authority.thy ===== *)
theory Guild_Authority
  imports Genesis Canonical Guild_Binding Guild_Reachable
begin

text \<open>
  The bounded membership projection of \<open>src/crates/mb-core/src/guild/authority.rs\<close>: a snapshot keeps only the
  roster and the position in the history, and advances by the same events as the full guild, with the
  effects on keys and coding groups left to a callback of the caller. The refinement property says
  that a snapshot advanced this way stays the projection of the full state.
\<close>

section \<open>Data\<close>

definition GUILD_AUTHORITY_SNAPSHOT_BYTES :: nat where "GUILD_AUTHORITY_SNAPSHOT_BYTES = 128 * 1024"
definition GUILD_EVENT_BYTES :: nat where "GUILD_EVENT_BYTES = 128 * 1024"
definition LEGACY_CODING_ADD_BINDING_BYTES :: nat where "LEGACY_CODING_ADD_BINDING_BYTES = 32 * 1024"

record guild_authority_snapshot =
  as_format_version :: nat
  as_guild_id :: digest
  as_event_sequence :: nat
  as_event_head :: digest
  as_membership_epoch :: nat
  as_quorum :: quorum_policy
  as_members :: "dynamic_member list"

text \<open>The serializers behind the size limits, and the error Postcard reports for a full buffer.\<close>

record 'm size_env =
  sz_full :: 'm
  sz_certified :: "('m, quorum_guild_event) serializer"
  sz_event :: "('m, guild_event) serializer"
  sz_group :: "('m, coding_group_v2) serializer"
  sz_binding :: "('m, quorum_legacy_coding_add_binding) serializer"
  sz_genesis :: "('m, quorum_guild_genesis) serializer"
  sz_snapshot :: "('m, guild_authority_snapshot) serializer"
  sz_snapshot_to_slice :: "guild_authority_snapshot \<Rightarrow> nat \<Rightarrow> 'm + byte list"

section \<open>Operations\<close>

definition check_members :: "dynamic_member list \<Rightarrow> (('m, 'x) guild_state_error, unit) result" where
  "check_members ms =
     (if ms = [] \<or> 256 < length ms \<or> list_ex (\<lambda>entry. 256 < length (mb_failure_domain (dm_member entry))) ms
      then Err InvalidState else Ok ())"

definition snapshot_state :: "guild_authority_snapshot \<Rightarrow> (('m, 'x) guild_state_error, dynamic_guild_state) result" where
  "snapshot_state self =
     and_then (check_members (as_members self)) (\<lambda>_.
     Ok \<lparr>gs_format_version = as_format_version self, gs_guild_id = as_guild_id self, gs_event_sequence = as_event_sequence self,
         gs_event_head = as_event_head self, gs_membership_epoch = as_membership_epoch self, gs_quorum = as_quorum self,
         gs_members = as_members self, gs_writer_keys = [], gs_recovery_keys = [], gs_coding_groups = []\<rparr>)"

definition snapshot_validate :: "'m guild_env \<Rightarrow> guild_authority_snapshot \<Rightarrow> (('m, 'x) guild_state_error, unit) result" where
  "snapshot_validate E self = and_then (snapshot_state self) (guild_validate E)"

definition snapshot_of :: "dynamic_guild_state \<Rightarrow> guild_authority_snapshot" where
  "snapshot_of state = \<lparr>as_format_version = gs_format_version state, as_guild_id = gs_guild_id state,
     as_event_sequence = gs_event_sequence state, as_event_head = gs_event_head state,
     as_membership_epoch = gs_membership_epoch state, as_quorum = gs_quorum state, as_members = gs_members state\<rparr>"

definition snapshot_from_state ::
    "'m guild_env \<Rightarrow> dynamic_guild_state \<Rightarrow> (('m, 'x) guild_state_error, guild_authority_snapshot) result" where
  "snapshot_from_state E state =
     and_then (check_members (gs_members state)) (\<lambda>_.
     and_then (snapshot_validate E (snapshot_of state)) (\<lambda>_. Ok (snapshot_of state)))"

definition snapshot_from_genesis ::
    "'m guild_env \<Rightarrow> 'm size_env \<Rightarrow> ('m, guild_genesis) encoder \<Rightarrow> quorum_guild_genesis \<Rightarrow> (('m, 'x) guild_state_error, guild_authority_snapshot) result" where
  "snapshot_from_genesis E Z enc genesis =
     and_then (map_err Model (canonical_size_bounded (sz_full Z) (sz_genesis Z) genesis GUILD_AUTHORITY_SNAPSHOT_BYTES)) (\<lambda>_.
     and_then (map_err Model (quorum_genesis_verify (gv_crypto E) enc genesis)) (\<lambda>_.
     and_then (map_err Model (genesis_hash (gv_crypto E) (gv_blake3 E) enc (qg_genesis genesis))) (\<lambda>h.
     and_then (guild_new E (ge_guild_id (qg_genesis genesis)) h \<lparr>qp_format_version = 1, qp_rule = Unanimous\<rparr> (ge_members (qg_genesis genesis)))
       (snapshot_from_state E))))"

definition snapshot_decode ::
    "'m guild_env \<Rightarrow> 'm size_env \<Rightarrow> ('m, guild_authority_snapshot) decoder \<Rightarrow> byte list \<Rightarrow> (('m, 'x) guild_state_error, guild_authority_snapshot) result" where
  "snapshot_decode E Z dec bytes =
     (if bytes = [] \<or> GUILD_AUTHORITY_SNAPSHOT_BYTES < length bytes
      then Err (Model (EncodingTooLarge GUILD_AUTHORITY_SNAPSHOT_BYTES))
      else and_then (map_err Model (decode_canonical dec bytes)) (\<lambda>v.
      and_then (snapshot_validate E v) (\<lambda>_.
      and_then (map_err Model (canonical_bytes_bounded (sz_full Z) (sz_snapshot Z) (sz_snapshot_to_slice Z) v GUILD_AUTHORITY_SNAPSHOT_BYTES)) (\<lambda>encoded.
      if encoded \<noteq> bytes then Err InvalidState else Ok v))))"

definition snapshot_active_members :: "guild_authority_snapshot \<Rightarrow> member list" where
  "snapshot_active_members self = map dm_member (filter is_active (as_members self))"

definition snapshot_verify_event ::
    "'m guild_env \<Rightarrow> 'm size_env \<Rightarrow> guild_authority_snapshot \<Rightarrow> quorum_guild_event \<Rightarrow> (('m, 'x) guild_state_error, unit) result" where
  "snapshot_verify_event E Z self certified =
     and_then (map_err Model (canonical_size_bounded (sz_full Z) (sz_certified Z) certified GUILD_EVENT_BYTES)) (\<lambda>_.
     and_then (snapshot_state self) (\<lambda>state. verify_event E state certified))"

text \<open>The callback reads and writes the caller's indexed state \<open>'t\<close>; \<open>from\<close> is the conversion of errors.\<close>

type_synonym ('t, 'e) effects = "guild_authority_snapshot \<Rightarrow> guild_event \<Rightarrow> 't \<Rightarrow> 't \<times> ('e, unit) result"

definition advance_next ::
    "'m guild_env \<Rightarrow> (('m, 'x) guild_state_error \<Rightarrow> 'e) \<Rightarrow> ('t, 'e) effects \<Rightarrow> quorum_guild_event
      \<Rightarrow> guild_authority_snapshot \<Rightarrow> dynamic_guild_state \<Rightarrow> 't \<Rightarrow> 't \<times> ('e, dynamic_guild_state) result" where
  "advance_next E from effects certified self next t =
     (if is_membership (ev_kind (qe_event certified))
      then (t, map_err from (and_then (ok_or (checked_add 64 (as_membership_epoch self) 1) InvalidEvent) (\<lambda>_.
        apply_verified_event E certified next)))
      else case effects self (qe_event certified) t of
        (t', Inl e) \<Rightarrow> (t', Inl e)
      | (t', Inr _) \<Rightarrow> (t', map_err from (and_then (event_hash E (qe_event certified)) (\<lambda>h.
          Ok (next\<lparr>gs_event_sequence := ev_sequence (qe_event certified), gs_event_head := h\<rparr>)))))"

definition advance_verified_indexed ::
    "'m guild_env \<Rightarrow> (('m, 'x) guild_state_error \<Rightarrow> 'e) \<Rightarrow> ('t, 'e) effects \<Rightarrow> quorum_guild_event
      \<Rightarrow> (guild_authority_snapshot \<times> 't, 'e, unit) op" where
  "advance_verified_indexed E from effects certified = (\<lambda>(self, t).
     case map_err from (snapshot_state self) of
       Inl e \<Rightarrow> ((self, t), Inl e)
     | Inr next \<Rightarrow>
    (case advance_next E from effects certified self next t of
       (t', Inl e) \<Rightarrow> ((self, t'), Inl e)
     | (t', Inr next') \<Rightarrow>
    (case map_err from (snapshot_from_state E next') of
       Inl e \<Rightarrow> ((self, t'), Inl e)
     | Inr self' \<Rightarrow> ((self', t'), Ok ()))))"

definition advance_indexed ::
    "'m guild_env \<Rightarrow> 'm size_env \<Rightarrow> (('m, 'x) guild_state_error \<Rightarrow> 'e) \<Rightarrow> ('t, 'e) effects \<Rightarrow> quorum_guild_event
      \<Rightarrow> (guild_authority_snapshot \<times> 't, 'e, unit) op" where
  "advance_indexed E Z from effects certified = (\<lambda>(self, t).
     case map_err from (snapshot_verify_event E Z self certified) of
       Inl e \<Rightarrow> ((self, t), Inl e)
     | Inr _ \<Rightarrow> advance_verified_indexed E from effects certified (self, t))"

definition advance ::
    "'m guild_env \<Rightarrow> 'm size_env \<Rightarrow> ('t, ('m, 'x) guild_state_error) effects \<Rightarrow> quorum_guild_event
      \<Rightarrow> (guild_authority_snapshot \<times> 't, ('m, 'x) guild_state_error, unit) op" where
  "advance E Z effects certified = advance_indexed E Z (\<lambda>e. e) effects certified"

definition advance_proposal_indexed ::
    "'m guild_env \<Rightarrow> 'm size_env \<Rightarrow> (('m, 'x) guild_state_error \<Rightarrow> 'e) \<Rightarrow> ('t, 'e) effects \<Rightarrow> guild_event
      \<Rightarrow> (guild_authority_snapshot \<times> 't, 'e, unit) op" where
  "advance_proposal_indexed E Z from effects event = (\<lambda>(self, t).
     case map_err from (and_then (map_err Model (canonical_size_bounded (sz_full Z) (sz_event Z) event GUILD_EVENT_BYTES)) (\<lambda>_.
         snapshot_validate E self)) of
       Inl e \<Rightarrow> ((self, t), Inl e)
     | Inr _ \<Rightarrow>
         if \<not> valid_event_format event \<or> ev_guild_id event \<noteq> as_guild_id self
            \<or> Some (ev_sequence event) \<noteq> checked_add 64 (as_event_sequence self) 1 \<or> ev_parent event \<noteq> as_event_head self
         then ((self, t), Err (from InvalidEvent))
         else advance_verified_indexed E from effects \<lparr>qe_event = event, qe_signatures = []\<rparr> (self, t))"

definition snapshot_verify_legacy_coding_add_binding ::
    "'m guild_env \<Rightarrow> 'm size_env \<Rightarrow> guild_authority_snapshot \<Rightarrow> quorum_legacy_coding_add_binding \<Rightarrow> quorum_guild_event
      \<Rightarrow> (('m, 'x) guild_state_error, unit) result" where
  "snapshot_verify_legacy_coding_add_binding E Z self binding certified =
     and_then (map_err Model (canonical_size_bounded (sz_full Z) (sz_binding Z) binding LEGACY_CODING_ADD_BINDING_BYTES)) (\<lambda>_.
     and_then (snapshot_verify_event E Z self certified) (\<lambda>_.
     and_then (snapshot_state self) (\<lambda>state. binding_verify E binding state certified)))"

definition snapshot_validate_attempt_authority ::
    "'m guild_env \<Rightarrow> guild_authority_snapshot \<Rightarrow> coding_attempt_plan \<Rightarrow> (('m, 'x) guild_state_error, unit) result" where
  "snapshot_validate_attempt_authority E self plan =
     and_then (snapshot_validate E self) (\<lambda>_.
     and_then (snapshot_state self) (\<lambda>state. validate_attempt_authority E state plan))"

definition snapshot_validate_current_group_placement ::
    "'m guild_env \<Rightarrow> 'm size_env \<Rightarrow> guild_authority_snapshot \<Rightarrow> coding_group_v2 \<Rightarrow> (('m, 'x) guild_state_error, unit) result" where
  "snapshot_validate_current_group_placement E Z self g =
     and_then (map_err Model (canonical_size_bounded (sz_full Z) (sz_group Z) g GUILD_EVENT_BYTES)) (\<lambda>_.
     and_then (snapshot_validate E self) (\<lambda>_.
     and_then (snapshot_state self) (\<lambda>state. validate_current_group_placement state g)))"


section \<open>Projection\<close>

definition strip :: "dynamic_guild_state \<Rightarrow> dynamic_guild_state" where
  "strip s = s\<lparr>gs_writer_keys := [], gs_recovery_keys := [], gs_coding_groups := []\<rparr>"

lemma strip_simps [simp]:
  "gs_format_version (strip s) = gs_format_version s" "gs_guild_id (strip s) = gs_guild_id s"
  "gs_event_sequence (strip s) = gs_event_sequence s" "gs_event_head (strip s) = gs_event_head s"
  "gs_membership_epoch (strip s) = gs_membership_epoch s" "gs_quorum (strip s) = gs_quorum s" "gs_members (strip s) = gs_members s"
  "active_members (strip s) = active_members s" "strip (strip s) = strip s" "snapshot_of (strip s) = snapshot_of s"
  "strip (s\<lparr>gs_event_sequence := n, gs_event_head := h\<rparr>) = (strip s)\<lparr>gs_event_sequence := n, gs_event_head := h\<rparr>"
  by (simp_all add: strip_def active_members_def snapshot_of_def)

lemma snapshot_state_of: "snapshot_state (snapshot_of s) = and_then (check_members (gs_members s)) (\<lambda>_. Ok (strip s))"
  by (cases s) (simp add: snapshot_state_def snapshot_of_def strip_def)

lemma validate_members_loop_check:
  "validate_members_loop K n previous ms = (Ok () :: (('m, 'x) guild_state_error, _) result) \<Longrightarrow>
    \<forall>e \<in> set ms. length (mb_failure_domain (dm_member e)) \<le> 256"
  by (induction ms arbitrary: previous) (auto simp: Let_def split: if_splits)

lemma guild_validate_check_members:
  assumes "guild_validate E s = (Ok () :: (('m, 'x) guild_state_error, _) result)"
  shows "check_members (gs_members s) = Ok ()"
proof -
  have "gs_members s \<noteq> []" using assms by (auto simp: guild_validate_def)
  then show ?thesis using guild_validate_OkD(6) [OF assms] validate_members_loop_check [OF guild_validate_OkD(1) [OF assms]]
    by (auto simp: check_members_def list_ex_iff)
qed

lemma guild_validate_strip:
  assumes "guild_validate E s = (Ok () :: (('m, 'x) guild_state_error, _) result)"
  shows "guild_validate E (strip s) = (Ok () :: (('m, 'x) guild_state_error, _) result)"
  using assms unfolding guild_validate_def strip_simps validate_writer_keys_def validate_recovery_keys_def
  by (auto simp: and_then_Ok_iff strip_def split: if_splits)

lemma guild_validate_unstrip:
  assumes "guild_validate E (strip s) = (Ok () :: (('m, 'x) guild_state_error, _) result)"
    "validate_writer_keys (gv_crypto E) s = (Ok () :: (('m, 'x) guild_state_error, _) result)"
    "validate_recovery_keys (gv_crypto E) s = (Ok () :: (('m, 'x) guild_state_error, _) result)"
    "validate_coding_groups_loop E (gs_guild_id s) (gs_event_sequence s) None (gs_coding_groups s) = (Ok () :: (('m, 'x) guild_state_error, _) result)"
  shows "guild_validate E s = (Ok () :: (('m, 'x) guild_state_error, _) result)"
  using assms unfolding guild_validate_def strip_simps by (auto simp: and_then_Ok_iff split: if_splits)

lemma snapshot_from_state_eq:
  assumes "guild_validate E (strip s) = (Ok () :: (('m, 'x) guild_state_error, _) result)"
  shows "snapshot_from_state E s = (Ok (snapshot_of s) :: (('m, 'x) guild_state_error, _) result)"
  by (simp add: snapshot_from_state_def snapshot_validate_def snapshot_state_of assms guild_validate_check_members [OF assms, simplified])

lemma verify_event_strip:
  assumes "guild_validate E s = (Ok () :: (('m, 'x) guild_state_error, _) result)"
  shows "verify_event E (strip s) c = (verify_event E s c :: (('m, 'x) guild_state_error, _) result)"
  unfolding verify_event_def assms guild_validate_strip [OF assms] Let_def by simp

section \<open>Histories stay valid as the sequence grows\<close>

lemma validate_writer_keys_loop_mono:
  "validate_writer_keys_loop K n previous expected keys = (Ok () :: (('m, 'x) guild_state_error, _) result) \<Longrightarrow> n \<le> n' \<Longrightarrow>
    validate_writer_keys_loop K n' previous expected keys = (Ok () :: (('m, 'x) guild_state_error, _) result)"
  by (induction keys arbitrary: previous expected)
    (auto simp: Let_def and_then_Ok_iff simp del: less_eq_prod_simp split: if_splits option.splits)

lemma validate_recovery_keys_loop_mono:
  "validate_recovery_keys_loop K g n previous expected keys = (Ok () :: (('m, 'x) guild_state_error, _) result) \<Longrightarrow> n \<le> n' \<Longrightarrow>
    validate_recovery_keys_loop K g n' previous expected keys = (Ok () :: (('m, 'x) guild_state_error, _) result)"
  by (induction keys arbitrary: previous expected)
    (auto simp: Let_def and_then_Ok_iff simp del: less_eq_prod_simp split: if_splits option.splits)

lemma validate_coding_groups_loop_mono:
  "validate_coding_groups_loop E g n previous groups = (Ok () :: (('m, 'x) guild_state_error, _) result) \<Longrightarrow> n \<le> n' \<Longrightarrow>
    validate_coding_groups_loop E g n' previous groups = (Ok () :: (('m, 'x) guild_state_error, _) result)"
  by (induction groups arbitrary: previous) (auto simp: and_then_Ok_iff split: if_splits option.splits)


section \<open>Refinement\<close>

text \<open>The effects callback of a caller that keeps the full state.\<close>

definition full_effects :: "'m guild_env \<Rightarrow> (dynamic_guild_state, ('m, 'x) guild_state_error) effects" where
  "full_effects E = (\<lambda>_ event t.
     case apply_verified_event E \<lparr>qe_event = event, qe_signatures = []\<rparr> t of Inl e \<Rightarrow> (t, Inl e) | Inr t' \<Rightarrow> (t', Ok ()))"

lemma apply_verified_event_signatures:
  "apply_verified_event E \<lparr>qe_event = qe_event c, qe_signatures = sigs\<rparr> s = apply_verified_event E c s"
  by (simp add: apply_verified_event_def)

lemma and_then_assoc: "and_then (and_then r f) g = and_then r (\<lambda>x. and_then (f x) g)"
  by (cases r) simp_all

lemma apply_membership_event_strip:
  assumes "is_membership kind"
  shows "apply_membership_event E n kind (strip s) =
    and_then (apply_membership_event E n kind s) (\<lambda>t. Ok (strip t) :: (('m, 'x) guild_state_error, _) result)"
proof -
  have epoch: "next_membership_epoch (strip t) = and_then (next_membership_epoch t) (\<lambda>t. Ok (strip t) :: (('m, 'x) guild_state_error, _) result)" for t
    by (cases t) (simp add: next_membership_epoch_def strip_def and_then_assoc)
  have update: "update_active_member (strip t) node f = and_then (update_active_member t node f) (\<lambda>t. Ok (strip t) :: (('m, 'x) guild_state_error, _) result)" for t node f
    by (cases "update_first (\<lambda>entry. mb_node_id (dm_member entry) = node \<and> is_active entry) f (gs_members t)")
      (simp_all add: update_active_member_def strip_def)
  have [simp]: "(strip t)\<lparr>gs_members := ms\<rparr> = strip (t\<lparr>gs_members := ms\<rparr>)" "(strip t)\<lparr>gs_quorum := q\<rparr> = strip (t\<lparr>gs_quorum := q\<rparr>)" for t ms q
    by (simp_all add: strip_def)
  show ?thesis
    using assms by (cases kind) (simp_all add: apply_membership_event_def is_membership_def epoch update and_then_assoc)
qed

lemma membership_other_stages:
  assumes "is_membership kind"
  shows "apply_key_event E n kind s = Ok s" "apply_group_event E n kind s = Ok s"
  using assms by (cases kind; simp add: apply_key_event_def apply_group_event_def is_membership_def)+

lemma history_valid_after:
  assumes "guild_validate E s = (Ok () :: (('m, 'x) guild_state_error, _) result)" "gs_event_sequence s \<le> n"
    "gs_writer_keys t = gs_writer_keys s" "gs_recovery_keys t = gs_recovery_keys s" "gs_coding_groups t = gs_coding_groups s"
    "gs_guild_id t = gs_guild_id s" "gs_event_sequence t = n" "guild_validate E (strip t) = (Ok () :: (('m, 'x) guild_state_error, _) result)"
  shows "guild_validate E t = (Ok () :: (('m, 'x) guild_state_error, _) result)"
proof (rule guild_validate_unstrip [OF assms(8)])
  show "validate_writer_keys (gv_crypto E) t = (Ok () :: (('m, 'x) guild_state_error, _) result)"
    using guild_validate_OkD(3) [OF assms(1)] assms(2,3,7) by (auto simp: validate_writer_keys_def intro: validate_writer_keys_loop_mono)
  show "validate_recovery_keys (gv_crypto E) t = (Ok () :: (('m, 'x) guild_state_error, _) result)"
    using guild_validate_OkD(4) [OF assms(1)] assms(2,4,6,7) by (auto simp: validate_recovery_keys_def intro: validate_recovery_keys_loop_mono)
  show "validate_coding_groups_loop E (gs_guild_id t) (gs_event_sequence t) None (gs_coding_groups t) = (Ok () :: (('m, 'x) guild_state_error, _) result)"
    using guild_validate_OkD(5) [OF assms(1)] assms(2,5,6,7) by (auto intro: validate_coding_groups_loop_mono)
qed

lemma apply_verified_membership_strip:
  assumes "is_membership (event_kind c)" "guild_validate E s = (Ok () :: (('m, 'x) guild_state_error, _) result)"
    "gs_event_sequence s \<le> ev_sequence (qe_event c)"
  shows "apply_verified_event E c (strip s) = (Ok t' :: (('m, 'x) guild_state_error, _) result) \<longleftrightarrow>
    (\<exists>t. apply_verified_event E c s = (Ok t :: (('m, 'x) guild_state_error, _) result) \<and> t' = strip t)" (is "?L \<longleftrightarrow> ?R")
proof -
  let ?set = "\<lambda>u h. u\<lparr>gs_event_sequence := ev_sequence (qe_event c), gs_event_head := h\<rparr>"
  have valid: "guild_validate E (strip (?set u h)) = (Ok () :: (('m, 'x) guild_state_error, _) result) \<longleftrightarrow>
      guild_validate E (?set u h) = (Ok () :: (('m, 'x) guild_state_error, _) result)"
    if "apply_membership_event E (ev_sequence (qe_event c)) (event_kind c) s = (Ok u :: (('m, 'x) guild_state_error, _) result)" for u h
    using history_valid_after [OF assms(2,3), of "?set u h"] guild_validate_strip [of E "?set u h"]
      apply_membership_event_frame [OF that] apply_membership_event_kept [OF that] by (auto simp: history_kept_def)
  have L: "?L \<longleftrightarrow> (\<exists>u h. apply_membership_event E (ev_sequence (qe_event c)) (event_kind c) s = (Ok u :: (('m, 'x) guild_state_error, _) result)
      \<and> event_hash E (qe_event c) = (Ok h :: (('m, 'x) guild_state_error, _) result)
      \<and> guild_validate E (strip (?set u h)) = (Ok () :: (('m, 'x) guild_state_error, _) result) \<and> t' = strip (?set u h))"
    by (auto simp: apply_verified_event_def Let_def apply_membership_event_strip [OF assms(1)] membership_other_stages [OF assms(1)] and_then_Ok_iff)
  have R: "?R \<longleftrightarrow> (\<exists>u h. apply_membership_event E (ev_sequence (qe_event c)) (event_kind c) s = (Ok u :: (('m, 'x) guild_state_error, _) result)
      \<and> event_hash E (qe_event c) = (Ok h :: (('m, 'x) guild_state_error, _) result)
      \<and> guild_validate E (?set u h) = (Ok () :: (('m, 'x) guild_state_error, _) result) \<and> t' = strip (?set u h))"
    by (auto simp: apply_verified_event_def Let_def membership_other_stages [OF assms(1)] and_then_Ok_iff)
  show ?thesis unfolding L R using valid by blast
qed


lemma apply_verified_other_frame:
  assumes "apply_verified_event E c s = (Ok t :: (('m, 'x) guild_state_error, _) result)" "\<not> is_membership (event_kind c)"
  shows "\<exists>h. event_hash E (qe_event c) = (Ok h :: (('m, 'x) guild_state_error, _) result)
    \<and> strip t = (strip s)\<lparr>gs_event_sequence := ev_sequence (qe_event c), gs_event_head := h\<rparr>
    \<and> guild_validate E t = (Ok () :: (('m, 'x) guild_state_error, _) result)"
proof -
  have "apply_membership_event E (ev_sequence (qe_event c)) (event_kind c) s = (Ok s :: (('m, 'x) guild_state_error, _) result)"
    using assms(2) by (cases "event_kind c") (simp_all add: apply_membership_event_def is_membership_def)
  then obtain s2 s3 h where a: "apply_key_event E (ev_sequence (qe_event c)) (event_kind c) s = (Ok s2 :: (('m, 'x) guild_state_error, _) result)"
      "apply_group_event E (ev_sequence (qe_event c)) (event_kind c) s2 = (Ok s3 :: (('m, 'x) guild_state_error, _) result)"
      "event_hash E (qe_event c) = (Ok h :: (('m, 'x) guild_state_error, _) result)"
      "t = s3\<lparr>gs_event_sequence := ev_sequence (qe_event c), gs_event_head := h\<rparr>"
      "guild_validate E t = (Ok () :: (('m, 'x) guild_state_error, _) result)"
    using assms(1) by (auto simp: apply_verified_event_def Let_def and_then_Ok_iff)
  have "strip s3 = strip s2" by (subst apply_group_event_frame [OF a(2)]) (simp add: strip_def)
  also have "\<dots> = strip s" using apply_key_event_frame [OF a(1)] by (cases s; cases s2) (simp add: strip_def)
  finally show ?thesis using a(3-5) by simp
qed

lemma advance_next_Ok:
  assumes "guild_validate E s = (Ok () :: (('m, 'x) guild_state_error, _) result)" "gs_event_sequence s \<le> ev_sequence (qe_event c)"
  shows "(\<exists>t'. advance_next E (\<lambda>e. e) (full_effects E) c (snapshot_of s) (strip s) s = (t', Ok next :: (('m, 'x) guild_state_error, _) result)) \<longleftrightarrow>
    (\<exists>t. apply_verified_event E c s = (Ok t :: (('m, 'x) guild_state_error, _) result) \<and> next = strip t)"
proof (cases "is_membership (event_kind c)")
  case True
  have epoch: "checked_add 64 (gs_membership_epoch s) 1 \<noteq> None" if t: "apply_verified_event E c s = (Ok t :: (('m, 'x) guild_state_error, _) result)" for t
  proof -
    obtain u where u: "apply_membership_event E (ev_sequence (qe_event c)) (event_kind c) s = (Ok u :: (('m, 'x) guild_state_error, _) result)"
      using t by (auto simp: apply_verified_event_def Let_def and_then_Ok_iff)
    have "gs_membership_epoch s + 1 < 2 ^ 64" if "next_membership_epoch v = (Ok u :: (('m, 'x) guild_state_error, _) result)"
        "gs_membership_epoch v = gs_membership_epoch s" for v
      using that by (auto simp: next_membership_epoch_def and_then_Ok_iff)
    then have "gs_membership_epoch s + 1 < 2 ^ 64" using u True
      by (cases "event_kind c") (auto simp: apply_membership_event_def is_membership_def and_then_Ok_iff update_active_member_def split: if_splits)
    then show ?thesis by (simp add: checked_add_def)
  qed
  have "(\<exists>t'. advance_next E (\<lambda>e. e) (full_effects E) c (snapshot_of s) (strip s) s = (t', Ok next :: (('m, 'x) guild_state_error, _) result)) \<longleftrightarrow>
      checked_add 64 (gs_membership_epoch s) 1 \<noteq> None \<and> apply_verified_event E c (strip s) = (Ok next :: (('m, 'x) guild_state_error, _) result)"
    using True by (cases "checked_add 64 (gs_membership_epoch s) 1") (simp_all add: advance_next_def snapshot_of_def map_err_Ok_iff)
  then show ?thesis unfolding apply_verified_membership_strip [OF True assms] using epoch by blast
next
  case False
  have "(\<exists>t. apply_verified_event E c s = (Ok t :: (('m, 'x) guild_state_error, _) result) \<and> next = strip t) \<longleftrightarrow>
    (\<exists>t h. apply_verified_event E c s = (Ok t :: (('m, 'x) guild_state_error, _) result) \<and> event_hash E (qe_event c) = (Ok h :: (('m, 'x) guild_state_error, _) result)
      \<and> next = (strip s)\<lparr>gs_event_sequence := ev_sequence (qe_event c), gs_event_head := h\<rparr>)"
    using apply_verified_other_frame [OF _ False] by fastforce
  then show ?thesis using False
    by (auto simp: advance_next_def full_effects_def apply_verified_event_signatures and_then_Ok_iff map_err_Ok_iff split: sum.splits)
qed

lemma apply_verified_event_valid:
  "apply_verified_event E c s = (Ok t :: (('m, 'x) guild_state_error, _) result) \<Longrightarrow> guild_validate E t = (Ok () :: (('m, 'x) guild_state_error, _) result)"
  by (auto simp: apply_verified_event_def Let_def and_then_Ok_iff)

text \<open>C18: The bounded snapshot refines the guild. For a valid guild and a certified event within the size limit,
  advancing the guild's snapshot, with the effects on keys and coding groups delegated to a caller that
  keeps the full state, succeeds with a snapshot exactly when applying the event to the guild succeeds
  with a state that projects to it. A failure leaves the snapshot as it was.\<close>

theorem snapshot_refines_guild:
  assumes "guild_validate E s = (Ok () :: (('m, 'x) guild_state_error, _) result)"
    "canonical_size_bounded (sz_full Z) (sz_certified Z) c GUILD_EVENT_BYTES = (Ok n :: (('m, 'x) model_error, _) result)"
  shows "((\<exists>t'. advance E Z (full_effects E) c (snapshot_of s, s) = ((a, t'), Ok () :: (('m, 'x) guild_state_error, unit) result)) \<longleftrightarrow>
      (\<exists>s'. apply_event E c s = (s', Ok () :: (('m, 'x) guild_state_error, unit) result) \<and> a = snapshot_of s'))
    \<and> (advance E Z (full_effects E) c (snapshot_of s, s) = ((a, t''), Inl e :: (('m, 'x) guild_state_error, unit) result) \<longrightarrow> a = snapshot_of s)"
proof -
  have state: "snapshot_state (snapshot_of s) = (Ok (strip s) :: (('m, 'x) guild_state_error, _) result)"
    by (simp add: snapshot_state_of guild_validate_check_members [OF assms(1)])
  have verify: "snapshot_verify_event E Z (snapshot_of s) c = (verify_event E s c :: (('m, 'x) guild_state_error, _) result)"
    by (simp add: snapshot_verify_event_def assms(2) state verify_event_strip [OF assms(1)])
  have applied: "(\<exists>s'. apply_event E c s = (s', Ok () :: (('m, 'x) guild_state_error, unit) result) \<and> a = snapshot_of s') \<longleftrightarrow>
      verify_event E s c = (Ok () :: (('m, 'x) guild_state_error, _) result)
      \<and> (\<exists>t. apply_verified_event E c s = (Ok t :: (('m, 'x) guild_state_error, _) result) \<and> a = snapshot_of t)"
    by (auto simp: apply_event_def and_then_Ok_iff split: sum.splits)
  have step: "(\<exists>t'. advance_verified_indexed E (\<lambda>e. e) (full_effects E) c (snapshot_of s, s) = ((a, t'), Ok () :: (('m, 'x) guild_state_error, unit) result)) \<longleftrightarrow>
      (\<exists>t. apply_verified_event E c s = (Ok t :: (('m, 'x) guild_state_error, _) result) \<and> a = snapshot_of t)" if "gs_event_sequence s \<le> ev_sequence (qe_event c)"
  proof -
    have "(\<exists>t'. advance_verified_indexed E (\<lambda>e. e) (full_effects E) c (snapshot_of s, s) = ((a, t'), Ok () :: (('m, 'x) guild_state_error, unit) result)) \<longleftrightarrow>
      (\<exists>next. (\<exists>t'. advance_next E (\<lambda>e. e) (full_effects E) c (snapshot_of s) (strip s) s = (t', Ok next :: (('m, 'x) guild_state_error, _) result))
        \<and> snapshot_from_state E next = (Ok a :: (('m, 'x) guild_state_error, _) result))"
      by (auto simp: advance_verified_indexed_def state map_err_def split: prod.splits sum.splits stop.splits)
    moreover have "snapshot_from_state E (strip t) = (Ok (snapshot_of t) :: (('m, 'x) guild_state_error, _) result)"
      if "apply_verified_event E c s = (Ok t :: (('m, 'x) guild_state_error, _) result)" for t
      using snapshot_from_state_eq [of E "strip t"] guild_validate_strip [OF apply_verified_event_valid [OF that]] by simp
    ultimately show ?thesis unfolding advance_next_Ok [OF assms(1) that] by (metis Inr_inject)
  qed
  have "gs_event_sequence s \<le> ev_sequence (qe_event c)" if "verify_event E s c = (Ok () :: (('m, 'x) guild_state_error, _) result)"
    using verify_event_OkD(3) [OF that] by simp
  then have "(\<exists>t'. advance E Z (full_effects E) c (snapshot_of s, s) = ((a, t'), Ok () :: (('m, 'x) guild_state_error, unit) result)) \<longleftrightarrow>
      (\<exists>s'. apply_event E c s = (s', Ok () :: (('m, 'x) guild_state_error, unit) result) \<and> a = snapshot_of s')"
    unfolding applied using step by (auto simp: advance_def advance_indexed_def verify map_err_def split: sum.splits stop.splits)
  moreover have "a = snapshot_of s" if "advance E Z (full_effects E) c (snapshot_of s, s) = ((a, t''), Inl e :: (('m, 'x) guild_state_error, unit) result)"
    using that by (auto simp: advance_def advance_indexed_def advance_verified_indexed_def split: sum.splits prod.splits)
  ultimately show ?thesis by blast
qed

end
