(* ===== verification/Attempt_Instances.thy ===== *)
theory Attempt_Instances
  imports Attempt
begin

text \<open>
  A concrete coding attempt on which the hypotheses of the properties of \<open>Attempt\<close> hold.
\<close>

section \<open>Instances\<close>

text \<open>An attempt over one information and one parity shard. The parity shard consists of the byte \<open>b\<close>;
  with seven it is the encoding of the information shard, with eight it is not.\<close>

definition sample_attempt_codec :: "unit attempt_codec" where
  "sample_attempt_codec = \<lparr>ac_group = \<lambda>_. Inr [3], ac_lane = \<lambda>_. Inr [3], ac_plan = \<lambda>_. Inr [3], ac_manifest = \<lambda>_. Inr [3],
     ac_receipt = \<lambda>_. Inr [3], ac_challenge_commitment = \<lambda>_. Inr [3], ac_challenge_reveal = \<lambda>_. Inr [3], ac_opening = \<lambda>_. Inr [3],
     ac_transcript = \<lambda>_. Inr [3], ac_evidence = \<lambda>_. Inr [3]\<rparr>"

definition sample_signed :: "'a \<Rightarrow> digest \<Rightarrow> 'a signed_record" where
  "sample_signed v k = \<lparr>sig_signer = k, sig_value = v, sig_signature = ucast k # 3 # zeros 62\<rparr>"

lemma sample_signed_simps [simp]: "sig_signer (sample_signed v k) = k" "sig_value (sample_signed v k) = v"
  by (simp_all add: sample_signed_def)

lemma sample_signed_verify [simp]: "signed_verify sample_crypto (\<lambda>_. Inr [3]) domain (sample_signed v k) = Ok ()"
  by (simp add: signed_verify_def canonical_bytes_def sample_signed_def signing_payload_def)

definition sample_byte_commitment :: "byte \<Rightarrow> merkle_commitment" where
  "sample_byte_commitment b = \<lparr>mc_format_version = 1, mc_leaf_size = 16, mc_byte_len = 16, mc_root = ucast b + 2\<rparr>"

definition sample_geometry :: coding_plan_geometry where
  "sample_geometry = \<lparr>geo_format_version = 1, geo_guild_id = 5, geo_profile = sample_profile,
     geo_information = [\<lparr>ir_owner = 1, ir_failure_domain = ''a'',
       ir_sector = \<lparr>sec_id = 6, sec_commitment = sample_byte_commitment 7, sec_logical_len = 16, sec_virtual_zero = False\<rparr>\<rparr>],
     geo_parity = [\<lparr>pp_holder = 2, pp_failure_domain = ''b'', pp_row = 0\<rparr>]\<rparr>"

definition sample_plan :: coding_attempt_plan where
  "sample_plan = \<lparr>pl_format_version = 1, pl_attempt_id = 1, pl_checkpoint_hash = 1, pl_membership_epoch = 1, pl_geometry = sample_geometry,
     pl_delegator = 11, pl_coding_coordinator = 12, pl_verification_coordinator = 13, pl_expires_at_unix_seconds = 100,
     pl_information_roots = None\<rparr>"

definition sample_attempt_group :: "byte \<Rightarrow> coding_group_v2" where
  "sample_attempt_group b = attempt_group sample_plan 4
     [Parity \<lparr>pa_holder = 2, pa_failure_domain = ''b'', pa_row = 0, pa_commitment = sample_byte_commitment b\<rparr>]"

definition sample_manifest :: "byte \<Rightarrow> coding_root_manifest signed_record" where
  "sample_manifest b = sample_signed (attempt_manifest sample_plan 4 (sample_attempt_group b) [replicate 16 7]) 12"

definition sample_receipt :: "byte \<Rightarrow> staged_storage_receipt signed_record" where
  "sample_receipt b = sample_signed \<lparr>rc_format_version = 1, rc_attempt_id = 1, rc_plan_hash = 4, rc_guild_id = 5, rc_group_id = 4,
     rc_shard_index = 1, rc_holder = 2, rc_commitment = sample_byte_commitment b\<rparr> 2"

definition sample_leaf_proof :: "byte \<Rightarrow> merkle_range_proof" where
  "sample_leaf_proof b = \<lparr>rp_format_version = 1, rp_start_leaf = 0, rp_leaves = [replicate 16 b], rp_siblings = []\<rparr>"

definition sample_opening :: "node_id \<Rightarrow> nat \<Rightarrow> byte \<Rightarrow> coding_shard_opening signed_record" where
  "sample_opening holder i b = sample_signed (honest_opening sample_plan 4 5 i (sample_byte_commitment b)
     (sample_leaf_proof b)) holder"

definition sample_transcript :: "byte \<Rightarrow> byte \<Rightarrow> coding_verification_transcript signed_record" where
  "sample_transcript b c = sample_signed \<lparr>tr_format_version = 1, tr_verified_at_unix_seconds = 50, tr_plan = sample_signed sample_plan 11,
     tr_manifest = sample_manifest b,
     tr_challenge_commitment = sample_signed \<lparr>cc_format_version = 1, cc_attempt_id = 1, cc_plan_hash = 4, cc_commitment = 10\<rparr> 13,
     tr_staged_receipts = [sample_receipt b],
     tr_challenge_reveal = sample_signed \<lparr>cv_format_version = 1, cv_attempt_id = 1, cv_plan_hash = 4, cv_nonce = 9, cv_evidence_hash = 4\<rparr> 13,
     tr_openings = [sample_opening 1 0 7, sample_opening 2 1 c]\<rparr> 13"

lemma sample_attempt_codec_simps [simp]:
  "ac_group sample_attempt_codec = (\<lambda>_. Inr [3])" "ac_plan sample_attempt_codec = (\<lambda>_. Inr [3])"
  "ac_manifest sample_attempt_codec = (\<lambda>_. Inr [3])" "ac_receipt sample_attempt_codec = (\<lambda>_. Inr [3])"
  "ac_challenge_commitment sample_attempt_codec = (\<lambda>_. Inr [3])" "ac_challenge_reveal sample_attempt_codec = (\<lambda>_. Inr [3])"
  "ac_opening sample_attempt_codec = (\<lambda>_. Inr [3])" "ac_transcript sample_attempt_codec = (\<lambda>_. Inr [3])"
  "ac_evidence sample_attempt_codec = (\<lambda>_. Inr [3])"
  by (simp_all add: sample_attempt_codec_def)

lemma sample_byte_commitment_simps [simp]:
  "mc_byte_len (sample_byte_commitment b) = 16" "validate_commitment (sample_byte_commitment 7) = Ok ()"
  "validate_commitment (sample_byte_commitment 8) = Ok ()"
  by (simp_all add: sample_byte_commitment_def validate_commitment_def sixteen_data_len)

lemma sample_plan_valid: "plan_validate sample_blake3 sample_plan = Ok ()"
  by (simp add: plan_validate_def sample_plan_def sample_geometry_def geometry_validate_def sample_profile_valid)

lemma sample_plan_simps [simp]:
  "pl_format_version sample_plan = 1" "pl_attempt_id sample_plan = 1" "pl_geometry sample_plan = sample_geometry"
  "pl_delegator sample_plan = 11" "pl_coding_coordinator sample_plan = 12" "pl_verification_coordinator sample_plan = 13"
  "pl_expires_at_unix_seconds sample_plan = 100" "geo_profile sample_geometry = sample_profile" "geo_guild_id sample_geometry = 5"
  "geo_parity sample_geometry = [\<lparr>pp_holder = 2, pp_failure_domain = ''b'', pp_row = 0\<rparr>]"
  "geo_information sample_geometry = [\<lparr>ir_owner = 1, ir_failure_domain = ''a'',
     ir_sector = \<lparr>sec_id = 6, sec_commitment = sample_byte_commitment 7, sec_logical_len = 16, sec_virtual_zero = False\<rparr>\<rparr>]"
  by (simp_all add: sample_plan_def sample_geometry_def)

lemma sample_plan_roots: "pl_information_roots sample_plan = None"
  by (simp add: sample_plan_def)

lemma sample_attempt_group_simps [simp]:
  "cg_profile (sample_attempt_group b) = sample_profile" "cg_guild_id (sample_attempt_group b) = 5" "cg_id (sample_attempt_group b) = 4"
  "cg_format_version (sample_attempt_group b) = 2"
  "cg_roles (sample_attempt_group b) = [Information \<lparr>ir_owner = 1, ir_failure_domain = ''a'',
     ir_sector = \<lparr>sec_id = 6, sec_commitment = sample_byte_commitment 7, sec_logical_len = 16, sec_virtual_zero = False\<rparr>\<rparr>,
     Parity \<lparr>pa_holder = 2, pa_failure_domain = ''b'', pa_row = 0, pa_commitment = sample_byte_commitment b\<rparr>]"
  by (simp_all add: sample_attempt_group_def)

lemma sample_plan_hash: "plan_hash sample_attempt_codec sample_blake3 sample_plan = Ok 4"
  by (simp add: plan_hash_def sample_plan_valid hash_canonical_def canonical_bytes_def)

lemma sample_attempt_group_valid:
  "group_validate (\<lambda>_. Inr [3]) sample_blake3 (sample_attempt_group 7) = Ok ()"
  "group_validate (\<lambda>_. Inr [3]) sample_blake3 (sample_attempt_group 8) = Ok ()"
  by (simp_all add: group_validate_def sample_attempt_group_def attempt_group_def sample_plan_def sample_geometry_def sample_profile_valid
      total_shards_eq [OF sample_profile_valid] group_calculate_id_def coding_group_v2_id_def hash_canonical_def canonical_bytes_def
      group_role_check_def)

lemma sample_manifest_valid:
  "manifest_validate_for_plan sample_attempt_codec sample_blake3 (sig_value (sample_manifest 7)) sample_plan = Ok ()"
  "manifest_validate_for_plan sample_attempt_codec sample_blake3 (sig_value (sample_manifest 8)) sample_plan = Ok ()"
  by (simp_all add: manifest_validate_for_plan_def sample_manifest_def attempt_manifest_def sample_plan_hash
      geometry_validate_group_def sample_attempt_group_valid)

lemma sample_challenged_leaf: "challenged_leaf sample_blake3 ch (sample_byte_commitment 7) = Ok 0"
    "challenged_leaf sample_blake3 ch (sample_byte_commitment 8) = Ok 0"
  by (simp_all add: challenged_leaf_def)

lemma sample_leaf_verify:
  "merkle_verify_range sample_blake3 (sample_byte_commitment 7) (sample_leaf_proof 7) = Ok (replicate 16 7)"
  "merkle_verify_range sample_blake3 (sample_byte_commitment 8) (sample_leaf_proof 8) = Ok (replicate 16 8)"
proof -
  have r: "\<not> bad_range 0 (Suc 0) (Suc 0)" using is_power_of_two_power [of 0] by (simp add: bad_range_def)
  have n: "reduce_nodes sample_blake3 [d] = [d]" for d by (simp add: reduce_nodes.simps [of _ "[d]"])
  show "merkle_verify_range sample_blake3 (sample_byte_commitment 7) (sample_leaf_proof 7) = Ok (replicate 16 7)"
    "merkle_verify_range sample_blake3 (sample_byte_commitment 8) (sample_leaf_proof 8) = Ok (replicate 16 8)"
    by (simp_all add: merkle_verify_range_def sample_leaf_proof_def Let_def r n index_def hash_leaf_def bind_root_def)
      (simp_all add: sample_byte_commitment_def)
qed

lemma sample_challenge:
  "replay_challenge sample_crypto sample_attempt_codec sample_blake3 sample_plan 4 (sig_value (sample_transcript b c)) = Ok 5"
  by (simp add: replay_challenge_def sample_transcript_def coding_evidence_hash_def hash_canonical_def canonical_bytes_def
      challenge_commitment_def coding_challenge_def)

lemma sample_receipts:
  "replay_receipts sample_crypto sample_attempt_codec sample_plan 4 (sample_attempt_group b) 1 [sample_receipt b] = Ok ()"
  by (simp add: sample_receipt_def index_def)

lemma sample_openings:
  "replay_openings sample_crypto sample_attempt_codec sample_blake3 sample_plan 4 (sample_attempt_group 7) 5 0
    [sample_opening 1 0 7, sample_opening 2 1 7] = Ok (Inr [replicate 16 7, replicate 16 7])"
  "replay_openings sample_crypto sample_attempt_codec sample_blake3 sample_plan 4 (sample_attempt_group 8) 5 0
    [sample_opening 1 0 7, sample_opening 2 1 8] = Ok (Inr [replicate 16 7, replicate 16 8])"
  "replay_openings sample_crypto sample_attempt_codec sample_blake3 sample_plan 4 (sample_attempt_group 7) 5 0
    [sample_opening 1 0 7, sample_opening 2 1 8] = Ok (Inl (InvalidOpening 2 1))"
  by (simp_all add: sample_opening_def index_def role_holder_and_commitment_def honest_opening_def sample_challenged_leaf
      sample_leaf_verify) (simp_all add: sample_leaf_proof_def sample_byte_commitment_def)

lemma sample_transcript_simps [simp]:
  "sig_signer (sample_transcript b c) = 13" "tr_format_version (sig_value (sample_transcript b c)) = 1"
  "tr_verified_at_unix_seconds (sig_value (sample_transcript b c)) = 50"
  "tr_plan (sig_value (sample_transcript b c)) = sample_signed sample_plan 11"
  "tr_manifest (sig_value (sample_transcript b c)) = sample_manifest b"
  "tr_staged_receipts (sig_value (sample_transcript b c)) = [sample_receipt b]"
  "tr_openings (sig_value (sample_transcript b c)) = [sample_opening 1 0 7, sample_opening 2 1 c]"
  "signed_verify sample_crypto (\<lambda>_. Inr [3]) domain (sample_transcript b c) = Ok ()"
  "signed_verify sample_crypto (\<lambda>_. Inr [3]) domain (sample_manifest b) = Ok ()"
  "sig_signer (sample_manifest b) = 12" "mf_group (sig_value (sample_manifest b)) = sample_attempt_group b"
  by (simp_all add: sample_transcript_def sample_manifest_def attempt_manifest_def)

lemma sample_replay:
  "replay_coding_transcript sample_crypto sample_attempt_codec sample_blake3 sample_codec (sample_transcript 7 7) = Ok Verified"
  "replay_coding_transcript sample_crypto sample_attempt_codec sample_blake3 sample_codec (sample_transcript 8 8) = Ok (InvalidCoding 12)"
  "replay_coding_transcript sample_crypto sample_attempt_codec sample_blake3 sample_codec (sample_transcript 7 8) = Ok (InvalidOpening 2 1)"
  by (simp_all add: replay_coding_transcript_def Let_def sample_plan_valid sample_plan_hash sample_manifest_valid sample_challenge
      sample_receipts [unfolded One_nat_def] sample_openings [unfolded One_nat_def] verify_sampled_codeword_def total_shards_eq [OF sample_profile_valid]
      verify_with_def sample_codec_def numeral_2_eq_2 del: replay_receipts.simps replay_openings.simps)

lemma sample_byte_commit:
  "merkle_commit sample_blake3 (replicate 16 7) = Ok (sample_byte_commitment 7)"
  "merkle_commit sample_blake3 (replicate 16 8) = Ok (sample_byte_commitment 8)"
proof -
  have "merkle_commit sample_blake3 (replicate 16 b) =
      Ok (commitment_of sample_blake3 16 (tree_root sample_blake3 0 (leaf_digests sample_blake3 (replicate 16 b))))" for b
    using merkle_commit_eq [of "replicate 16 b" 0 sample_blake3] by simp
  then show "merkle_commit sample_blake3 (replicate 16 7) = Ok (sample_byte_commitment 7)"
    "merkle_commit sample_blake3 (replicate 16 8) = Ok (sample_byte_commitment 8)"
    by (simp_all add: commitment_of_def sample_byte_commitment_def bind_root_def hash_leaf_def chunks_short)
qed

lemma sample_attempt_committed:
  "committed sample_blake3 (sample_attempt_group 7) [replicate 16 7, replicate 16 7]"
  "committed sample_blake3 (sample_attempt_group 8) [replicate 16 7, replicate 16 8]"
  by (simp_all add: committed_def less_Suc_eq role_commitment_def sample_byte_commit)

lemma sample_evidence_collision_free:
  "evidence_collision_free sample_blake3 [sample_opening 1 0 7, sample_opening 2 1 c] [replicate 16 7, replicate 16 c]"
proof -
  have q: "commit_queries sample_blake3 (replicate 16 b) = [leaf_query (replicate 16 b), root_query 16 (ucast b + 1)]"
    "verify_range_queries sample_blake3 16 (sample_leaf_proof b) = [leaf_query (replicate 16 b), root_query 16 (ucast b + 1)]" for b
    by (simp_all add: commit_queries_def verify_range_queries_def sample_leaf_proof_def Let_def chunks_short hash_leaf_def)
  have cf: "collision_free sample_blake3 {leaf_query (replicate 16 b), root_query 16 (ucast b + 1)}" for b
    by (simp add: collision_free_def leaf_query_def root_query_def)
  show ?thesis using cf [of 7] cf [of c]
    by (simp add: evidence_collision_free_def less_Suc_eq q sample_opening_def honest_opening_def)
qed

theorem replay_verified_sound_witness:
  "verify_sampled_codeword sample_codec sample_profile [replicate 16 7, replicate 16 7] = Ok ()
    \<and> authentic_opening sample_crypto sample_attempt_codec 2 (sample_opening 2 1 7) TYPE(unit)"
  using replay_verified_sound [OF sample_replay(1), of "[replicate 16 7, replicate 16 7]"]
    sample_attempt_committed(1) sample_evidence_collision_free [of 7]
  by (auto simp: Let_def role_commitment_def role_holder_def role_holder_and_commitment_def sample_challenged_leaf sub_def)

theorem replay_blames_bad_opening_witness:
  "authentic_opening sample_crypto sample_attempt_codec 2 (sample_opening 2 1 8) TYPE(unit)"
  using replay_blames_bad_opening [OF sample_replay(3)] by (auto simp: Let_def)

theorem replay_blames_bad_coding_witness:
  "verify_codeword sample_codec sample_profile [replicate 16 7, replicate 16 8] \<noteq> Ok ()"
  using replay_blames_bad_coding [OF sample_replay(2), of "[replicate 16 7, replicate 16 8]" sample_code]
    sample_attempt_committed(2) sample_evidence_collision_free [of 8] sample_contract
  by simp

lemma sample_encode_attempt:
  "encode_coding_attempt sample_crypto sample_attempt_codec sample_blake3 sample_codec (sample_signed sample_plan 11) [Some (replicate 16 7)]
    (sample_keys 12) = Ok (sample_manifest 7, [replicate 16 7])"
proof -
  have g: "sample_attempt_group 7 = \<lparr>cg_id = 4, cg_format_version = 2, cg_guild_id = 5, cg_profile = sample_profile,
      cg_roles = [Information \<lparr>ir_owner = 1, ir_failure_domain = ''a'',
        ir_sector = \<lparr>sec_id = 6, sec_commitment = sample_byte_commitment 7, sec_logical_len = 16, sec_virtual_zero = False\<rparr>\<rparr>,
        Parity \<lparr>pa_holder = 2, pa_failure_domain = ''b'', pa_row = 0, pa_commitment = sample_byte_commitment 7\<rparr>]\<rparr>"
    by (simp add: sample_attempt_group_def attempt_group_def)
  show ?thesis
    by (simp add: encode_coding_attempt_def Let_def sample_plan_valid key_node_id_def sample_keys_def sample_byte_commit
        information_root_def sample_plan_roots sample_group_encoded slice_def sub_def group_calculate_id_def coding_group_v2_id_def hash_canonical_def
        canonical_bytes_def sample_plan_hash signed_sign_def sign_def signing_payload_def sample_attempt_group_valid(1) flip: g)
      (simp add: sample_manifest_def sample_signed_def attempt_manifest_def)
qed

theorem encode_attempt_correct_witness:
  "manifest_validate_for_plan sample_attempt_codec sample_blake3 (sig_value (sample_manifest 7)) sample_plan
    = (Ok () :: ((unit, unit) coding_attempt_error, unit) result)"
  using encode_attempt_correct [OF sample_encode_attempt sample_crypto_correct(3), of sample_code] sample_contract
  by (auto simp: Let_def)

end
