(* ===== verification/Guild_Instances.thy ===== *)
theory Guild_Instances
  imports Guild_Authority Attempt_Instances
begin

text \<open>
  A concrete guild of five members under a majority rule, and a run of its events, on which the
  hypotheses of the properties of the guild theories hold.
\<close>

definition sample_guild_env :: "unit guild_env" where
  "sample_guild_env = \<lparr>gv_crypto = sample_crypto, gv_blake3 = sample_blake3, gv_group = \<lambda>_. Inr [3], gv_event = \<lambda>_. Inr [3],
     gv_statement = \<lambda>_. Inr [3]\<rparr>"

definition sample_recovery_key :: digest where
  "sample_recovery_key = 1 - digest_of (replicate 32 0x5a)"

definition sample_member :: "node_id \<Rightarrow> string \<Rightarrow> member" where
  "sample_member k domain = \<lparr>mb_node_id = k, mb_recovery_public_key = sample_recovery_key, mb_failure_domain = domain\<rparr>"

definition sample_majority :: quorum_policy where
  "sample_majority = \<lparr>qp_format_version = 1, qp_rule = Majority\<rparr>"

definition sample_members :: "member list" where
  "sample_members = [sample_member 1 ''a'', sample_member 2 ''b'', sample_member 11 ''c'', sample_member 12 ''d'', sample_member 13 ''e'']"

definition sample_guild :: dynamic_guild_state where
  "sample_guild = \<lparr>gs_format_version = 1, gs_guild_id = 5, gs_event_sequence = 0, gs_event_head = 9, gs_membership_epoch = 1,
     gs_quorum = sample_majority,
     gs_members = map (\<lambda>m. \<lparr>dm_member = m, dm_joined_at_event = 0, dm_removed_at_event = None\<rparr>) sample_members,
     gs_writer_keys = [], gs_recovery_keys = [], gs_coding_groups = []\<rparr>"

definition sample_vote :: "node_id \<Rightarrow> member_signature" where
  "sample_vote k = \<lparr>ms_signer = k, ms_signature = ucast k # 3 # zeros 62\<rparr>"

text \<open>An event signed by the given members.\<close>

definition sample_event :: "nat \<Rightarrow> digest \<Rightarrow> guild_event_kind \<Rightarrow> node_id list \<Rightarrow> quorum_guild_event" where
  "sample_event n parent kind signers = \<lparr>qe_event = \<lparr>ev_format_version = 1, ev_guild_id = 5, ev_sequence = n, ev_parent = parent, ev_kind = kind\<rparr>,
     qe_signatures = map sample_vote signers\<rparr>"

lemma sample_guild_env_simps [simp]:
  "gv_crypto sample_guild_env = sample_crypto" "gv_blake3 sample_guild_env = sample_blake3" "gv_group sample_guild_env = (\<lambda>_. Inr [3])"
  "gv_event sample_guild_env = (\<lambda>_. Inr [3])" "gv_statement sample_guild_env = (\<lambda>_. Inr [3])"
  by (simp_all add: sample_guild_env_def)

lemma sample_event_simps [simp]:
  "ev_sequence (qe_event (sample_event n parent kind signers)) = n" "ev_parent (qe_event (sample_event n parent kind signers)) = parent"
  "ev_guild_id (qe_event (sample_event n parent kind signers)) = 5" "ev_kind (qe_event (sample_event n parent kind signers)) = kind"
  "ev_format_version (qe_event (sample_event n parent kind signers)) = 1"
  "qe_signatures (sample_event n parent kind signers) = map sample_vote signers"
  by (simp_all add: sample_event_def)

lemma sample_event_hash [simp]: "event_hash sample_guild_env event = Ok 4"
  by (simp add: event_hash_def hash_canonical_def canonical_bytes_def)

lemma sample_event_signature [simp]:
  "verify_guild_event_signature sample_guild_env event (sample_vote k) = Ok ()" "ms_signer (sample_vote k) = k"
  by (simp_all add: sample_vote_def verify_guild_event_signature_def verify_member_signature_def Let_def canonical_bytes_def signing_payload_def)

lemma sample_contributory [simp]: "is_contributory sample_crypto sample_recovery_key"
  by (simp add: is_contributory_def sample_recovery_key_def)

lemma two_le_one [simp]: "\<not> (2 :: digest) \<le> 1" "(1 :: digest) < 2"
  by (simp_all add: word_le_nat_alt word_less_nat_alt)

lemmas sample_guild_simps = sample_guild_def sample_members_def sample_member_def sample_majority_def

lemma sample_guild_valid: "guild_validate sample_guild_env sample_guild = Ok ()"
  by (simp add: guild_validate_def sample_guild_simps active_members_def is_active_def quorum_required_def
      validate_writer_keys_def validate_recovery_keys_def)


section \<open>A run of three events\<close>

definition sample_rotate :: quorum_guild_event where
  "sample_rotate = sample_event 1 9 (RotateWriterKey 1 1 7) [1, 2, 11]"

definition sample_add_group :: quorum_guild_event where
  "sample_add_group = sample_event 2 4 (AddCodingGroup (sample_attempt_group 7)) [2, 11, 12]"

definition sample_relabel :: quorum_guild_event where
  "sample_relabel = sample_event 3 4 (RelabelMember 13 ''f'') [11, 12, 13]"

text \<open>A competitor of the first event.\<close>

definition sample_rival :: quorum_guild_event where
  "sample_rival = sample_event 1 9 (RelabelMember 13 ''f'') [11, 12, 13]"

definition sample_guild1 :: dynamic_guild_state where
  "sample_guild1 = sample_guild\<lparr>gs_event_sequence := 1, gs_event_head := 4, gs_writer_keys :=
     [\<lparr>wr_owner = 1, wr_epoch = 1, wr_public_key = 7, wr_activated_at_event = 1, wr_revoked_at_event = None\<rparr>]\<rparr>"

definition sample_retained :: retained_coding_group where
  "sample_retained = \<lparr>rg_group = sample_attempt_group 7, rg_added_at_event = 2, rg_retired_at_event = None, rg_retain_through_event = None\<rparr>"

definition sample_guild2 :: dynamic_guild_state where
  "sample_guild2 = sample_guild1\<lparr>gs_event_sequence := 2, gs_coding_groups := [sample_retained]\<rparr>"

definition sample_guild3 :: dynamic_guild_state where
  "sample_guild3 = sample_guild2\<lparr>gs_event_sequence := 3, gs_membership_epoch := Suc (Suc 0), gs_members :=
     map (\<lambda>m. \<lparr>dm_member = m, dm_joined_at_event = 0, dm_removed_at_event = None\<rparr>)
       [sample_member 1 ''a'', sample_member 2 ''b'', sample_member 11 ''c'', sample_member 12 ''d'', sample_member 13 ''f'']\<rparr>"

lemmas sample_run_simps = sample_guild_simps sample_guild1_def sample_guild2_def sample_guild3_def sample_retained_def
  active_members_def is_active_def quorum_required_def

lemma sample_run_valid:
  "guild_validate sample_guild_env sample_guild1 = Ok ()" "guild_validate sample_guild_env sample_guild2 = Ok ()"
  "guild_validate sample_guild_env sample_guild3 = Ok ()"
  by (simp_all add: guild_validate_def sample_run_simps validate_writer_keys_def validate_recovery_keys_def sample_attempt_group_valid)

lemma sample_certified:
  "verify_event sample_guild_env sample_guild sample_rotate = Ok ()" "verify_event sample_guild_env sample_guild1 sample_add_group = Ok ()"
  "verify_event sample_guild_env sample_guild2 sample_relabel = Ok ()" "verify_event sample_guild_env sample_guild sample_rival = Ok ()"
  unfolding verify_event_def sample_guild_valid sample_run_valid and_then_simps Let_def
  by (simp_all add: sample_rotate_def sample_rival_def sample_add_group_def sample_relabel_def
      valid_event_format_def subject_authorization_def checked_add_def sample_run_simps)

lemma sample_apply_rotate: "apply_event sample_guild_env sample_rotate sample_guild = (sample_guild1, Ok () :: ((unit, 'x) guild_state_error, unit) result)"
proof -
  have "apply_verified_event sample_guild_env sample_rotate sample_guild = (and_then (guild_validate sample_guild_env sample_guild1) (\<lambda>_. Ok sample_guild1) :: ((unit, 'x) guild_state_error, _) result)"
    by (simp add: apply_verified_event_def Let_def sample_rotate_def apply_membership_event_def apply_key_event_def apply_group_event_def
        require_active_member_def max_epoch_def sample_run_simps)
  then show ?thesis by (simp add: apply_event_def sample_certified sample_run_valid)
qed

lemma sample_apply_add_group: "apply_event sample_guild_env sample_add_group sample_guild1 = (sample_guild2, Ok () :: ((unit, 'x) guild_state_error, unit) result)"
proof -
  have "apply_verified_event sample_guild_env sample_add_group sample_guild1 = (and_then (guild_validate sample_guild_env sample_guild2) (\<lambda>_. Ok sample_guild2) :: ((unit, 'x) guild_state_error, _) result)"
    by (simp add: apply_verified_event_def Let_def sample_add_group_def apply_membership_event_def apply_key_event_def apply_group_event_def
        add_coding_group_def sample_attempt_group_valid validate_current_group_placement_def role_holder_def role_holder_and_commitment_def role_domain_def
        require_active_member_def insert_sorted_def sample_run_simps)
  then show ?thesis by (simp add: apply_event_def sample_certified sample_run_valid)
qed

lemma sample_apply_relabel: "apply_event sample_guild_env sample_relabel sample_guild2 = (sample_guild3, Ok () :: ((unit, 'x) guild_state_error, unit) result)"
proof -
  have "apply_verified_event sample_guild_env sample_relabel sample_guild2 = (and_then (guild_validate sample_guild_env sample_guild3) (\<lambda>_. Ok sample_guild3) :: ((unit, 'x) guild_state_error, _) result)"
    by (simp add: apply_verified_event_def Let_def sample_relabel_def apply_membership_event_def apply_key_event_def apply_group_event_def
        update_active_member_def next_membership_epoch_def Let_def sample_run_simps)
  then show ?thesis by (simp add: apply_event_def sample_certified sample_run_valid)
qed

lemmas sample_apply = sample_apply_rotate sample_apply_add_group sample_apply_relabel

section \<open>Witnesses\<close>

theorem certified_events_share_signer_witness:
  "\<exists>sig \<in> set (qe_signatures sample_rotate). \<exists>sig' \<in> set (qe_signatures sample_rival). ms_signer sig = ms_signer sig'"
  using certified_events_share_signer [OF sample_certified(1,4)] by blast

theorem guild_history_append_only_witness:
  "gs_event_sequence sample_guild3 = gs_event_sequence sample_guild1 + 2 \<and> history_kept sample_guild1 sample_guild3
    \<and> writer_key_for_retained_revision sample_guild3 1 1 = Some 7"
proof -
  have "writer_key_for_retained_revision sample_guild1 1 1 = Some 7" by (simp add: writer_key_for_retained_revision_def sample_guild1_def)
  moreover have "apply_events sample_guild_env [sample_add_group, sample_relabel] sample_guild1 = (sample_guild3, Ok ())" by (simp add: sample_apply)
  from guild_history_append_only [OF this sample_run_valid(1)] calculation show ?thesis by simp
qed

theorem coding_groups_survive_retention_witness:
  "(\<exists>e' \<in> set (gs_coding_groups sample_guild3). group_extends [event_kind sample_relabel] sample_retained e')
    \<or> retention_ended [event_kind sample_relabel] (gs_event_sequence sample_guild3) sample_retained"
  using coding_groups_survive_retention [of sample_guild_env "[sample_relabel]" sample_guild2 sample_guild3 sample_retained]
  by (simp add: sample_apply sample_guild2_def [THEN arg_cong [of _ _ gs_coding_groups]])

theorem membership_change_fences_attempts_witness:
  "validate_attempt_authority sample_guild_env sample_guild3 sample_plan = Err InvalidAttempt"
proof (rule membership_change_fences_attempts)
  show "validate_attempt_authority sample_guild_env sample_guild2 sample_plan = Ok ()"
    by (simp add: validate_attempt_authority_def sample_plan_valid require_active_member_def sample_run_simps) (simp add: sample_plan_def)
  show "apply_events sample_guild_env [sample_relabel] sample_guild2 = (sample_guild3, Ok ())" by (simp add: sample_apply)
  show "\<exists>c \<in> set [sample_relabel]. is_membership (event_kind c)" by (simp add: is_membership_def sample_relabel_def)
qed

theorem apply_tail_atomic_and_batched_witness:
  "\<exists>t. apply_tail sample_guild_env (tail_at sample_guild [sample_rotate]) sample_guild = (t, Ok ())
    \<and> apply_tail sample_guild_env (tail_at t [sample_add_group]) t = (sample_guild2, Ok ())"
  using apply_tail_atomic_and_batched [of "[sample_rotate]" "[sample_add_group]" sample_guild_env sample_guild sample_guild2]
  by (simp add: sample_apply apply_tail_at_Ok)

lemma sample_reachable: "reachable sample_guild_env sample_guild1"
proof (rule reachable.event [OF _ sample_apply_rotate], rule reachable.genesis [of _ 5 9 sample_majority sample_members])
  have "sort_key mb_node_id sample_members = sample_members" by (simp add: sample_members_def sample_member_def)
  then show "guild_new sample_guild_env 5 9 sample_majority sample_members = Ok sample_guild"
    by (simp only: guild_new_def Let_def sample_guild_def [symmetric] sample_guild_valid and_then_simps)
qed

theorem reachable_guild_wf_witness: "guild_wf sample_guild_env sample_guild1 \<and> counters_bounded sample_guild1"
  by (rule reachable_guild_wf [OF sample_reachable])

theorem guild_events_never_panic_witness:
  "panic_free (snd (apply_event sample_guild_env sample_rotate sample_guild1) :: ((unit, unit) guild_state_error, unit) result)"
  by (rule guild_events_never_panic [OF sample_reachable, THEN conjunct1]) (simp add: sample_run_simps)


section \<open>Genesis, bindings, envelopes and snapshots\<close>

definition sample_genesis :: quorum_guild_genesis where
  "sample_genesis = \<lparr>qg_genesis = \<lparr>ge_format_version = 1, ge_guild_id = 5, ge_coordinator = 11, ge_members = sample_members\<rparr>,
     qg_signatures = map sample_vote [1, 2, 11, 12, 13]\<rparr>"

lemma sample_vote_verifies: "ms_signature (sample_vote k) = ucast k # 3 # zeros 62" "last (signing_payload domain [3]) = 3"
  by (simp_all add: sample_vote_def signing_payload_def)

lemma sample_genesis_verifies: "quorum_genesis_verify sample_crypto (\<lambda>_. Inr [3]) sample_genesis = Ok ()"
  by (simp add: quorum_genesis_verify_def sample_genesis_def genesis_validate_def validate_members_def sample_members_def sample_member_def
      canonical_bytes_def sample_vote_verifies Let_def)

theorem genesis_unanimous_witness:
  "\<exists>sig \<in> set (qg_signatures sample_genesis). ms_signer sig = mb_node_id (sample_member 13 ''e'')"
proof -
  have "sample_member 13 ''e'' \<in> set (ge_members (qg_genesis sample_genesis))" by (simp add: sample_genesis_def sample_members_def)
  then show ?thesis using genesis_unanimous [OF sample_genesis_verifies] by (elim exE conjE) (drule (1) bspec, elim bexE conjE, rule bexI)
qed

definition sample_binding :: "digest \<Rightarrow> quorum_legacy_coding_add_binding" where
  "sample_binding transcript_hash = \<lparr>lb_statement = \<lparr>ls_format_version = 1, ls_guild_id = 5, ls_event_sequence = 2, ls_event_hash = 4,
     ls_transcript_hash = transcript_hash\<rparr>, lb_signatures = map sample_vote [2, 11, 12]\<rparr>"

lemma sample_statement_signature: "verify_legacy_coding_add_signature sample_guild_env statement (sample_vote k) = Ok ()"
  by (simp add: verify_legacy_coding_add_signature_def verify_member_signature_def Let_def canonical_bytes_def sample_vote_verifies)

lemma sample_binding_verifies:
  "h \<noteq> 0 \<Longrightarrow> binding_verify sample_guild_env (sample_binding h) sample_guild1 sample_add_group = Ok ()"
  unfolding binding_verify_def sample_certified(2) and_then_simps
  by (simp add: sample_binding_def sample_add_group_def is_legacy_add_def sample_statement_signature sample_run_simps)

theorem bindings_share_signer_witness:
  "\<exists>sig \<in> set (lb_signatures (sample_binding 1)). \<exists>sig' \<in> set (lb_signatures (sample_binding 2)). ms_signer sig = ms_signer sig'
    \<and> (\<exists>own \<in> set (qe_signatures sample_add_group). ms_signer own = ms_signer sig
        \<and> verify_guild_event_signature sample_guild_env (qe_event sample_add_group) own = (Ok () :: ((unit, unit) guild_state_error, _) result))"
  using bindings_share_signer [where ?'x = unit, OF sample_binding_verifies [of 1] sample_binding_verifies [of 2]] by auto

definition sample_plaintext :: envelope_plaintext where
  "sample_plaintext = (1, 5, 4, 1, sample_recovery_key, sample_recovery_key)"

definition sample_envelope :: recovery_key_envelope where
  "sample_envelope = \<lparr>en_format_version = 1, en_guild_id = 5, en_subject = 4, en_epoch = 1, en_public_key = sample_recovery_key,
     en_sealed_private_key = \<lparr>sr_format_version = 1, sr_ephemeral_public_key = 3, sr_nonce = zeros 24, sr_ciphertext = [3] @ zeros 16\<rparr>\<rparr>"

theorem envelope_roundtrip_witness:
  "open_recovery_key_envelope sample_crypto (\<lambda>_. Inr sample_plaintext) (sample_keys 4) sample_envelope
    = (Ok sample_recovery_key :: ((unit, unit) guild_state_error, _) result)"
proof (rule envelope_roundtrip [where enc = "\<lambda>v. if v = sample_plaintext then Inr [3] else Inl ()"
      and secret = sample_recovery_key and ephemeral = 3 and nonce = "zeros 24" and guild_id = 5 and epoch = 1, THEN conjunct1])
  show "create_recovery_key_envelope sample_crypto (\<lambda>v. if v = sample_plaintext then Inr [3] else Inl ()) sample_recovery_key 3 (zeros 24)
      (sample_keys 4) 5 1 = (Ok (sample_envelope, sample_recovery_key) :: ((unit, unit) guild_state_error, _) result)"
    by (simp add: create_recovery_key_envelope_def epoch_public_key_def canonical_bytes_def sample_plaintext_def key_node_id_def sample_keys_def
        seal_recovery_record_def recovery_public_key_def sample_encrypt sample_envelope_def)
  show "validate_recovery_envelope sample_crypto sample_envelope 5 = (Ok () :: ((unit, unit) guild_state_error, _) result)"
    by (simp add: validate_recovery_envelope_def sample_envelope_def)
qed (auto simp: sample_crypto_correct split: if_splits)

definition sample_sizes :: "unit size_env" where
  "sample_sizes = \<lparr>sz_full = (), sz_certified = \<lambda>_. ([], None), sz_event = \<lambda>_. ([], None), sz_group = \<lambda>_. ([], None),
     sz_binding = \<lambda>_. ([], None), sz_genesis = \<lambda>_. ([], None), sz_snapshot = \<lambda>_. ([], None),
     sz_snapshot_to_slice = \<lambda>_ _. Inr []\<rparr>"

lemma sample_size: "canonical_size_bounded (sz_full sample_sizes) (sz_certified sample_sizes) c GUILD_EVENT_BYTES = Ok 0"
  by (simp add: canonical_size_bounded_def serialize_with_flavor_def sample_sizes_def)

theorem snapshot_refines_guild_witness:
  "\<exists>t'. advance sample_guild_env sample_sizes (full_effects sample_guild_env) sample_rotate (snapshot_of sample_guild, sample_guild)
    = ((snapshot_of sample_guild1, t'), Ok () :: ((unit, unit) guild_state_error, unit) result)"
  using snapshot_refines_guild [OF sample_guild_valid sample_size, where a = "snapshot_of sample_guild1" and c = sample_rotate]
  by (auto simp: sample_apply_rotate)

end
