(* ===== verification/Spec2Isabelle.thy ===== *)
theory Spec2Isabelle
  imports Merkle_Accumulator Catalog_Frames Catalog_Splice Packing_Authenticated Guild_Instances
begin

text \<open>
  A verification development for MutualBackup, a peer-to-peer backup program in which the members of a guild
  store each other's encrypted, erasure-coded data. The subject is \<open>src/crates/mb-core\<close>, the crate of
  deterministic protocol primitives: it does no I/O, and the other crates (\<open>mb-store\<close>, \<open>mb-git\<close>, \<open>mb-node\<close>,
  \<open>cmd\<close>) surround it with a database, Git, a network and a file system.

  \<^bold>\<open>Parts of the program and how they meet.\<close> Sectors of data are committed to by Merkle roots (\<open>range.rs\<close>).
  Small objects of several members share packed sectors, described by signed catalogs (\<open>packing.rs\<close>).
  Sectors of different members form coding groups over a Reed-Solomon code (\<open>coding.rs\<close>, \<open>model.rs\<close>); a
  delegate encodes the parity and the owners check random leaves against the commitments (\<open>attempt.rs\<close>).
  Members, writer keys, recovery keys and coding groups are the state of the guild, changed only by events
  that a quorum signs (\<open>guild.rs\<close>, \<open>guild/authority.rs\<close>; \<open>model.rs\<close> for the genesis; \<open>keys.rs\<close>, \<open>recovery.rs\<close>
  for keys). Long lists are written as trees of hashed pages and read back from untrusted stores
  (\<open>catalog.rs\<close> and \<open>catalog/\<close>).

  \<^bold>\<open>Conventions\<close> (\<open>Prelude\<close>). A Rust \<open>Result\<close> is \<open>('e, 'a) result\<close>; its left summand is an error value or
  \<open>Panic\<close>, so that an \<open>unwrap\<close>, an index out of range and an arithmetic overflow are branches of the model.
  Unsigned integers are naturals, with \<open>uadd\<close>, \<open>usub\<close> and \<open>checked_add\<close> at the width of the source; a
  32-byte digest or key is a \<open>256 word\<close>, a byte an \<open>8 word\<close>. A method that changes an object or calls a
  callback is an \<open>op\<close> on the pair of the object and the callback's environment, and the state after an error
  is the one the code leaves. Structs are records with a prefix per type, enums are datatypes. BLAKE3,
  Ed25519, HPKE, Postcard and the Reed-Solomon library are parameters (records of functions); what the code
  relies on is a named predicate on them (\<open>codec_roundtrip\<close>, \<open>rs_contract\<close>, \<open>collision_free\<close>,
  \<open>no_second_preimage\<close>, \<open>lawful_sink\<close>, \<open>aead_correct\<close>, \<open>ed25519_correct\<close>) and every property that assumes one has a witness
  with a concrete instance. The hypotheses on BLAKE3 speak only of the inputs hashed in the run in question and of the bytes a callback returns,
  so that a hash function with collisions elsewhere satisfies them.

  \<^bold>\<open>Theories.\<close>
  \<^item> \<open>Fence\<close>: the failure flag all streaming objects share. Locale \<open>fence\<close> (errors are final), \<open>guarded\<close> (the
    wrapper that implements it) and \<open>item_stream\<close> (the contract of a reader: exact over an honest callback,
    never wrong over a dishonest one); each is interpreted on the model of every builder and reader.
  \<^item> \<open>Merkle\<close>, \<open>Merkle_Accumulator\<close> (\<open>range.rs\<close>): commitments, openings of ranges and subtrees, challenges, and
    the streaming accumulator. Openings of honest data verify; an accepted opening is of the committed data;
    the accumulator and the one-pass function agree with the reference commitment. \<open>Merkle_Binding\<close> has the binding
    of commitments and subtree roots that the packing proofs use.
  \<^item> \<open>BTree\<close>, \<open>Packing_Slots\<close>, \<open>Packing\<close>, \<open>Packing_Valid\<close>, \<open>Packing_Unpack\<close>, \<open>Packing_Authenticated\<close> (\<open>packing.rs\<close>):
    the slot allocator over ordered sets and maps, packed catalogs with their identifiers, evidence and
    validation, and the recovery of objects. Validation and recovery never panic, two recoveries of an object
    agree, and an authenticated object is recovered as its owner committed to it.
  \<^item> \<open>Coding\<close> (\<open>coding.rs\<close>): profiles, \<open>encode\<close>, \<open>reconstruct\<close>, sampled verification.
  \<^item> \<open>Keys\<close> (\<open>keys.rs\<close>, \<open>recovery.rs\<close>): recovery strings, derived keys, signing payloads, wrapping and sealing.
  \<^item> \<open>Coding_Group\<close> (\<open>model.rs\<close>: \<open>SignedRecord\<close>, \<open>CodingGroupV2\<close>): group validation; a valid group survives the
    loss of as many failure domains as it has parity shards; sampled openings are sound and exact.
  \<^item> \<open>Attempt\<close>, \<open>Attempt_Instances\<close> (\<open>attempt.rs\<close>): plans, manifests, commit-reveal challenges, transcripts and
    their replay. A verified replay means that all signatures in the transcript verify and the sampled leaves
    satisfy the code; a bad opening or a bad coding is blamed on its signer.
  \<^item> \<open>Guild\<close>, \<open>Guild_Safety\<close>, \<open>Guild_History\<close>, \<open>Guild_Reachable\<close>, \<open>Guild_Binding\<close>, \<open>Guild_Instances\<close> (\<open>guild.rs\<close>): the
    quorum rules, every event kind, state validation, \<open>apply_tail\<close>. Locale \<open>majority_rule\<close> gives quorum
    intersection, \<open>record_history\<close> and \<open>run_relation\<close> carry relations along runs; the inductive \<open>reachable\<close> and
    its invariant \<open>guild_wf\<close> give panic freedom. \<open>Guild_Binding\<close> has the recovery envelopes and the bindings of
    legacy coding additions.
  \<^item> \<open>Guild_Authority\<close> (\<open>guild/authority.rs\<close>): the bounded projection; \<open>snapshot_of\<close> is a refinement map and every
    event commutes with it.
  \<^item> \<open>Genesis\<close> (\<open>model.rs\<close>) and \<open>Canonical\<close> (\<open>canonical.rs\<close>): unanimous genesis records; the bounded encoders agree
    with the unbounded one up to the limit.
  \<^item> \<open>Catalog_Page\<close>, \<open>Catalog_Builder\<close>, \<open>Catalog_Bounds\<close>, \<open>Catalog_Reader\<close>, \<open>Catalog_Work\<close>, \<open>Catalog_Stream\<close>
    (\<open>catalog.rs\<close>): pages and references, the builder, the reader. \<open>tree_leaves\<close> is the meaning of a root in a
    page store: building and reading are inverse, the format's limits suffice for every stream of up to
    16 GiB, and a reader fetches each declared page at most once.
  \<^item> \<open>Catalog_Range\<close> (\<open>catalog/range.rs\<close>), \<open>Catalog_Records\<close>, \<open>Catalog_Frames\<close> (\<open>catalog/records.rs\<close>),
    \<open>Catalog_Path\<close> (\<open>catalog/path.rs\<close>), \<open>Catalog_Splice\<close> (\<open>catalog/splice.rs\<close>): reading a byte range, records framed
    over the stream, reading one page below a trusted root, and path-copying edits, each against a
    specification on byte lists. \<open>edit_rewrites\<close> names the pages one edit makes, for the hypothesis that
    none of them collides with the page it replaces.

  \<^bold>\<open>Bounds.\<close> No model uses fuel: loops are structural recursions or have a termination proof. The
  traversal loops decrease the page occurrences the root still declares (\<open>reader_next_inner\<close>, \<open>ensure_leaf\<close>),
  the weight of the pending stack (\<open>range_next_inner\<close>) or the page height (\<open>edit_visit\<close>, \<open>tree_leaves\<close>). The constants
  (61440-byte leaves, 128 children, height 3, 1000000 page occurrences, 16 GiB) are those of the source.

  \<^bold>\<open>Not modelled.\<close> The postcard wire format and the serde visitors that limit collections while it is decoded
  (\<open>bounded.rs\<close>, \<open>guild/bounded_event.rs\<close>), which are code of the decoder; the typed record schemas over catalog
  streams and the checkpoint envelopes (the other files of \<open>catalog/\<close>, \<open>paged_checkpoint.rs\<close>), whose content is
  that of their encodings; the functions of \<open>packing.rs\<close> that fill sectors with chunks, and \<open>content.rs\<close>, which
  encrypts them; the version-one coding group and the flat checkpoints of \<open>model.rs\<close>; and the crates
  around the core, whose behaviour is that of SQLCipher, libgit2, libp2p, Tor and the file system.
\<close>

end
